theory Spec2Isabelle
  imports Complex_Main "HOL-Library.Signed_Division" "HOL-Library.Log_Nat"
begin

section \<open>Strings and numbers of the runtime\<close>

text \<open>
  A \<open>string\<close> is a list of \<open>char\<close>; a \<open>char\<close> stands for a UTF-16 code unit below 256
  (ASCII and Latin-1). Code units from 256 on are outside the model.

  A JavaScript \<open>number\<close> is \<open>NaN\<close>, an infinity or a finite value, here the rational
  that the double stands for. Zero has no sign: \<open>-0\<close> and \<open>+0\<close> are the one value
  \<open>Finite 0\<close>.
\<close>

datatype number = NaN | Infinity | NegInfinity | Finite rat

text \<open>\<open>Number.isFinite\<close>.\<close>

fun isFinite :: "number \<Rightarrow> bool" where
  "isFinite (Finite _) = True"
| "isFinite _ = False"

subsection \<open>Rounding to a double\<close>

text \<open>
  The arithmetic of \<open>weiToNumber\<close> is that of IEEE 754 binary64: the result of an
  operation is the exact result rounded to the nearest double, ties to the even
  mantissa.

  \<open>binade x\<close> is \<open>floor (log2 x)\<close> for a positive \<open>x\<close>: the exponent \<open>e\<close> with
  \<open>2^e \<le> x < 2^(e+1)\<close>.
\<close>

definition binade :: "rat \<Rightarrow> int" where
  "binade x = (if 1 \<le> x then bitlen \<lfloor>x\<rfloor> - 1 else - bitlen (\<lceil>1 / x\<rceil> - 1))"

text \<open>The nearest integer, a tie going to the even one.\<close>

definition roundTiesEven :: "rat \<Rightarrow> int" where
  "roundTiesEven x =
     (let n = \<lfloor>x\<rfloor>; r = x - of_int n
      in if r < 1 / 2 then n else if 1 / 2 < r then n + 1 else if even n then n else n + 1)"

text \<open>The distance between neighbouring doubles around a positive \<open>a\<close>: 53 bits of
  mantissa in the binade of \<open>a\<close>, and \<open>2^-1074\<close> below \<open>2^-1022\<close> (subnormal numbers).\<close>

definition ulpOf :: "rat \<Rightarrow> rat" where
  "ulpOf a = 2 powi (max (binade a) (- 1022) - 52)"

text \<open>The multiple of that distance nearest to a positive \<open>a\<close>.\<close>

definition nearest :: "rat \<Rightarrow> rat" where
  "nearest a = of_int (roundTiesEven (a / ulpOf a)) * ulpOf a"

text \<open>The double of a rational: an infinity when the rounded magnitude reaches
  \<open>2^1024\<close>.\<close>

definition roundDouble :: "rat \<Rightarrow> number" where
  "roundDouble x =
     (if x = 0 then Finite 0
      else (let r = nearest \<bar>x\<bar>
            in if 2 powi 1024 \<le> r then (if x < 0 then NegInfinity else Infinity)
               else Finite (if x < 0 then - r else r)))"

text \<open>\<open>Number(bigint)\<close>, and \<open>+\<close> and \<open>/\<close> on two doubles as \<open>weiToNumber\<close> uses them.
  A finite value divided by zero takes the sign of the dividend.\<close>

definition Number_bigint :: "int \<Rightarrow> number" where
  "Number_bigint n = roundDouble (of_int n)"

fun double_add :: "number \<Rightarrow> number \<Rightarrow> number" where
  "double_add (Finite a) (Finite b) = roundDouble (a + b)"
| "double_add NaN _ = NaN"
| "double_add _ NaN = NaN"
| "double_add Infinity NegInfinity = NaN"
| "double_add NegInfinity Infinity = NaN"
| "double_add Infinity _ = Infinity"
| "double_add _ Infinity = Infinity"
| "double_add NegInfinity _ = NegInfinity"
| "double_add _ NegInfinity = NegInfinity"

fun double_div :: "number \<Rightarrow> number \<Rightarrow> number" where
  "double_div (Finite a) (Finite b) =
     (if b = 0 then (if a = 0 then NaN else if 0 < a then Infinity else NegInfinity)
      else roundDouble (a / b))"
| "double_div NaN _ = NaN"
| "double_div _ NaN = NaN"
| "double_div (Finite a) _ = Finite 0"
| "double_div Infinity (Finite b) = (if 0 \<le> b then Infinity else NegInfinity)"
| "double_div NegInfinity (Finite b) = (if 0 \<le> b then NegInfinity else Infinity)"
| "double_div _ _ = NaN"

text \<open>Unary minus.\<close>

fun negate :: "number \<Rightarrow> number" where
  "negate (Finite q) = Finite (- q)"
| "negate Infinity = NegInfinity"
| "negate NegInfinity = Infinity"
| "negate NaN = NaN"

subsection \<open>Sums and comparisons in the route handlers\<close>

text \<open>
  The accumulators of the two walks and the stake sum are numbers. On them \<open>0\<close> is
  \<open>Finite 0\<close> and \<open>+\<close> is the sum of the values: exact on two finite values (the
  rounding of these sums is not modelled), and as IEEE 754 has it on \<open>NaN\<close> and the
  infinities. \<open>\<le>\<close> and \<open><\<close> are the comparisons of the language: false whenever an
  operand is \<open>NaN\<close>.
\<close>

instantiation number :: "{comm_monoid_add, ord}"
begin

definition zero_number :: number where
  "zero_number = Finite 0"

fun plus_number :: "number \<Rightarrow> number \<Rightarrow> number" where
  "plus_number (Finite a) (Finite b) = Finite (a + b)"
| "plus_number NaN _ = NaN"
| "plus_number _ NaN = NaN"
| "plus_number Infinity NegInfinity = NaN"
| "plus_number NegInfinity Infinity = NaN"
| "plus_number Infinity _ = Infinity"
| "plus_number _ Infinity = Infinity"
| "plus_number NegInfinity _ = NegInfinity"
| "plus_number _ NegInfinity = NegInfinity"

fun less_eq_number :: "number \<Rightarrow> number \<Rightarrow> bool" where
  "less_eq_number (Finite a) (Finite b) = (a \<le> b)"
| "less_eq_number NaN _ = False"
| "less_eq_number _ NaN = False"
| "less_eq_number NegInfinity _ = True"
| "less_eq_number _ Infinity = True"
| "less_eq_number _ _ = False"

fun less_number :: "number \<Rightarrow> number \<Rightarrow> bool" where
  "less_number (Finite a) (Finite b) = (a < b)"
| "less_number NaN _ = False"
| "less_number _ NaN = False"
| "less_number Infinity _ = False"
| "less_number _ NegInfinity = False"
| "less_number _ _ = True"

instance
proof
  fix x y z :: number
  show "0 + x = x"
    by (cases x) (simp_all add: zero_number_def)
  show "x + y = y + x"
    by (cases x; cases y) simp_all
  show "x + y + z = x + (y + z)"
    by (cases x; cases y; cases z) simp_all
qed

end

text \<open>White space and line terminators that \<open>String.prototype.trim\<close> and the numeric
  string grammars strip: TAB, LF, VT, FF, CR, SP and NBSP.\<close>

definition isWhiteSpace :: "char \<Rightarrow> bool" where
  "isWhiteSpace c = (of_char c \<in> {9, 10, 11, 12, 13, 32, 160 :: nat})"

definition trim :: "string \<Rightarrow> string" where
  "trim s = rev (dropWhile isWhiteSpace (rev (dropWhile isWhiteSpace s)))"

text \<open>\<open>toLowerCase\<close> on one code unit: A-Z, and the Latin-1 capitals except the
  multiplication sign.\<close>

definition lowerChar :: "char \<Rightarrow> char" where
  "lowerChar c =
     (let n = (of_char c :: nat)
      in if (65 \<le> n \<and> n \<le> 90) \<or> (192 \<le> n \<and> n \<le> 222 \<and> n \<noteq> 215)
         then char_of (n + 32) else c)"

definition toLowerCase :: "string \<Rightarrow> string" where
  "toLowerCase s = map lowerChar s"

text \<open>\<open>s.split(",")\<close>: the pieces between commas; the empty string gives one empty
  piece.\<close>

fun split_comma :: "string \<Rightarrow> string list" where
  "split_comma [] = [[]]"
| "split_comma (c # cs) =
     (if c = CHR '','' then [] # split_comma cs
      else (case split_comma cs of [] \<Rightarrow> [[c]] | p # ps \<Rightarrow> (c # p) # ps))"

subsection \<open>BigInt\<close>

definition isDigit :: "char \<Rightarrow> bool" where
  "isDigit c = (48 \<le> (of_char c :: nat) \<and> (of_char c :: nat) \<le> 57)"

text \<open>The value of a digit in a radix up to 16; \<open>None\<close> when the character is no digit
  of that radix.\<close>

definition digitVal :: "nat \<Rightarrow> char \<Rightarrow> nat option" where
  "digitVal radix c =
     (let n = (of_char c :: nat);
          v = (if 48 \<le> n \<and> n \<le> 57 then Some (n - 48)
               else if 97 \<le> n \<and> n \<le> 102 then Some (n - 87)
               else if 65 \<le> n \<and> n \<le> 70 then Some (n - 55)
               else None)
      in case v of None \<Rightarrow> None | Some d \<Rightarrow> if d < radix then Some d else None)"

fun digitsValue :: "nat \<Rightarrow> int \<Rightarrow> string \<Rightarrow> int option" where
  "digitsValue radix acc [] = Some acc"
| "digitsValue radix acc (c # cs) =
     (case digitVal radix c of
        None \<Rightarrow> None
      | Some d \<Rightarrow> digitsValue radix (acc * int radix + int d) cs)"

text \<open>One or more digits of the radix.\<close>

definition parseDigits :: "nat \<Rightarrow> string \<Rightarrow> int option" where
  "parseDigits radix s = (if s = [] then None else digitsValue radix 0 s)"

text \<open>
  \<open>BigInt(string)\<close> (StringToBigInt of the language): white space around the literal is
  dropped; nothing left is \<open>0n\<close>; a literal is a decimal integer with an optional sign,
  or an unsigned \<open>0x\<close>, \<open>0o\<close> or \<open>0b\<close> literal. \<open>None\<close> is the SyntaxError.
\<close>

definition BigInt_string :: "string \<Rightarrow> int option" where
  "BigInt_string s =
     (case trim s of
        [] \<Rightarrow> Some 0
      | c # cs \<Rightarrow>
          if c = CHR ''0'' \<and> cs \<noteq> [] \<and> hd cs \<in> {CHR ''x'', CHR ''X''} then parseDigits 16 (tl cs)
          else if c = CHR ''0'' \<and> cs \<noteq> [] \<and> hd cs \<in> {CHR ''o'', CHR ''O''} then parseDigits 8 (tl cs)
          else if c = CHR ''0'' \<and> cs \<noteq> [] \<and> hd cs \<in> {CHR ''b'', CHR ''B''} then parseDigits 2 (tl cs)
          else if c = CHR ''+'' then parseDigits 10 cs
          else if c = CHR ''-'' then map_option uminus (parseDigits 10 cs)
          else parseDigits 10 (c # cs))"

text \<open>\<open>BigInt(number)\<close>: the RangeError (\<open>None\<close>) unless the number is an integer.\<close>

fun BigInt_number :: "number \<Rightarrow> int option" where
  "BigInt_number (Finite q) = (if q = of_int \<lfloor>q\<rfloor> then Some \<lfloor>q\<rfloor> else None)"
| "BigInt_number _ = None"

text \<open>\<open>a ** b\<close> on BigInts: the RangeError (\<open>None\<close>) for a negative exponent. BigInts
  are unbounded, as in the language; the size limit of an engine is not modelled.\<close>

definition BigInt_pow :: "int \<Rightarrow> int \<Rightarrow> int option" where
  "BigInt_pow a b = (if b < 0 then None else Some (a ^ nat b))"

section \<open>Wei/decimal converter\<close>

text \<open>
  \<open>weiToNumber\<close> is the same function in \<open>theta/rewards/route.ts\<close> and
  \<open>theta/earned/route.ts\<close>. Every exception inside the \<open>try\<close> gives \<open>null\<close> (\<open>None\<close>).
  BigInt \<open>/\<close> and \<open>%\<close> truncate towards zero (\<open>sdiv\<close>, \<open>smod\<close>); \<open>denom\<close> is never zero.
  The last line is computed in doubles: \<open>Number(whole)\<close> and \<open>Number(frac6)\<close> are the
  doubles of the two BigInts, and the quotient and the sum are rounded.
\<close>

definition weiToNumber :: "string \<Rightarrow> number \<Rightarrow> number option" where
  "weiToNumber wei decimals =
     (case BigInt_string wei of
        None \<Rightarrow> None
      | Some bi \<Rightarrow>
          (case BigInt_number decimals of
             None \<Rightarrow> None
           | Some d \<Rightarrow>
               (case BigInt_pow 10 d of
                  None \<Rightarrow> None
                | Some denom \<Rightarrow>
                    (let whole = bi sdiv denom;
                         frac = bi smod denom;
                         frac6 = (frac * 1000000) sdiv denom
                     in Some (double_add (Number_bigint whole)
                               (double_div (Number_bigint frac6) (Finite 1000000)))))))"

text \<open>
  The display value as the specification writes it, for a base amount and a number of
  decimals: \<open>floor(base/10^decimals) + floor((base mod 10^decimals) * 10^6 / 10^decimals) / 10^6\<close>.
\<close>

definition displayValue :: "int \<Rightarrow> nat \<Rightarrow> rat" where
  "displayValue base decimals =
     of_int (base div 10 ^ decimals)
       + of_int ((base mod 10 ^ decimals) * 10 ^ 6 div 10 ^ decimals) / 10 ^ 6"

text \<open>
  The same formula as the code evaluates it for a base amount that is not negative: the
  two floors are exact integers, each is turned into a double, and the quotient by
  \<open>10^6\<close> and the sum are rounded.
\<close>

definition displayDouble :: "int \<Rightarrow> nat \<Rightarrow> number" where
  "displayDouble base decimals =
     double_add (Number_bigint (base div 10 ^ decimals))
       (double_div (Number_bigint ((base mod 10 ^ decimals) * 10 ^ 6 div 10 ^ decimals))
          (Finite 1000000))"

section \<open>The explorer's responses\<close>

text \<open>
  The JSON types of the route files, with an \<open>option\<close> for every optional field. Fields
  that no handler reads (\<open>type\<close>, \<open>body.address\<close>, \<open>balance.thetawei\<close>) are left out.
\<close>

record out_coins =
  c_tfuelwei :: "string option"

record tx_output =
  o_address :: "string option"
  o_coins :: "out_coins option"

record txdata =
  d_outputs :: "tx_output list option"

record tx =
  tx_timestamp :: "string option"
  tx_data :: "txdata option"

record ExplorerAccountTxResponse =
  p_body :: "tx list option"
  p_totalPageNumber :: "int option"
  p_currentPageNumber :: "int option"

record account_balance =
  b_tfuelwei :: "string option"

record account_body =
  ab_balance :: "account_balance option"

record ExplorerAccountResponse =
  acct_body :: "account_body option"

record source_record =
  sr_amount :: "string option"
  sr_withdrawn :: "bool option"

record stake_records =
  sb_sourceRecords :: "source_record list option"

record ExplorerStakeResponse =
  stake_body :: "stake_records option"

text \<open>
  \<open>fetchJson\<close> throws on a response that is not ok, and rejects when the request or the
  JSON decoding fails. The explorer is a record of functions from the request to what
  \<open>fetchJson\<close> gives: one snapshot of the explorer for the time of one request.
  \<open>accounttx\<close> takes the address, \<open>pageNumber\<close> and \<open>limitNumber\<close>.
\<close>

datatype error = ExplorerHttp nat string | FetchRejected

record upstream =
  account :: "string \<Rightarrow> error + ExplorerAccountResponse"
  stake :: "string \<Rightarrow> error + ExplorerStakeResponse"
  accounttx :: "string \<Rightarrow> int \<Rightarrow> int \<Rightarrow> error + ExplorerAccountTxResponse"

text \<open>The requests sent to the explorer, recorded in the order the model makes them.\<close>

datatype call = AccountCall string | StakeCall string | AccountTxCall string int int

definition getAccount :: "upstream \<Rightarrow> string \<Rightarrow> error + ExplorerAccountResponse" where
  "getAccount up address = account up address"

definition getStake :: "upstream \<Rightarrow> string \<Rightarrow> error + ExplorerStakeResponse" where
  "getStake up address = stake up address"

definition getCoinbaseTxs :: "upstream \<Rightarrow> string \<Rightarrow> int \<Rightarrow> error + ExplorerAccountTxResponse" where
  "getCoinbaseTxs up address limit = accounttx up address 1 limit"

definition getCoinbaseTxPage ::
  "upstream \<Rightarrow> string \<Rightarrow> int \<Rightarrow> int \<Rightarrow> error + ExplorerAccountTxResponse" where
  "getCoinbaseTxPage up address page limit = accounttx up address page limit"

text \<open>\<open>getCoinbasePage\<close> of the earned route.\<close>

definition getCoinbasePage ::
  "upstream \<Rightarrow> string \<Rightarrow> int \<Rightarrow> int \<Rightarrow> error + ExplorerAccountTxResponse" where
  "getCoinbasePage up address page limit = accounttx up address page limit"

section \<open>Reading one transaction record\<close>

text \<open>
  \<open>Number(string)\<close> gives a double; the model takes it as the parameter \<open>toNumber\<close>, so
  what is proved holds for whatever it computes.

  \<open>tx.timestamp ? Number(tx.timestamp) : null\<close>: a missing or empty string is \<open>null\<close>.
\<close>

definition timestampNumber :: "(string \<Rightarrow> number) \<Rightarrow> tx \<Rightarrow> number option" where
  "timestampNumber toNumber t =
     (case tx_timestamp t of
        None \<Rightarrow> None
      | Some s \<Rightarrow> if s = [] then None else Some (toNumber s))"

text \<open>The guard \<open>if (!ts || !Number.isFinite(ts)) continue\<close>: \<open>None\<close> when the record
  is skipped (\<open>null\<close>, \<open>0\<close>, \<open>NaN\<close>, an infinity), else the timestamp.\<close>

fun usableTs :: "number option \<Rightarrow> rat option" where
  "usableTs (Some (Finite q)) = (if q = 0 then None else Some q)"
| "usableTs _ = None"

definition tsOf :: "(string \<Rightarrow> number) \<Rightarrow> tx \<Rightarrow> rat option" where
  "tsOf toNumber t = usableTs (timestampNumber toNumber t)"

text \<open>
  The self-output amount, the same lines in both loops: the first output whose lowercased
  address is the queried address, its \<open>tfuelwei\<close> (skipped when missing or empty),
  converted with 18 decimals (skipped when \<open>null\<close> or not positive).
\<close>

definition rewardAmount :: "string \<Rightarrow> tx \<Rightarrow> number option" where
  "rewardAmount address t =
     (let outputs = (case tx_data t of
                       None \<Rightarrow> []
                     | Some d \<Rightarrow> (case d_outputs d of None \<Rightarrow> [] | Some os \<Rightarrow> os))
      in case find (\<lambda>out. map_option toLowerCase (o_address out) = Some address) outputs of
           None \<Rightarrow> None
         | Some match \<Rightarrow>
             (case o_coins match of
                None \<Rightarrow> None
              | Some c \<Rightarrow>
                  (case c_tfuelwei c of
                     None \<Rightarrow> None
                   | Some tfuelwei \<Rightarrow>
                       if tfuelwei = [] then None
                       else (case weiToNumber tfuelwei (Finite 18) of
                               None \<Rightarrow> None
                             | Some amt \<Rightarrow> if amt \<le> 0 then None else Some amt))))"

text \<open>\<open>x ?? []\<close> on an optional list.\<close>

definition orEmpty :: "'a list option \<Rightarrow> 'a list" where
  "orEmpty xs = (case xs of None \<Rightarrow> [] | Some ys \<Rightarrow> ys)"

text \<open>\<open>x || null\<close> on a number: zero and \<open>NaN\<close>, the numbers that are falsy, become
  \<open>null\<close>.\<close>

definition orNull :: "number \<Rightarrow> number option" where
  "orNull x = (if x = 0 \<or> x = NaN then None else Some x)"

text \<open>The stop test \<open>totalPages != null && currentPage >= totalPages\<close>, with
  \<open>currentPage = currentPageNumber ?? page\<close>.\<close>

definition lastPageReported :: "ExplorerAccountTxResponse \<Rightarrow> int \<Rightarrow> bool" where
  "lastPageReported res page =
     (let totalPages = p_totalPageNumber res;
          currentPage = (case p_currentPageNumber res of None \<Rightarrow> page | Some c \<Rightarrow> c)
      in case totalPages of None \<Rightarrow> False | Some n \<Rightarrow> currentPage \<ge> n)"

section \<open>Address lists\<close>

text \<open>\<open>toAddressList\<close> and \<open>isHexAddress\<close> are the same in both route files.\<close>

definition toAddressList :: "string \<Rightarrow> string list" where
  "toAddressList raw =
     map toLowerCase (filter (\<lambda>s. s \<noteq> []) (map trim (split_comma raw)))"

definition isLowerHex :: "char \<Rightarrow> bool" where
  "isLowerHex c =
     (let n = (of_char c :: nat) in (97 \<le> n \<and> n \<le> 102) \<or> (48 \<le> n \<and> n \<le> 57))"

text \<open>The test of \<open>/^0x[a-f0-9]{40}$/\<close>.\<close>

definition isHexAddress :: "string \<Rightarrow> bool" where
  "isHexAddress s =
     (case s of
        c0 # c1 # rest \<Rightarrow>
          c0 = CHR ''0'' \<and> c1 = CHR ''x'' \<and> length rest = 40 \<and> list_all isLowerHex rest
      | _ \<Rightarrow> False)"

section \<open>Accumulators\<close>

text \<open>The mutable variables of the two per-address closures. \<open>lastRewardAt\<close> is in
  both; \<open>pagesFetched\<close> counts the requests of the since-mode walk.\<close>

record reward_vars =
  lastRewardAt :: "rat option"

record earned_vars = reward_vars +
  total :: number
  pagesFetched :: int

record rewards_vars = reward_vars +
  rewards7d :: number
  rewards30d :: number

text \<open>\<open>if (lastRewardAt == null || ts > lastRewardAt) lastRewardAt = ts\<close>.\<close>

definition laterReward :: "rat \<Rightarrow> rat option \<Rightarrow> rat option" where
  "laterReward ts seen =
     (case seen of None \<Rightarrow> Some ts | Some l \<Rightarrow> if ts > l then Some ts else Some l)"

section \<open>Since-mode walker (theta/earned/route.ts)\<close>

definition earned_limit :: int where
  "earned_limit = 50"

definition earned_maxPages :: int where
  "earned_maxPages = 40"

text \<open>The body of \<open>for (const tx of body)\<close>, on the variables and the page's
  \<open>reachedBeforeSince\<close> flag.\<close>

definition earnedTx ::
  "(string \<Rightarrow> number) \<Rightarrow> string \<Rightarrow> rat \<Rightarrow> earned_vars \<times> bool \<Rightarrow> tx \<Rightarrow> earned_vars \<times> bool" where
  "earnedTx toNumber address sinceSec st t =
     (let (vars, reachedBeforeSince) = st
      in case tsOf toNumber t of
           None \<Rightarrow> (vars, reachedBeforeSince)
         | Some ts \<Rightarrow>
             if ts < sinceSec then (vars, True)
             else (case rewardAmount address t of
                     None \<Rightarrow> (vars, reachedBeforeSince)
                   | Some amt \<Rightarrow>
                       (vars\<lparr>total := total vars + amt,
                             lastRewardAt := laterReward ts (lastRewardAt vars)\<rparr>,
                        reachedBeforeSince)))"

text \<open>The loop \<open>for (let page = 1; page <= maxPages; page++)\<close>, from \<open>page\<close> on. It
  returns the requests made so far and either the error thrown by a fetch or the
  variables at the end of the loop.\<close>

function earnedLoop ::
  "upstream \<Rightarrow> (string \<Rightarrow> number) \<Rightarrow> string \<Rightarrow> rat \<Rightarrow> int \<Rightarrow> earned_vars \<Rightarrow> call list
     \<Rightarrow> call list \<times> (error + earned_vars)" where
  "earnedLoop up toNumber address sinceSec page vars calls =
     (if page \<le> earned_maxPages then
        (let vars1 = vars\<lparr>pagesFetched := pagesFetched vars + 1\<rparr>;
             calls1 = calls @ [AccountTxCall address page earned_limit]
         in case getCoinbasePage up address page earned_limit of
              Inl e \<Rightarrow> (calls1, Inl e)
            | Inr txs \<Rightarrow>
                (let body = orEmpty (p_body txs)
                 in if body = [] then (calls1, Inr vars1)
                    else (let st = foldl (earnedTx toNumber address sinceSec) (vars1, False) body
                          in if snd st then (calls1, Inr (fst st))
                             else if lastPageReported txs page then (calls1, Inr (fst st))
                             else earnedLoop up toNumber address sinceSec (page + 1) (fst st) calls1)))
      else (calls, Inr vars))"
  by pat_completeness auto
termination
  by (relation "measure (\<lambda>(up, toNumber, address, sinceSec, page, vars, calls).
        nat (earned_maxPages + 1 - page))") auto

record earned_result =
  er_address :: string
  er_earned :: "number option"
  er_lastRewardAt :: "rat option"
  er_pagesFetched :: int

text \<open>The closure of \<open>addresses.map\<close> for one address.\<close>

definition earnedAddress ::
  "upstream \<Rightarrow> (string \<Rightarrow> number) \<Rightarrow> rat \<Rightarrow> string \<Rightarrow> call list \<times> (error + earned_result)" where
  "earnedAddress up toNumber sinceSec address =
     (let walk = earnedLoop up toNumber address sinceSec 1
                   \<lparr>lastRewardAt = None, total = 0, pagesFetched = 0\<rparr> []
      in (fst walk,
          case snd walk of
            Inl e \<Rightarrow> Inl e
          | Inr vars \<Rightarrow>
              Inr \<lparr>er_address = address,
                   er_earned = orNull (total vars),
                   er_lastRewardAt = lastRewardAt vars,
                   er_pagesFetched = pagesFetched vars\<rparr>))"

section \<open>Windowed walker (theta/rewards/route.ts)\<close>

definition pageLimit :: int where
  "pageLimit = 50"

definition rewards_maxPages :: int where
  "rewards_maxPages = 25"

definition sec7d :: int where
  "sec7d = 7 * 24 * 60 * 60"

definition sec30d :: int where
  "sec30d = 30 * 24 * 60 * 60"

definition oldestNeeded :: "int \<Rightarrow> int" where
  "oldestNeeded nowSec = nowSec - sec30d"

text \<open>The body of the loop of \<open>ingest\<close>.\<close>

definition ingestTx ::
  "(string \<Rightarrow> number) \<Rightarrow> string \<Rightarrow> int \<Rightarrow> rewards_vars \<Rightarrow> tx \<Rightarrow> rewards_vars" where
  "ingestTx toNumber address nowSec vars t =
     (case tsOf toNumber t of
        None \<Rightarrow> vars
      | Some ts \<Rightarrow>
          if ts < of_int (oldestNeeded nowSec) then vars
          else (case rewardAmount address t of
                  None \<Rightarrow> vars
                | Some amt \<Rightarrow>
                    (let vars1 = vars\<lparr>lastRewardAt := laterReward ts (lastRewardAt vars)\<rparr>;
                         vars2 = (if ts \<ge> of_int (nowSec - sec7d)
                                  then vars1\<lparr>rewards7d := rewards7d vars1 + amt\<rparr> else vars1)
                     in if ts \<ge> of_int (nowSec - sec30d)
                        then vars2\<lparr>rewards30d := rewards30d vars2 + amt\<rparr> else vars2)))"

definition ingest ::
  "(string \<Rightarrow> number) \<Rightarrow> string \<Rightarrow> int \<Rightarrow> rewards_vars \<Rightarrow> tx list option \<Rightarrow> rewards_vars" where
  "ingest toNumber address nowSec vars list =
     foldl (ingestTx toNumber address nowSec) vars (orEmpty list)"

text \<open>The timestamp of \<open>body.at(-1)\<close> when it is present and finite, as both places
  that set \<open>oldestTsSeen\<close> compute it; zero is not excluded here.\<close>

definition lastTimestamp :: "(string \<Rightarrow> number) \<Rightarrow> tx list \<Rightarrow> rat option" where
  "lastTimestamp toNumber body =
     (if body = [] then None
      else (case timestampNumber toNumber (last body) of
              Some (Finite q) \<Rightarrow> Some q
            | _ \<Rightarrow> None))"

text \<open>The test \<open>oldestTsSeen != null && oldestTsSeen < oldestNeeded\<close>.\<close>

definition tooOld :: "int \<Rightarrow> rat option \<Rightarrow> bool" where
  "tooOld nowSec oldestTsSeen =
     (case oldestTsSeen of None \<Rightarrow> False | Some t \<Rightarrow> t < of_int (oldestNeeded nowSec))"

text \<open>\<open>oldestTsSeen\<close> after a page: its last timestamp when that is finite, else the
  value before.\<close>

definition seenOldest :: "(string \<Rightarrow> number) \<Rightarrow> tx list \<Rightarrow> rat option \<Rightarrow> rat option" where
  "seenOldest toNumber body oldestTsSeen =
     (case lastTimestamp toNumber body of None \<Rightarrow> oldestTsSeen | Some ts \<Rightarrow> Some ts)"

text \<open>The loop \<open>while (page <= maxPages)\<close>.\<close>

function rewardsLoop ::
  "upstream \<Rightarrow> (string \<Rightarrow> number) \<Rightarrow> string \<Rightarrow> int \<Rightarrow> int \<Rightarrow> rat option \<Rightarrow> rewards_vars
     \<Rightarrow> call list \<Rightarrow> call list \<times> (error + rewards_vars)" where
  "rewardsLoop up toNumber address nowSec page oldestTsSeen vars calls =
     (if page \<le> rewards_maxPages then
        (if tooOld nowSec oldestTsSeen then (calls, Inr vars)
         else (let calls1 = calls @ [AccountTxCall address page pageLimit]
               in case getCoinbaseTxPage up address page pageLimit of
                    Inl e \<Rightarrow> (calls1, Inl e)
                  | Inr pageRes \<Rightarrow>
                      (let body = orEmpty (p_body pageRes)
                       in if body = [] then (calls1, Inr vars)
                          else (let vars1 = ingest toNumber address nowSec vars (Some body);
                                    oldest1 = seenOldest toNumber body oldestTsSeen
                                in if lastPageReported pageRes page then (calls1, Inr vars1)
                                   else rewardsLoop up toNumber address nowSec (page + 1)
                                          oldest1 vars1 calls1))))
      else (calls, Inr vars))"
  by pat_completeness auto
termination
  by (relation "measure (\<lambda>(up, toNumber, address, nowSec, page, oldestTsSeen, vars, calls).
        nat (rewards_maxPages + 1 - page))") auto

text \<open>\<open>tfuelBalance\<close> and \<open>stakedTheta\<close> (before \<open>|| null\<close>) of one address.\<close>

definition tfuelBalanceOf :: "ExplorerAccountResponse \<Rightarrow> number option" where
  "tfuelBalanceOf acct =
     (case acct_body acct of
        None \<Rightarrow> None
      | Some b \<Rightarrow>
          (case ab_balance b of
             None \<Rightarrow> None
           | Some bal \<Rightarrow>
               (case b_tfuelwei bal of
                  None \<Rightarrow> None
                | Some w \<Rightarrow> if w = [] then None else weiToNumber w (Finite 18))))"

definition stakedThetaSum :: "ExplorerStakeResponse \<Rightarrow> number" where
  "stakedThetaSum stk =
     foldl (+) 0
       (List.map_filter
          (\<lambda>r. case sr_amount r of
                 None \<Rightarrow> None
               | Some a \<Rightarrow> if a = [] then None else weiToNumber a (Finite 18))
          (filter (\<lambda>r. sr_withdrawn r = Some False)
             (orEmpty (case stake_body stk of None \<Rightarrow> None | Some b \<Rightarrow> sb_sourceRecords b))))"

text \<open>
  A result of the route for one address. The handler builds it from numbers, which may
  be infinite; the page that fetches the response declares the same fields and reads
  them from JSON, where every number is finite. The type of the four amounts is the
  parameter: \<open>number\<close> in the handler, \<open>rat\<close> in the tracker.
\<close>

record 'n rewards_result =
  res_address :: string
  res_tfuelBalance :: "'n option"
  res_stakedTheta :: "'n option"
  res_rewards7d :: "'n option"
  res_rewards30d :: "'n option"
  res_lastRewardAt :: "rat option"

text \<open>The walk of one address once the first page is there: \<open>ingest(txs.body)\<close>, the
  first \<open>oldestTsSeen\<close>, and the loop from page 2.\<close>

definition rewardsWalk ::
  "upstream \<Rightarrow> (string \<Rightarrow> number) \<Rightarrow> string \<Rightarrow> int \<Rightarrow> ExplorerAccountTxResponse \<Rightarrow> call list
     \<Rightarrow> call list \<times> (error + rewards_vars)" where
  "rewardsWalk up toNumber address nowSec txs calls =
     (let vars = ingest toNumber address nowSec
                   \<lparr>lastRewardAt = None, rewards7d = 0, rewards30d = 0\<rparr> (p_body txs);
          oldestTsSeen = lastTimestamp toNumber (orEmpty (p_body txs))
      in rewardsLoop up toNumber address nowSec 2 oldestTsSeen vars calls)"

text \<open>The closure of \<open>addresses.map\<close> for one address. The three first requests are all
  sent; when several fail, the model reports the first in the order account, stake,
  transactions.\<close>

definition rewardsAddress ::
  "upstream \<Rightarrow> (string \<Rightarrow> number) \<Rightarrow> int \<Rightarrow> string
     \<Rightarrow> call list \<times> (error + number rewards_result)" where
  "rewardsAddress up toNumber nowSec address =
     (let calls = [AccountCall address, StakeCall address, AccountTxCall address 1 pageLimit]
      in case getAccount up address of
           Inl e \<Rightarrow> (calls, Inl e)
         | Inr acct \<Rightarrow>
             (case getStake up address of
                Inl e \<Rightarrow> (calls, Inl e)
              | Inr stk \<Rightarrow>
                  (case getCoinbaseTxs up address pageLimit of
                     Inl e \<Rightarrow> (calls, Inl e)
                   | Inr txs \<Rightarrow>
                       (let walk = rewardsWalk up toNumber address nowSec txs calls
                        in (fst walk,
                            case snd walk of
                              Inl e \<Rightarrow> Inl e
                            | Inr vars \<Rightarrow>
                                Inr \<lparr>res_address = address,
                                     res_tfuelBalance = tfuelBalanceOf acct,
                                     res_stakedTheta = orNull (stakedThetaSum stk),
                                     res_rewards7d = orNull (rewards7d vars),
                                     res_rewards30d = orNull (rewards30d vars),
                                     res_lastRewardAt = lastRewardAt vars\<rparr>)))))"

section \<open>The GET handlers and their response caches\<close>

text \<open>
  A response body is the error object or the payload, as the handler gives it to
  \<open>NextResponse.json\<close> (its serialisation, which writes \<open>null\<close> for a number that is not
  finite, is not modelled); the cache of a route file (\<open>responseCache\<close>) maps a key to
  the time of writing and a stored body. A response is its status, its headers and its
  body. The readings of \<open>Date.now()\<close> in one request
  are given in a record: at the cache check, for \<open>nowSec\<close>, for \<open>fetchedAt\<close> and at the
  cache write (the earned route has no \<open>nowSec\<close>).
\<close>

datatype 'p json = ErrorJson string | PayloadJson 'p

datatype 'p response = Response nat "(string \<times> string) list" "'p json"

record 'p cache_entry =
  ce_ts :: int
  ce_payload :: "'p json"

type_synonym 'p cache = "string \<rightharpoonup> 'p cache_entry"

record clock =
  tCheck :: int
  tNow :: int
  tFetched :: int
  tStore :: int

text \<open>\<open>cached && Date.now() - cached.ts < CACHE_TTL_MS\<close>: the stored body when the
  entry is there and fresh.\<close>

definition cacheRead :: "int \<Rightarrow> int \<Rightarrow> 'p cache \<Rightarrow> string \<Rightarrow> 'p json option" where
  "cacheRead ttl now responseCache cacheKey =
     (case responseCache cacheKey of
        None \<Rightarrow> None
      | Some cached \<Rightarrow> if now - ce_ts cached < ttl then Some (ce_payload cached) else None)"

text \<open>\<open>searchParams.get(name) ?? ""\<close>.\<close>

definition queryParam :: "string option \<Rightarrow> string" where
  "queryParam p = (case p of None \<Rightarrow> [] | Some v \<Rightarrow> v)"

definition badRequest :: "string \<Rightarrow> 'p response" where
  "badRequest msg = Response 400 [(''cache-control'', ''no-store'')] (ErrorJson msg)"

text \<open>\<open>Promise.all\<close> on the results of the per-address closures: all results in order,
  or a rejection (the model reports the first in list order).\<close>

fun promiseAll :: "(error + 'a) list \<Rightarrow> error + 'a list" where
  "promiseAll [] = Inr []"
| "promiseAll (Inl e # rs) = Inl e"
| "promiseAll (Inr x # rs) = (case promiseAll rs of Inl e \<Rightarrow> Inl e | Inr xs \<Rightarrow> Inr (x # xs))"

subsection \<open>theta/rewards/route.ts\<close>

definition rewards_CACHE_TTL_MS :: int where
  "rewards_CACHE_TTL_MS = 45000"

record rewards_payload =
  rp_addresses :: "string list"
  rp_results :: "number rewards_result list"
  rp_fetchedAt :: int

definition rewards_cacheKey :: "string \<Rightarrow> string" where
  "rewards_cacheKey addressesRaw = ''addresses:'' @ toLowerCase addressesRaw"

text \<open>The handler, on the \<open>addresses\<close> query parameter (\<open>None\<close> when absent). It gives
  the response or the error it rejects with, the cache afterwards, and the requests
  sent to the explorer.\<close>

definition rewardsGET ::
  "(string \<Rightarrow> number) \<Rightarrow> upstream \<Rightarrow> clock \<Rightarrow> rewards_payload cache \<Rightarrow> string option
     \<Rightarrow> (error + rewards_payload response) \<times> rewards_payload cache \<times> call list" where
  "rewardsGET toNumber up clk responseCache addressesParam =
     (let addressesRaw = queryParam addressesParam;
          cacheKey = rewards_cacheKey addressesRaw
      in case cacheRead rewards_CACHE_TTL_MS (tCheck clk) responseCache cacheKey of
           Some payload \<Rightarrow> (Inr (Response 200 [] payload), responseCache, [])
         | None \<Rightarrow>
             (let addresses = toAddressList addressesRaw
              in if addresses = []
                 then (Inr (badRequest ''Missing addresses''), responseCache, [])
                 else if \<not> list_all isHexAddress addresses
                 then (Inr (badRequest ''Invalid address''), responseCache, [])
                 else (let nowSec = tNow clk div 1000;
                           runs = map (rewardsAddress up toNumber nowSec) addresses;
                           calls = concat (map fst runs)
                       in case promiseAll (map snd runs) of
                            Inl e \<Rightarrow> (Inl e, responseCache, calls)
                          | Inr results \<Rightarrow>
                              (let payload = \<lparr>rp_addresses = addresses,
                                              rp_results = results,
                                              rp_fetchedAt = tFetched clk\<rparr>
                               in (Inr (Response 200 [] (PayloadJson payload)),
                                   responseCache(cacheKey \<mapsto>
                                     \<lparr>ce_ts = tStore clk, ce_payload = PayloadJson payload\<rparr>),
                                   calls)))))"

subsection \<open>theta/earned/route.ts\<close>

definition earned_CACHE_TTL_MS :: int where
  "earned_CACHE_TTL_MS = 120000"

record earned_payload =
  ep_sinceSec :: rat
  ep_addresses :: "string list"
  ep_results :: "earned_result list"
  ep_fetchedAt :: int

definition earned_cacheKey :: "string \<Rightarrow> string \<Rightarrow> string" where
  "earned_cacheKey addressesRaw sinceRaw =
     ''addresses:'' @ toLowerCase addressesRaw @ ''|since:'' @ sinceRaw"

text \<open>The test \<open>!Number.isFinite(sinceSec) || sinceSec <= 0\<close>: \<open>None\<close> when it rejects
  the value.\<close>

fun validSince :: "number \<Rightarrow> rat option" where
  "validSince (Finite q) = (if q \<le> 0 then None else Some q)"
| "validSince _ = None"

definition earnedGET ::
  "(string \<Rightarrow> number) \<Rightarrow> upstream \<Rightarrow> clock \<Rightarrow> earned_payload cache \<Rightarrow> string option
     \<Rightarrow> string option
     \<Rightarrow> (error + earned_payload response) \<times> earned_payload cache \<times> call list" where
  "earnedGET toNumber up clk responseCache addressesParam sinceParam =
     (let addressesRaw = queryParam addressesParam;
          sinceRaw = queryParam sinceParam;
          cacheKey = earned_cacheKey addressesRaw sinceRaw
      in case cacheRead earned_CACHE_TTL_MS (tCheck clk) responseCache cacheKey of
           Some payload \<Rightarrow> (Inr (Response 200 [] payload), responseCache, [])
         | None \<Rightarrow>
             (let addresses = toAddressList addressesRaw
              in if addresses = []
                 then (Inr (badRequest ''Missing addresses''), responseCache, [])
                 else if \<not> list_all isHexAddress addresses
                 then (Inr (badRequest ''Invalid address''), responseCache, [])
                 else (case validSince (toNumber sinceRaw) of
                         None \<Rightarrow> (Inr (badRequest ''Invalid since''), responseCache, [])
                       | Some sinceSec \<Rightarrow>
                           (let runs = map (earnedAddress up toNumber sinceSec) addresses;
                                calls = concat (map fst runs)
                            in case promiseAll (map snd runs) of
                                 Inl e \<Rightarrow> (Inl e, responseCache, calls)
                               | Inr results \<Rightarrow>
                                   (let payload = \<lparr>ep_sinceSec = sinceSec,
                                                   ep_addresses = addresses,
                                                   ep_results = results,
                                                   ep_fetchedAt = tFetched clk\<rparr>
                                    in (Inr (Response 200 [] (PayloadJson payload)),
                                        responseCache(cacheKey \<mapsto>
                                          \<lparr>ce_ts = tStore clk, ce_payload = PayloadJson payload\<rparr>),
                                        calls))))))"

subsection \<open>The caches a process can reach\<close>

text \<open>The module-scope cache starts empty and changes only through the handler.\<close>

inductive rewards_reachable :: "(string \<Rightarrow> number) \<Rightarrow> rewards_payload cache \<Rightarrow> bool"
  for toNumber :: "string \<Rightarrow> number" where
  rewards_start: "rewards_reachable toNumber Map.empty"
| rewards_request:
    "rewards_reachable toNumber c \<Longrightarrow>
     rewards_reachable toNumber (fst (snd (rewardsGET toNumber up clk c addressesParam)))"

inductive earned_reachable :: "(string \<Rightarrow> number) \<Rightarrow> earned_payload cache \<Rightarrow> bool"
  for toNumber :: "string \<Rightarrow> number" where
  earned_start: "earned_reachable toNumber Map.empty"
| earned_request:
    "earned_reachable toNumber c \<Longrightarrow>
     earned_reachable toNumber
       (fst (snd (earnedGET toNumber up clk c addressesParam sinceParam)))"

section \<open>Local incremental tracker (StakingTracker)\<close>

text \<open>
  \<open>baselines\<close> maps an address to a number or \<open>null\<close>; a missing key reads as
  \<open>undefined\<close>, and both fail the test \<open>base == null\<close>. \<open>series\<close> maps an address to its
  day-keyed values.

  The numbers of the tracker are read from the JSON of the response and from local
  storage, so they are finite: they are rationals here, and the difference
  \<open>r.tfuelBalance - base\<close> is taken exactly (its rounding is not modelled).
\<close>

record TrackingState =
  startedAt :: int
  baselines :: "string \<rightharpoonup> rat option"
  series :: "string \<rightharpoonup> (string \<rightharpoonup> rat)"

text \<open>The body of \<open>for (const r of json.results)\<close> in the updater given to
  \<open>setTracking\<close>, on \<open>nextSeries\<close>; \<open>k\<close> is \<open>dayKeyLocal(Date.now())\<close>.\<close>

definition trackResult ::
  "TrackingState \<Rightarrow> string \<Rightarrow> (string \<rightharpoonup> (string \<rightharpoonup> rat)) \<Rightarrow> rat rewards_result
     \<Rightarrow> (string \<rightharpoonup> (string \<rightharpoonup> rat))" where
  "trackResult prev k nextSeries r =
     (case (case baselines prev (res_address r) of None \<Rightarrow> None | Some b \<Rightarrow> b) of
        None \<Rightarrow> nextSeries
      | Some base \<Rightarrow>
          (case res_tfuelBalance r of
             None \<Rightarrow> nextSeries
           | Some tfuelBalance \<Rightarrow>
               (let earned = max 0 (tfuelBalance - base);
                    walletSeries = (case nextSeries (res_address r) of
                                      None \<Rightarrow> Map.empty
                                    | Some w \<Rightarrow> w)
                in nextSeries(res_address r \<mapsto> walletSeries(k \<mapsto> earned)))))"

text \<open>The updater: nothing when tracking is off (\<open>None\<close>), else the series after all
  results of the refresh.\<close>

definition refreshTracking ::
  "string \<Rightarrow> rat rewards_result list \<Rightarrow> TrackingState option \<Rightarrow> TrackingState option" where
  "refreshTracking k results tracking =
     (case tracking of
        None \<Rightarrow> None
      | Some prev \<Rightarrow> Some (prev\<lparr>series := foldl (trackResult prev k) (series prev) results\<rparr>))"

text \<open>The state that "Start tracking" sets from the last results: the balances as
  baselines and a zero for today in every series.\<close>

definition startTracking :: "int \<Rightarrow> string \<Rightarrow> rat rewards_result list \<Rightarrow> TrackingState" where
  "startTracking now k results =
     \<lparr>startedAt = now,
      baselines = foldl (\<lambda>m r. m(res_address r \<mapsto> res_tfuelBalance r)) Map.empty results,
      series = foldl (\<lambda>m r. m(res_address r \<mapsto> [k \<mapsto> 0])) Map.empty results\<rparr>"

section \<open>A concrete instance of Number\<close>

text \<open>
  \<open>Number\<close> on the empty string and on strings of decimal digits, the form of the
  explorer's timestamps; every other string is \<open>NaN\<close> here. It is the instance of
  \<open>toNumber\<close> wherever a concrete input is evaluated.
\<close>

definition decimalNumber :: "string \<Rightarrow> number" where
  "decimalNumber s =
     (if s = [] then Finite 0
      else (case parseDigits 10 s of None \<Rightarrow> NaN | Some n \<Rightarrow> Finite (of_int n)))"

section \<open>Notions used to state the properties\<close>

text \<open>The records of a page as the explorer sends it; none when the request fails or
  the page has no body.\<close>

definition pageTxs :: "upstream \<Rightarrow> string \<Rightarrow> int \<Rightarrow> int \<Rightarrow> tx list" where
  "pageTxs up address page limit =
     (case accounttx up address page limit of Inl e \<Rightarrow> [] | Inr res \<Rightarrow> orEmpty (p_body res))"

text \<open>A record whose timestamp is read (present, finite, not zero) and lies before a
  bound.\<close>

definition olderThan :: "(string \<Rightarrow> number) \<Rightarrow> rat \<Rightarrow> tx \<Rightarrow> bool" where
  "olderThan toNumber bound t =
     (case tsOf toNumber t of None \<Rightarrow> False | Some ts \<Rightarrow> ts < bound)"

text \<open>What a record counts for in a total with a lower time bound: its positive
  self-output amount when its timestamp is read and not before the bound, else
  nothing.\<close>

definition countedFrom :: "(string \<Rightarrow> number) \<Rightarrow> string \<Rightarrow> rat \<Rightarrow> tx \<Rightarrow> number" where
  "countedFrom toNumber address bound t =
     (case tsOf toNumber t of
        None \<Rightarrow> 0
      | Some ts \<Rightarrow>
          if bound \<le> ts
          then (case rewardAmount address t of None \<Rightarrow> 0 | Some amt \<Rightarrow> amt)
          else 0)"

text \<open>The since-mode walk ends with this page for a reason other than the cap: the
  request fails, the page is empty, a record older than \<open>since\<close> is on it, or the
  explorer reports the last page.\<close>

definition earnedStops :: "upstream \<Rightarrow> (string \<Rightarrow> number) \<Rightarrow> string \<Rightarrow> rat \<Rightarrow> int \<Rightarrow> bool" where
  "earnedStops up toNumber address sinceSec page =
     (case getCoinbasePage up address page earned_limit of
        Inl e \<Rightarrow> True
      | Inr txs \<Rightarrow>
          orEmpty (p_body txs) = []
          \<or> list_ex (olderThan toNumber sinceSec) (orEmpty (p_body txs))
          \<or> lastPageReported txs page)"

text \<open>The windowed walk goes on after this page (when the cap allows): the request
  succeeds, the last timestamp of the page is not before \<open>now - 30d\<close>, and, from page 2
  on, the page is not empty and the explorer does not report the last page (the first
  page is not tested for either).\<close>

definition rewardsContinues :: "upstream \<Rightarrow> (string \<Rightarrow> number) \<Rightarrow> string \<Rightarrow> int \<Rightarrow> int \<Rightarrow> bool" where
  "rewardsContinues up toNumber address nowSec page =
     (case accounttx up address page pageLimit of
        Inl e \<Rightarrow> False
      | Inr res \<Rightarrow>
          (page = 1 \<or> (orEmpty (p_body res) \<noteq> [] \<and> \<not> lastPageReported res page))
          \<and> \<not> tooOld nowSec (lastTimestamp toNumber (orEmpty (p_body res))))"

abbreviation earnedCall :: "string \<Rightarrow> int \<Rightarrow> call" where
  "earnedCall address page \<equiv> AccountTxCall address page earned_limit"

abbreviation rewardsCall :: "string \<Rightarrow> int \<Rightarrow> call" where
  "rewardsCall address page \<equiv> AccountTxCall address page pageLimit"

section \<open>Example feeds\<close>

definition addrA :: string where
  "addrA = ''0xaaaaaaaaaaaaaaaaaaaaaaaaaaaaaaaaaaaaaaaa''"

text \<open>A record with a timestamp and one output.\<close>

definition rewardTx :: "string \<Rightarrow> string \<Rightarrow> string \<Rightarrow> tx" where
  "rewardTx ts addr wei =
     \<lparr>tx_timestamp = Some ts,
      tx_data = Some \<lparr>d_outputs = Some
        [\<lparr>o_address = Some addr, o_coins = Some \<lparr>c_tfuelwei = Some wei\<rparr>\<rparr>]\<rparr>\<rparr>"

definition txPage :: "tx list \<Rightarrow> int \<Rightarrow> int \<Rightarrow> ExplorerAccountTxResponse" where
  "txPage body totalPages currentPage =
     \<lparr>p_body = Some body, p_totalPageNumber = Some totalPages,
      p_currentPageNumber = Some currentPage\<rparr>"

definition accountOf :: "string \<Rightarrow> ExplorerAccountResponse" where
  "accountOf wei = \<lparr>acct_body = Some \<lparr>ab_balance = Some \<lparr>b_tfuelwei = Some wei\<rparr>\<rparr>\<rparr>"

definition stakeOf :: "source_record list \<Rightarrow> ExplorerStakeResponse" where
  "stakeOf records = \<lparr>stake_body = Some \<lparr>sb_sourceRecords = Some records\<rparr>\<rparr>"

text \<open>Four pages for the since-mode walk with \<open>since = 1000\<close>: the third holds a record
  older than \<open>since\<close> between two that are not.\<close>

definition sincePage3 :: ExplorerAccountTxResponse where
  "sincePage3 =
     txPage [rewardTx ''3000'' addrA ''4000000000000000000'',
             rewardTx ''900'' addrA ''8000000000000000000'',
             rewardTx ''2000'' addrA ''16000000000000000000''] 4 3"

definition sinceFeed :: upstream where
  "sinceFeed =
     \<lparr>account = (\<lambda>a. Inr (accountOf ''5000000000000000000'')),
      stake = (\<lambda>a. Inr (stakeOf [])),
      accounttx = (\<lambda>a p l.
        if p = 1 then Inr (txPage [rewardTx ''5000'' addrA ''1000000000000000000''] 4 1)
        else if p = 2 then Inr (txPage [rewardTx ''4000'' addrA ''2000000000000000000''] 4 2)
        else if p = 3 then Inr sincePage3
        else Inr (txPage [rewardTx ''500'' addrA ''32000000000000000000''] 4 4))\<rparr>"

text \<open>Three pages for the windowed walk at \<open>nowSec = 10000000\<close>: page 1 from one day
  to 20 days back, page 2 from 25 to 35 days back, page 3 at 40 days back.\<close>

definition exampleNow :: int where
  "exampleNow = 10000000"

definition windowPage1 :: ExplorerAccountTxResponse where
  "windowPage1 =
     txPage [rewardTx ''9913600'' addrA ''1000000000000000000'',
             rewardTx ''8272000'' addrA ''2000000000000000000''] 3 1"

definition windowPage2 :: ExplorerAccountTxResponse where
  "windowPage2 =
     txPage [rewardTx ''7840000'' addrA ''4000000000000000000'',
             rewardTx ''6976000'' addrA ''8000000000000000000''] 3 2"

definition windowFeed :: upstream where
  "windowFeed =
     \<lparr>account = (\<lambda>a. Inr (accountOf ''5000000000000000000'')),
      stake = (\<lambda>a. Inr (stakeOf
        [\<lparr>sr_amount = Some ''3000000000000000000'', sr_withdrawn = Some False\<rparr>,
         \<lparr>sr_amount = Some ''9000000000000000000'', sr_withdrawn = Some True\<rparr>])),
      accounttx = (\<lambda>a p l.
        if p = 1 then Inr windowPage1
        else if p = 2 then Inr windowPage2
        else Inr (txPage [rewardTx ''6544000'' addrA ''16000000000000000000''] 3 3))\<rparr>"

text \<open>A feed of 100 pages, each with one recent record.\<close>

definition longFeed :: upstream where
  "longFeed =
     \<lparr>account = (\<lambda>a. Inr (accountOf ''5000000000000000000'')),
      stake = (\<lambda>a. Inr (stakeOf [])),
      accounttx = (\<lambda>a p l.
        Inr (txPage [rewardTx ''9913600'' addrA ''1000000000000000000''] 100 p))\<rparr>"

definition exampleClock :: clock where
  "exampleClock = \<lparr>tCheck = 10000000000, tNow = 10000000000, tFetched = 10000000500,
                   tStore = 10000000600\<rparr>"

text \<open>The three first requests of an address.\<close>

abbreviation firstCalls :: "string \<Rightarrow> call list" where
  "firstCalls address \<equiv> [AccountCall address, StakeCall address, rewardsCall address 1]"

text \<open>Two pages for the since-mode walk with \<open>since = 1000\<close>: the first holds one record,
  with timestamp zero.\<close>

definition zeroFeed :: upstream where
  "zeroFeed =
     \<lparr>account = (\<lambda>a. Inr (accountOf ''5000000000000000000'')),
      stake = (\<lambda>a. Inr (stakeOf [])),
      accounttx = (\<lambda>a p l.
        if p = 1 then Inr (txPage [rewardTx ''0'' addrA ''1000000000000000000''] 2 1)
        else Inr (txPage [rewardTx ''5000'' addrA ''2000000000000000000''] 2 2))\<rparr>"

text \<open>An address list that passes both checks of the handlers: it is not empty and
  every entry has the shape of an address.\<close>

definition addressesAccepted :: "string \<Rightarrow> bool" where
  "addressesAccepted raw =
     (toAddressList raw \<noteq> [] \<and> list_all isHexAddress (toAddressList raw))"

text \<open>A result of the rewards route with a balance only, as the tracker reads it.\<close>

definition balanceResult :: "string \<Rightarrow> rat option \<Rightarrow> rat rewards_result" where
  "balanceResult address tfuelBalance =
     \<lparr>res_address = address, res_tfuelBalance = tfuelBalance, res_stakedTheta = None,
      res_rewards7d = None, res_rewards30d = None, res_lastRewardAt = None\<rparr>"

text \<open>The payloads the two routes compute for the example feeds, and the caches a first
  request leaves behind.\<close>

definition windowPayload :: rewards_payload where
  "windowPayload =
     \<lparr>rp_addresses = [addrA],
      rp_results = [\<lparr>res_address = addrA, res_tfuelBalance = Some (Finite 5),
                     res_stakedTheta = Some (Finite 3),
                     res_rewards7d = Some (Finite 1), res_rewards30d = Some (Finite 7),
                     res_lastRewardAt = Some 9913600\<rparr>],
      rp_fetchedAt = 10000000500\<rparr>"

definition sincePayload :: earned_payload where
  "sincePayload =
     \<lparr>ep_sinceSec = 1000,
      ep_addresses = [addrA],
      ep_results = [\<lparr>er_address = addrA, er_earned = Some (Finite 23),
                     er_lastRewardAt = Some 5000,
                     er_pagesFetched = 3\<rparr>],
      ep_fetchedAt = 10000000500\<rparr>"

definition rewardsCacheAfter :: "rewards_payload cache" where
  "rewardsCacheAfter
     = fst (snd (rewardsGET decimalNumber windowFeed exampleClock Map.empty (Some addrA)))"

definition earnedCacheAfter :: "earned_payload cache" where
  "earnedCacheAfter
     = fst (snd (earnedGET decimalNumber sinceFeed exampleClock Map.empty (Some addrA)
                   (Some ''1000'')))"

text \<open>A request during which every reading of the clock gives the same instant.\<close>

definition clockAt :: "int \<Rightarrow> clock" where
  "clockAt t = \<lparr>tCheck = t, tNow = t, tFetched = t, tStore = t\<rparr>"

section \<open>Sums of numbers\<close>

lemma number_add_assoc [simp]: "(a::number) + b + c = a + (b + c)"
  by (rule add.assoc)

lemma Finite_zero: "Finite 0 = 0"
  by (simp add: zero_number_def)

section \<open>Properties of rounding\<close>

lemma powi_neg: "(2::rat) powi (- int m) = 1 / 2 ^ m"
  by (simp add: power_int_minus inverse_eq_divide)

lemma bitlen_rat_bounds:
  assumes "0 < n"
  obtains k where "bitlen n = int k + 1" and "(2::rat) ^ k \<le> of_int n"
    and "(of_int n :: rat) + 1 \<le> 2 ^ (k + 1)"
proof -
  from assms have b1: "1 \<le> bitlen n" by (simp add: bitlen_alt_def)
  define k where "k = nat (bitlen n - 1)"
  have bk: "bitlen n = int k + 1" using b1 by (simp add: k_def)
  then have nk: "nat (bitlen n) = k + 1" by simp
  from bitlen_bounds [OF assms] have lo: "2 ^ k \<le> n" and hi: "n + 1 \<le> 2 ^ (k + 1)"
    unfolding nk k_def [symmetric] by simp_all
  from lo have "(of_int (2 ^ k) :: rat) \<le> of_int n" by (simp only: of_int_le_iff)
  then have 1: "(2::rat) ^ k \<le> of_int n" by simp
  from hi have "(of_int (n + 1) :: rat) \<le> of_int (2 ^ (k + 1))" by (simp only: of_int_le_iff)
  then have 2: "(of_int n :: rat) + 1 \<le> 2 ^ (k + 1)" by simp
  from bk 1 2 show thesis by (rule that)
qed

lemma binade_bounds:
  assumes "0 < x"
  shows "2 powi binade x \<le> x" and "x < 2 powi (binade x + 1)"
proof -
  have "2 powi binade x \<le> x \<and> x < 2 powi (binade x + 1)"
  proof (cases "1 \<le> x")
    case True
    then have n: "0 < \<lfloor>x\<rfloor>" by simp
    from n obtain k where bk: "bitlen \<lfloor>x\<rfloor> = int k + 1"
      and lo: "(2::rat) ^ k \<le> of_int \<lfloor>x\<rfloor>" and hi: "(of_int \<lfloor>x\<rfloor> :: rat) + 1 \<le> 2 ^ (k + 1)"
      by (rule bitlen_rat_bounds)
    have e: "binade x = int k" using True bk by (simp add: binade_def)
    have "(of_int \<lfloor>x\<rfloor> :: rat) \<le> x" by simp
    with lo have 1: "2 ^ k \<le> x" by (rule order_trans)
    have "x < of_int \<lfloor>x\<rfloor> + 1" by linarith
    with hi have 2: "x < 2 ^ (k + 1)" by simp
    have "int k + 1 = int (k + 1)" by simp
    with 1 2 show ?thesis unfolding e by (simp only: power_int_of_nat)
  next
    case False
    define y where "y = 1 / x"
    define n where "n = \<lceil>y\<rceil> - 1"
    from False assms have y1: "1 < y" by (simp add: y_def)
    then have n: "0 < n" unfolding n_def by (simp add: less_ceiling_iff)
    have xy: "x = 1 / y" by (simp add: y_def)
    from n obtain k where bk: "bitlen n = int k + 1"
      and lo: "(2::rat) ^ k \<le> of_int n" and hi: "(of_int n :: rat) + 1 \<le> 2 ^ (k + 1)"
      by (rule bitlen_rat_bounds)
    have e: "binade x = - (int k + 1)" using False bk by (simp add: binade_def n_def y_def)
    have "y \<le> of_int n + 1" unfolding n_def by (simp add: le_of_int_ceiling)
    with hi have yhi: "y \<le> 2 ^ (k + 1)" by simp
    have "of_int n < y" unfolding n_def by linarith
    with lo have ylo: "2 ^ k < y" by (rule le_less_trans)
    have "1 / 2 ^ (k + 1) \<le> 1 / y"
      using yhi y1 by (intro divide_left_mono) simp_all
    then have "2 powi (- int (k + 1)) \<le> x"
      by (simp only: powi_neg xy)
    moreover have "- int (k + 1) = - (int k + 1)" by simp
    ultimately have 1: "2 powi (- (int k + 1)) \<le> x" by (simp only:)
    have "1 / y < 1 / 2 ^ k"
      using ylo y1 by (intro divide_strict_left_mono) simp_all
    then have 2: "x < 2 powi (- int k)"
      by (simp only: powi_neg xy)
    have "- (int k + 1) + 1 = - int k" by simp
    with 1 2 show ?thesis unfolding e by simp
  qed
  then show "2 powi binade x \<le> x" and "x < 2 powi (binade x + 1)" by simp_all
qed


lemma powi2_le_iff: "(2::rat) powi k \<le> 2 powi m \<longleftrightarrow> k \<le> m"
proof
  assume a: "(2::rat) powi k \<le> 2 powi m"
  show "k \<le> m"
  proof (rule ccontr)
    assume "\<not> k \<le> m"
    then have "m < k" by simp
    then have "(2::rat) powi m < 2 powi k" by (rule power_int_strict_increasing) simp
    with a show False by simp
  qed
next
  assume "k \<le> m"
  then show "(2::rat) powi k \<le> 2 powi m" by (rule power_int_increasing) simp
qed

lemma powi2_less_iff: "(2::rat) powi k < 2 powi m \<longleftrightarrow> k < m"
  using powi2_le_iff [of m k] by (simp add: not_le [symmetric])

lemma roundTiesEven_error: "\<bar>of_int (roundTiesEven z) - z\<bar> \<le> 1 / 2"
proof -
  define n where "n = \<lfloor>z\<rfloor>"
  define r where "r = z - of_int n"
  have r: "0 \<le> r" "r < 1" unfolding r_def n_def by linarith+
  have z: "z = of_int n + r" by (simp add: r_def)
  have e: "roundTiesEven z
      = (if r < 1 / 2 then n else if 1 / 2 < r then n + 1 else if even n then n else n + 1)"
    by (simp add: roundTiesEven_def Let_def n_def r_def)
  show ?thesis unfolding e using r by (simp add: z abs_if)
qed

lemma roundTiesEven_of_int [simp]: "roundTiesEven (of_int k) = k"
  by (simp add: roundTiesEven_def)

lemma roundTiesEven_nonneg: "0 \<le> z \<Longrightarrow> 0 \<le> roundTiesEven z"
  unfolding roundTiesEven_def Let_def by auto

lemma ulpOf_pos [simp]: "0 < ulpOf a"
  by (simp add: ulpOf_def)

lemma nearest_error: "\<bar>nearest a - a\<bar> \<le> ulpOf a / 2"
proof -
  define u where "u = ulpOf a"
  have u: "0 < u" by (simp add: u_def)
  define m where "m = roundTiesEven (a / u)"
  have eq: "(of_int m - a / u) * u = of_int m * u - a" using u by (simp add: field_simps)
  have "\<bar>of_int m - a / u\<bar> * u = \<bar>of_int m - a / u\<bar> * \<bar>u\<bar>" using u by simp
  also have "\<dots> = \<bar>(of_int m - a / u) * u\<bar>" by (simp only: abs_mult)
  finally have "\<bar>of_int m * u - a\<bar> = \<bar>of_int m - a / u\<bar> * u" by (simp only: eq)
  also have "\<dots> \<le> 1 / 2 * u"
    unfolding m_def using u by (intro mult_right_mono roundTiesEven_error) simp
  finally show ?thesis by (simp add: nearest_def u_def m_def)
qed

lemma nearest_nonneg: "0 \<le> a \<Longrightarrow> 0 \<le> nearest a"
  unfolding nearest_def
  by (intro mult_nonneg_nonneg) (simp_all add: roundTiesEven_nonneg less_imp_le)

lemma binade_ge:
  assumes "2 powi k \<le> a"
  shows "k \<le> binade a"
proof -
  have "0 < (2::rat) powi k" by simp
  from this assms have a: "0 < a" by (rule less_le_trans)
  from assms binade_bounds(2) [OF a] have "(2::rat) powi k < 2 powi (binade a + 1)"
    by (rule le_less_trans)
  then have "k < binade a + 1" by (simp only: powi2_less_iff)
  then show ?thesis by simp
qed

lemma binade_less:
  assumes "0 < a" and "a < 2 powi k"
  shows "binade a < k"
proof -
  from binade_bounds(1) [OF assms(1)] assms(2) have "(2::rat) powi binade a < 2 powi k"
    by (rule le_less_trans)
  then show ?thesis by (simp only: powi2_less_iff)
qed

lemma ulpOf_normal:
  assumes "2 powi (- 1022) \<le> a"
  shows "ulpOf a = 2 powi (binade a - 52)" and "ulpOf a \<le> a / 2 ^ 52"
proof -
  from assms have b: "- 1022 \<le> binade a" by (rule binade_ge)
  then show u: "ulpOf a = 2 powi (binade a - 52)" by (simp add: ulpOf_def max_def)
  have "0 < (2::rat) powi (- 1022)" by simp
  from this assms have a: "0 < a" by (rule less_le_trans)
  have "(2::rat) powi (binade a - 52) = 2 powi binade a / 2 ^ 52"
    by (simp add: power_int_diff)
  also have "\<dots> \<le> a / 2 ^ 52"
    using binade_bounds(1) [OF a] by (simp add: divide_right_mono)
  finally show "ulpOf a \<le> a / 2 ^ 52" unfolding u .
qed

lemma nearest_rel_error:
  assumes "2 powi (- 1022) \<le> a"
  shows "\<bar>nearest a - a\<bar> \<le> a / 2 ^ 53"
proof -
  have "\<bar>nearest a - a\<bar> \<le> ulpOf a / 2" by (rule nearest_error)
  also have "\<dots> \<le> (a / 2 ^ 52) / 2"
    using ulpOf_normal(2) [OF assms] by simp
  also have "\<dots> = a / 2 ^ 53" by simp
  finally show ?thesis .
qed


lemma overflow_binade: "0 \<le> r \<Longrightarrow> 2 powi 1024 \<le> r \<longleftrightarrow> 1024 \<le> binade r"
proof
  assume "2 powi 1024 \<le> r"
  then show "1024 \<le> binade r" by (rule binade_ge)
next
  assume r: "0 \<le> r" and b: "1024 \<le> binade r"
  have "r \<noteq> 0"
  proof
    assume "r = 0"
    then have "binade r = 0" by (simp add: binade_def bitlen_alt_def)
    with b show False by simp
  qed
  with r have "0 < r" by simp
  then have "2 powi binade r \<le> r" by (rule binade_bounds(1))
  moreover from b have "(2::rat) powi 1024 \<le> 2 powi binade r" by (simp only: powi2_le_iff)
  ultimately show "2 powi 1024 \<le> r" by simp
qed

lemma roundDouble_code [code]:
  "roundDouble x =
     (if x = 0 then Finite 0
      else (let r = nearest \<bar>x\<bar>
            in if 1024 \<le> binade r then (if x < 0 then NegInfinity else Infinity)
               else Finite (if x < 0 then - r else r)))"
  unfolding roundDouble_def Let_def
  by (simp only: overflow_binade [OF nearest_nonneg [OF abs_ge_zero]])


lemma nearest_int:
  assumes "0 < n" and "n < 2 ^ 53"
  shows "nearest (of_int n) = of_int n"
proof -
  define a :: rat where "a = of_int n"
  from assms(1) have "(1::rat) \<le> of_int n" by simp
  then have a1: "2 powi 0 \<le> a" by (simp add: a_def)
  then have b0: "0 \<le> binade a" by (rule binade_ge)
  have a0: "0 < a" using assms(1) by (simp add: a_def)
  from assms(2) have "(of_int n :: rat) < of_int (2 ^ 53)" by (simp only: of_int_less_iff)
  then have "a < 2 powi 53" by (simp add: a_def)
  with a0 have b53: "binade a < 53" by (rule binade_less)
  define j where "j = nat (52 - binade a)"
  have u: "ulpOf a = 1 / 2 ^ j"
  proof -
    have "ulpOf a = 2 powi (- int j)" using b0 b53 by (simp add: ulpOf_def max_def j_def)
    then show ?thesis by (simp only: powi_neg)
  qed
  have "a / ulpOf a = of_int (n * 2 ^ j)" unfolding u by (simp add: a_def)
  then have "roundTiesEven (a / ulpOf a) = n * 2 ^ j" by (simp only: roundTiesEven_of_int)
  then have "nearest a = of_int (n * 2 ^ j) * (1 / 2 ^ j)" by (simp only: nearest_def u)
  then show ?thesis unfolding a_def by simp
qed

lemma nearest_bound:
  assumes "0 < a" and "a < 2 powi 1024 - 2 powi 970"
  shows "nearest a < 2 powi 1024"
proof -
  have "(2::rat) powi 1024 - 2 powi 970 \<le> 2 powi 1024" by simp
  with assms(2) have "a < 2 powi 1024" by (rule less_le_trans)
  with assms(1) have "binade a < 1024" by (rule binade_less)
  then have "max (binade a) (- 1022) - 52 \<le> 971" by simp
  then have "(2::rat) powi (max (binade a) (- 1022) - 52) \<le> 2 powi 971"
    by (simp only: powi2_le_iff)
  then have u: "ulpOf a \<le> 2 powi 971" by (simp only: ulpOf_def)
  have "nearest a - a \<le> \<bar>nearest a - a\<bar>" by simp
  also have "\<dots> \<le> ulpOf a / 2" by (rule nearest_error)
  finally have "nearest a \<le> a + ulpOf a / 2" by simp
  also have "\<dots> < (2 powi 1024 - 2 powi 970) + 2 powi 971 / 2" using assms(2) u by simp
  also have "\<dots> = 2 powi 1024" by simp
  finally show ?thesis .
qed

lemma roundDouble_zero [simp]: "roundDouble 0 = Finite 0"
  by (simp add: roundDouble_def)

lemma roundDouble_pos:
  "0 < x \<Longrightarrow>
   roundDouble x = (if 2 powi 1024 \<le> nearest x then Infinity else Finite (nearest x))"
  by (simp add: roundDouble_def Let_def)

lemma roundDouble_uminus: "roundDouble (- x) = negate (roundDouble x)"
  by (simp add: roundDouble_def Let_def)

lemma roundDouble_int:
  assumes "\<bar>n\<bar> < 2 ^ 53"
  shows "roundDouble (of_int n) = Finite (of_int n)"
proof -
  have pos: "roundDouble (of_int k) = Finite (of_int k)" if "0 < k" "k < 2 ^ 53" for k :: int
  proof -
    have n: "nearest (of_int k) = of_int k" using that by (rule nearest_int)
    have "(of_int k :: rat) < of_int (2 ^ 53)" using that(2) by (simp only: of_int_less_iff)
    also have "\<dots> \<le> 2 powi 1024" by simp
    finally have "\<not> 2 powi 1024 \<le> (of_int k :: rat)" by simp
    moreover have "(0::rat) < of_int k" using that(1) by simp
    ultimately show ?thesis by (simp only: roundDouble_pos n if_False)
  qed
  consider "n = 0" | "0 < n" | "n < 0" by linarith
  then show ?thesis
  proof cases
    case 1
    then show ?thesis by simp
  next
    case 2
    with assms show ?thesis by (intro pos) simp_all
  next
    case 3
    with assms have "roundDouble (of_int (- n)) = Finite (of_int (- n))" by (intro pos) simp_all
    then have "negate (roundDouble (of_int n)) = Finite (- of_int n)"
      by (simp add: roundDouble_uminus)
    then show ?thesis by (cases "roundDouble (of_int n)") simp_all
  qed
qed

lemma roundDouble_nonneg:
  assumes "0 \<le> x"
  shows "roundDouble x = Infinity \<or> (\<exists>r. roundDouble x = Finite r \<and> 0 \<le> r)"
proof (cases "x = 0")
  case True
  then show ?thesis by simp
next
  case False
  with assms have x: "0 < x" by simp
  then have "0 \<le> nearest x" by (intro nearest_nonneg) simp
  then show ?thesis by (simp add: roundDouble_pos [OF x])
qed

lemma roundDouble_rel_error:
  assumes "roundDouble x = Finite r" and "2 powi (- 1022) \<le> x"
  shows "\<bar>r - x\<bar> \<le> x / 2 ^ 53"
proof -
  have "0 < (2::rat) powi (- 1022)" by simp
  from this assms(2) have x: "0 < x" by (rule less_le_trans)
  from assms(1) have "r = nearest x" by (simp add: roundDouble_pos [OF x] split: if_splits)
  with nearest_rel_error [OF assms(2)] show ?thesis by simp
qed

lemma roundDouble_finite:
  assumes "0 \<le> x" and "x < 2 powi 1024 - 2 powi 970"
  shows "\<exists>r. roundDouble x = Finite r"
proof (cases "x = 0")
  case True
  then show ?thesis by simp
next
  case False
  with assms have x: "0 < x" by simp
  from x assms(2) have "nearest x < 2 powi 1024" by (rule nearest_bound)
  then show ?thesis by (simp add: roundDouble_pos [OF x])
qed

lemma nearest_ge_binade:
  assumes "2 powi (- 1022) \<le> a"
  shows "2 powi binade a \<le> nearest a"
proof -
  have "0 < (2::rat) powi (- 1022)" by simp
  from this assms have a: "0 < a" by (rule less_le_trans)
  define u where "u = ulpOf a"
  have u: "0 < u" by (simp add: u_def)
  have ue: "2 powi binade a = 2 ^ 52 * u"
    unfolding u_def ulpOf_normal(1) [OF assms] by (simp add: power_int_diff)
  have "2 ^ 52 * u \<le> a" using binade_bounds(1) [OF a] by (simp only: ue)
  then have z: "2 ^ 52 \<le> a / u" using u by (simp add: pos_le_divide_eq)
  have "\<bar>of_int (roundTiesEven (a / u)) - a / u\<bar> \<le> 1 / 2" by (rule roundTiesEven_error)
  with z have "(2::rat) ^ 52 - 1 / 2 \<le> of_int (roundTiesEven (a / u))" by linarith
  then have "(of_int (2 ^ 52 - 1) :: rat) < of_int (roundTiesEven (a / u))" by simp
  then have "2 ^ 52 - 1 < roundTiesEven (a / u)" by (simp only: of_int_less_iff)
  then have "2 ^ 52 \<le> roundTiesEven (a / u)" by simp
  then have "(of_int (2 ^ 52) :: rat) \<le> of_int (roundTiesEven (a / u))"
    by (simp only: of_int_le_iff)
  then have "(2::rat) ^ 52 \<le> of_int (roundTiesEven (a / u))" by simp
  then have "2 ^ 52 * u \<le> of_int (roundTiesEven (a / u)) * u"
    using u by (simp only: mult_le_cancel_right_pos)
  then show ?thesis by (simp only: ue nearest_def u_def)
qed

lemma roundDouble_overflow:
  assumes "2 powi 1024 \<le> x"
  shows "roundDouble x = Infinity"
proof -
  have "0 < (2::rat) powi 1024" by simp
  from this assms have x: "0 < x" by (rule less_le_trans)
  have "(2::rat) powi (- 1022) \<le> 2 powi 1024" by (simp only: powi2_le_iff)
  from this assms have n: "2 powi (- 1022) \<le> x" by (rule order_trans)
  from assms have "1024 \<le> binade x" by (rule binade_ge)
  then have "(2::rat) powi 1024 \<le> 2 powi binade x" by (simp only: powi2_le_iff)
  also have "\<dots> \<le> nearest x" using n by (rule nearest_ge_binade)
  finally show ?thesis by (simp add: roundDouble_pos [OF x])
qed

lemma roundDouble_accurate:
  assumes "roundDouble x = Finite r" and "x = 0 \<or> 2 powi (- 1022) \<le> x"
  shows "\<bar>r - x\<bar> \<le> x / 2 ^ 53" and "0 \<le> r" and "x / 2 \<le> r"
proof -
  have "\<bar>r - x\<bar> \<le> x / 2 ^ 53 \<and> 0 \<le> x"
  proof (cases "x = 0")
    case True
    with assms(1) show ?thesis by simp
  next
    case False
    with assms(2) have n: "2 powi (- 1022) \<le> x" by simp
    have "0 < (2::rat) powi (- 1022)" by simp
    from this n have "0 < x" by (rule less_le_trans)
    with roundDouble_rel_error [OF assms(1) n] show ?thesis by simp
  qed
  then have e: "\<bar>r - x\<bar> \<le> x / 2 ^ 53" and x: "0 \<le> x" by simp_all
  have "x - r \<le> \<bar>r - x\<bar>" by arith
  from this e have d: "x - r \<le> x / 2 ^ 53" by (rule order_trans)
  have h: "x / 2 ^ 53 \<le> x / 2" using x by (intro divide_left_mono) simp_all
  from e show "\<bar>r - x\<bar> \<le> x / 2 ^ 53" .
  from d h show h2: "x / 2 \<le> r" by linarith
  from h2 x show "0 \<le> r" by linarith
qed

lemma negate_negate [simp]: "negate (negate x) = x"
  by (cases x) simp_all

lemma double_add_negate: "double_add (negate x) (negate y) = negate (double_add x y)"
proof (cases x; cases y)
  fix a b
  assume "x = Finite a" "y = Finite b"
  moreover have "- a + - b = - (a + b)" by simp
  ultimately show ?thesis by (simp only: negate.simps double_add.simps roundDouble_uminus)
qed simp_all

lemma double_div_negate:
  "0 < c \<Longrightarrow> double_div (negate x) (Finite c) = negate (double_div x (Finite c))"
  by (cases x) (simp_all add: roundDouble_uminus [symmetric])

lemma Number_bigint_uminus: "Number_bigint (- n) = negate (Number_bigint n)"
  by (simp add: Number_bigint_def roundDouble_uminus)

lemma Number_bigint_small: "\<bar>n\<bar> < 2 ^ 53 \<Longrightarrow> Number_bigint n = Finite (of_int n)"
  unfolding Number_bigint_def by (rule roundDouble_int)

section \<open>Properties of the converter\<close>

lemma int_div_less:
  assumes "0 < D" and "x < k * D"
  shows "(x::int) div D < k"
proof (rule ccontr)
  assume "\<not> x div D < k"
  then have "k \<le> x div D" by simp
  then have "k * D \<le> x div D * D" using assms(1) by (simp add: mult_right_mono)
  moreover have "x div D * D + x mod D = x" by simp
  moreover have "0 \<le> x mod D" using assms(1) by simp
  ultimately have "k * D \<le> x" by linarith
  with assms(2) show False by simp
qed

lemma sdiv_nonneg: "0 \<le> a \<Longrightarrow> 0 < b \<Longrightarrow> (a::int) sdiv b = a div b"
  by (simp add: signed_divide_int_def sgn_if)

lemma smod_nonneg: "0 \<le> a \<Longrightarrow> 0 < b \<Longrightarrow> (a::int) smod b = a mod b"
  by (simp add: signed_modulo_int_def sgn_if)

lemma sdiv_neg: "a < 0 \<Longrightarrow> 0 < b \<Longrightarrow> (a::int) sdiv b = - ((- a) div b)"
  by (simp add: signed_divide_int_def sgn_if)

lemma smod_neg: "a < 0 \<Longrightarrow> 0 < b \<Longrightarrow> (a::int) smod b = - ((- a) mod b)"
  by (simp add: signed_modulo_int_def sgn_if)

lemma weiToNumber_None_iff:
  "weiToNumber wei decimals = None \<longleftrightarrow>
     BigInt_string wei = None \<or> (case BigInt_number decimals of None \<Rightarrow> True | Some d \<Rightarrow> d < 0)"
  by (simp add: weiToNumber_def BigInt_pow_def Let_def split: option.splits)

lemma weiToNumber_nonneg:
  assumes "BigInt_string wei = Some b" "0 \<le> b" "0 \<le> d"
  shows "weiToNumber wei (Finite (of_int d)) = Some (displayDouble b (nat d))"
proof -
  have D: "(0::int) < 10 ^ nat d" by simp
  have m: "0 \<le> b mod 10 ^ nat d" using D by simp
  then have m6: "0 \<le> b mod 10 ^ nat d * 1000000" by simp
  show ?thesis
    using assms
    by (simp add: weiToNumber_def BigInt_pow_def Let_def displayDouble_def
        sdiv_nonneg [OF \<open>0 \<le> b\<close> D] smod_nonneg [OF \<open>0 \<le> b\<close> D] sdiv_nonneg [OF m6 D])
qed

lemma weiToNumber_neg:
  assumes "BigInt_string wei = Some b" "b < 0" "0 \<le> d"
  shows "weiToNumber wei (Finite (of_int d)) = Some (negate (displayDouble (- b) (nat d)))"
proof -
  have D: "(0::int) < 10 ^ nat d" by simp
  have m: "0 \<le> (- b) mod 10 ^ nat d" using D by simp
  have s6: "(- ((- b) mod 10 ^ nat d)) * 1000000 sdiv 10 ^ nat d
              = - ((- b) mod 10 ^ nat d * 1000000 div 10 ^ nat d)"
  proof (cases "(- b) mod 10 ^ nat d = 0")
    case True
    then show ?thesis by simp
  next
    case False
    with m have "0 < (- b) mod 10 ^ nat d" by linarith
    then have "(- ((- b) mod 10 ^ nat d)) * 1000000 < 0" by simp
    from sdiv_neg [OF this D] show ?thesis by simp
  qed
  have "weiToNumber wei (Finite (of_int d))
      = Some (double_add (Number_bigint (- ((- b) div 10 ^ nat d)))
               (double_div (Number_bigint (- ((- b) mod 10 ^ nat d * 1000000 div 10 ^ nat d)))
                  (Finite 1000000)))"
    using assms s6
    by (simp add: weiToNumber_def BigInt_pow_def Let_def
        sdiv_neg [OF \<open>b < 0\<close> D] smod_neg [OF \<open>b < 0\<close> D])
  also have "\<dots> = Some (negate (displayDouble (- b) (nat d)))"
    by (simp add: displayDouble_def Number_bigint_uminus double_div_negate double_add_negate)
  finally show ?thesis .
qed

lemma displayValue_floor:
  "displayValue b d = of_int \<lfloor>(of_int b :: rat) * 10 ^ 6 / 10 ^ d\<rfloor> / 10 ^ 6"
proof -
  define D :: int where "D = 10 ^ d"
  have D: "0 < D" by (simp add: D_def)
  have "b * 10 ^ 6 div D = (b div D) * 10 ^ 6 + (b mod D) * 10 ^ 6 div D"
  proof -
    have e: "D * (b div D) + b mod D = b" by simp
    have "b * 10 ^ 6 = (D * (b div D) + b mod D) * 10 ^ 6" by (simp only: e)
    also have "\<dots> = D * ((b div D) * 10 ^ 6) + (b mod D) * 10 ^ 6"
      by (simp only: distrib_right mult.assoc)
    finally have "b * 10 ^ 6 = D * ((b div D) * 10 ^ 6) + (b mod D) * 10 ^ 6" .
    then have "b * 10 ^ 6 div D = (D * ((b div D) * 10 ^ 6) + (b mod D) * 10 ^ 6) div D"
      by simp
    also have "\<dots> = (b div D) * 10 ^ 6 + (b mod D) * 10 ^ 6 div D"
      using D div_mult_self4 [of D "(b div D) * 10 ^ 6" "(b mod D) * 10 ^ 6"] by simp
    finally show ?thesis .
  qed
  moreover have "\<lfloor>(of_int b :: rat) * 10 ^ 6 / 10 ^ d\<rfloor> = b * 10 ^ 6 div D"
  proof -
    have "(of_int b :: rat) * 10 ^ 6 / 10 ^ d = of_int (b * 10 ^ 6) / of_int D"
      by (simp add: D_def)
    then show ?thesis by (simp only: floor_divide_of_int_eq)
  qed
  ultimately show ?thesis
    by (simp add: displayValue_def D_def add_divide_distrib)
qed


text \<open>The two integers of the formula, for a base amount that is not negative.\<close>

lemma display_parts:
  assumes "0 \<le> b"
  shows "0 \<le> b div 10 ^ n" and "0 \<le> (b mod 10 ^ n) * 10 ^ 6 div 10 ^ n"
    and "(b mod 10 ^ n) * 10 ^ 6 div 10 ^ n < (10 ^ 6 :: int)"
proof -
  define D :: int where "D = 10 ^ n"
  have D: "0 < D" by (simp add: D_def)
  show "0 \<le> b div 10 ^ n" using assms by (simp add: pos_imp_zdiv_nonneg_iff)
  have m: "0 \<le> b mod D" "b mod D < D" using D by simp_all
  then have "0 \<le> (b mod D) * 10 ^ 6" by simp
  then show "0 \<le> (b mod 10 ^ n) * 10 ^ 6 div 10 ^ n"
    using D unfolding D_def by (simp add: pos_imp_zdiv_nonneg_iff)
  from m(2) have "(b mod D) * 10 ^ 6 < 10 ^ 6 * D" by simp
  with D have "(b mod D) * 10 ^ 6 div D < 10 ^ 6" by (rule int_div_less)
  then show "(b mod 10 ^ n) * 10 ^ 6 div 10 ^ n < (10 ^ 6 :: int)" by (simp only: D_def)
qed

text \<open>The double of the fractional part: finite, not negative, and within the rounding
  error of the quotient.\<close>

lemma fraction_double:
  assumes "0 \<le> k" and "k < (10 ^ 6 :: int)"
  obtains q where "double_div (Number_bigint k) (Finite 1000000) = Finite q"
    and "\<bar>q - of_int k / 10 ^ 6\<bar> \<le> (of_int k / 10 ^ 6) / 2 ^ 53" and "0 \<le> q"
    and "(of_int k / 10 ^ 6) / 2 \<le> q"
proof -
  define f :: rat where "f = of_int k / 10 ^ 6"
  from assms have "\<bar>k\<bar> < 2 ^ 53" by simp
  then have nb: "Number_bigint k = Finite (of_int k)" by (rule Number_bigint_small)
  have dd: "double_div (Number_bigint k) (Finite 1000000) = roundDouble f"
    by (simp add: nb f_def)
  have f0: "0 \<le> f" using assms(1) by (simp add: f_def)
  have "f < 1" using assms(2) by (simp add: f_def)
  also have "(1::rat) \<le> 2 powi 1024 - 2 powi 970" by simp
  finally have "f < 2 powi 1024 - 2 powi 970" .
  with f0 obtain q where q: "roundDouble f = Finite q" using roundDouble_finite by blast
  have n: "f = 0 \<or> 2 powi (- 1022) \<le> f"
  proof (cases "k = 0")
    case True
    then show ?thesis by (simp add: f_def)
  next
    case False
    with assms(1) have "1 \<le> k" by simp
    then have "(1::rat) \<le> of_int k" by simp
    then have "1 / 10 ^ 6 \<le> f" by (simp add: f_def divide_right_mono)
    moreover have "(2::rat) powi (- 1022) \<le> 1 / 10 ^ 6" by simp
    ultimately show ?thesis by simp
  qed
  from roundDouble_accurate [OF q n] dd q show thesis
    by (intro that [of q]) (simp_all add: f_def)
qed

lemma displayDouble_error:
  assumes "0 \<le> b" and "displayDouble b n = Finite r"
  shows "\<bar>r - displayValue b n\<bar> \<le> displayValue b n / 2 ^ 51"
proof -
  define w where "w = b div 10 ^ n"
  define k where "k = (b mod 10 ^ n) * 10 ^ 6 div 10 ^ n"
  define f :: rat where "f = of_int k / 10 ^ 6"
  from display_parts [OF assms(1), of n] have w0: "0 \<le> w" and k0: "0 \<le> k" and k6: "k < 10 ^ 6"
    by (simp_all add: w_def k_def)
  have dv: "displayValue b n = of_int w + f" by (simp add: displayValue_def w_def k_def f_def)
  from k0 k6 obtain q where q: "double_div (Number_bigint k) (Finite 1000000) = Finite q"
    and qe: "\<bar>q - f\<bar> \<le> f / 2 ^ 53" and q0: "0 \<le> q" and qh: "f / 2 \<le> q"
    unfolding f_def by (rule fraction_double)
  have f0: "0 \<le> f" using k0 by (simp add: f_def)
  have dd: "displayDouble b n = double_add (roundDouble (of_int w)) (Finite q)"
    unfolding displayDouble_def w_def [symmetric] k_def [symmetric] q
    by (simp only: Number_bigint_def)
  have "(0::rat) \<le> of_int w" using w0 by simp
  from roundDouble_nonneg [OF this] assms(2) obtain a where a: "roundDouble (of_int w) = Finite a"
    unfolding dd by auto
  have wn: "(of_int w :: rat) = 0 \<or> 2 powi (- 1022) \<le> (of_int w :: rat)"
  proof (cases "w = 0")
    case True
    then show ?thesis by simp
  next
    case False
    with w0 have "1 \<le> w" by simp
    then have "(1::rat) \<le> of_int w" by simp
    moreover have "(2::rat) powi (- 1022) \<le> 1" by simp
    ultimately show ?thesis by simp
  qed
  from roundDouble_accurate [OF a wn]
  have ae: "\<bar>a - of_int w\<bar> \<le> of_int w / 2 ^ 53" and a0: "0 \<le> a" and ah: "of_int w / 2 \<le> a" .
  from assms(2) have r: "roundDouble (a + q) = Finite r" unfolding dd a by simp
  have sn: "a + q = 0 \<or> 2 powi (- 1022) \<le> a + q"
  proof (cases "w = 0 \<and> k = 0")
    case True
    then have "of_int w / 2 ^ 53 = (0::rat)" "f / 2 ^ 53 = 0" by (simp_all add: f_def)
    with ae qe True have "a = 0" "q = 0" by (simp_all add: f_def)
    then show ?thesis by simp
  next
    case False
    have "1 / (2 * 10 ^ 6) \<le> a + q"
    proof (cases "w = 0")
      case True
      with False k0 have "1 \<le> k" by simp
      then have "(1::rat) \<le> of_int k" by simp
      then have "1 / 10 ^ 6 \<le> f" by (simp add: f_def divide_right_mono)
      with qh a0 show ?thesis by simp
    next
      case False
      with w0 have "1 \<le> w" by simp
      then have "(1::rat) \<le> of_int w" by simp
      with ah q0 show ?thesis by simp
    qed
    moreover have "(2::rat) powi (- 1022) \<le> 1 / (2 * 10 ^ 6)" by simp
    ultimately show ?thesis by simp
  qed
  from roundDouble_accurate(1) [OF r sn] have re: "\<bar>r - (a + q)\<bar> \<le> (a + q) / 2 ^ 53" .
  have w0': "(0::rat) \<le> of_int w" using w0 by simp
  define u :: rat where "u = 1 / 2 ^ 53"
  have u: "0 \<le> u" "u \<le> 1" by (simp_all add: u_def)
  have ae': "\<bar>a - of_int w\<bar> \<le> of_int w * u" using ae by (simp add: u_def)
  have qe': "\<bar>q - f\<bar> \<le> f * u" using qe by (simp add: u_def)
  have re': "\<bar>r - (a + q)\<bar> \<le> (a + q) * u" using re by (simp add: u_def)
  define t where "t = of_int w + f"
  have t0: "0 \<le> t" using w0' f0 by (simp add: t_def)
  have s1: "a + q \<le> t + t * u" using ae' qe' by (simp add: t_def distrib_right)
  have "(a + q) * u \<le> (t + t * u) * u" using s1 u(1) by (rule mult_right_mono)
  also have "\<dots> = t * u + (t * u) * u" by (simp add: distrib_right)
  also have "(t * u) * u \<le> (t * u) * 1"
    using u t0 by (intro mult_left_mono) simp_all
  finally have s2: "(a + q) * u \<le> t * u + t * u" by simp
  have "\<bar>r - t\<bar> \<le> \<bar>r - (a + q)\<bar> + \<bar>a - of_int w\<bar> + \<bar>q - f\<bar>" unfolding t_def by linarith
  also have "\<dots> \<le> (t * u + t * u) + of_int w * u + f * u" using re' s2 ae' qe' by linarith
  also have "\<dots> = 3 * (t * u)" by (simp add: t_def distrib_right)
  also have "\<dots> \<le> 4 * (t * u)" using t0 u(1) by simp
  also have "\<dots> = t / 2 ^ 51" by (simp add: u_def)
  finally show ?thesis unfolding dv t_def .
qed

lemma displayDouble_exact:
  assumes "0 \<le> b" and "b div 10 ^ n < 2 ^ 53" and "(b mod 10 ^ n) * 10 ^ 6 < 10 ^ n"
  shows "displayDouble b n = Finite (displayValue b n)"
proof -
  have "0 \<le> b mod 10 ^ n" by simp
  then have "0 \<le> (b mod 10 ^ n) * 10 ^ 6" by simp
  with assms(3) have k: "(b mod 10 ^ n) * 10 ^ 6 div 10 ^ n = 0" by (simp add: div_pos_pos_trivial)
  from display_parts(1) [OF assms(1), of n] assms(2) have "\<bar>b div 10 ^ n\<bar> < 2 ^ 53" by simp
  then have w: "Number_bigint (b div 10 ^ n) = Finite (of_int (b div 10 ^ n))"
    by (rule Number_bigint_small)
  have rd: "roundDouble (of_int (b div 10 ^ n)) = Finite (of_int (b div 10 ^ n))"
    using w by (simp only: Number_bigint_def)
  have "Number_bigint 0 = Finite 0" by (simp add: Number_bigint_def)
  then show ?thesis
    unfolding displayDouble_def displayValue_def k w by (simp add: rd)
qed

lemma displayDouble_finite:
  assumes "0 \<le> b" and "b div 10 ^ n < 2 ^ 1023"
  shows "isFinite (displayDouble b n)"
proof -
  define w where "w = b div 10 ^ n"
  define k where "k = (b mod 10 ^ n) * 10 ^ 6 div 10 ^ n"
  from display_parts [OF assms(1), of n] have w0: "0 \<le> w" and k0: "0 \<le> k" and k6: "k < 10 ^ 6"
    by (simp_all add: w_def k_def)
  from k0 k6 obtain q where q: "double_div (Number_bigint k) (Finite 1000000) = Finite q"
    and qe: "\<bar>q - of_int k / 10 ^ 6\<bar> \<le> (of_int k / 10 ^ 6) / 2 ^ 53" and q0: "0 \<le> q"
    by (rule fraction_double)
  have "(of_int k :: rat) < of_int (10 ^ 6)" using k6 by (simp only: of_int_less_iff)
  then have f1: "(of_int k :: rat) / 10 ^ 6 < 1" by simp
  have f0: "(0::rat) \<le> of_int k / 10 ^ 6" using k0 by simp
  have "(of_int k / 10 ^ 6) / 2 ^ 53 \<le> (of_int k :: rat) / 10 ^ 6" using f0 by (simp add: field_simps)
  with qe f1 have q2: "q < 2" by linarith
  have w0': "(0::rat) \<le> of_int w" using w0 by simp
  define W :: rat where "W = 2 ^ 1023"
  have "(of_int w :: rat) < of_int (2 ^ 1023)" using assms(2) unfolding w_def by (simp only: of_int_less_iff)
  then have wl: "(of_int w :: rat) < W" by (simp add: W_def)
  also have "W < 2 powi 1024 - 2 powi 970" by (simp add: W_def)
  finally have "(of_int w :: rat) < 2 powi 1024 - 2 powi 970" .
  with w0' obtain a where a: "roundDouble (of_int w) = Finite a" using roundDouble_finite by blast
  have wn: "(of_int w :: rat) = 0 \<or> 2 powi (- 1022) \<le> (of_int w :: rat)"
  proof (cases "w = 0")
    case True
    then show ?thesis by simp
  next
    case False
    with w0 have "1 \<le> w" by simp
    then have "(1::rat) \<le> of_int w" by simp
    moreover have "(2::rat) powi (- 1022) \<le> 1" by simp
    ultimately show ?thesis by simp
  qed
  from roundDouble_accurate(1,2) [OF a wn]
  have ae: "\<bar>a - of_int w\<bar> \<le> of_int w / 2 ^ 53" and a0: "0 \<le> a" .
  have "(of_int w :: rat) / 2 ^ 53 \<le> W / 2 ^ 53" using wl by (simp add: divide_right_mono)
  moreover have "a - of_int w \<le> \<bar>a - of_int w\<bar>" by arith
  ultimately have "a \<le> of_int w + W / 2 ^ 53" using ae by linarith
  with wl q2 have "a + q < W + W / 2 ^ 53 + 2" by linarith
  also have "\<dots> \<le> 2 powi 1024 - 2 powi 970" by (simp add: W_def)
  finally have "a + q < 2 powi 1024 - 2 powi 970" .
  moreover have "0 \<le> a + q" using a0 q0 by simp
  ultimately obtain r where r: "roundDouble (a + q) = Finite r" using roundDouble_finite by blast
  have "displayDouble b n = double_add (roundDouble (of_int w)) (Finite q)"
    unfolding displayDouble_def w_def [symmetric] k_def [symmetric] q
    by (simp only: Number_bigint_def)
  then show ?thesis by (simp add: a r)
qed

lemma displayDouble_overflow:
  assumes "0 \<le> b" and "2 ^ 1024 \<le> b div 10 ^ n"
  shows "displayDouble b n = Infinity"
proof -
  define k where "k = (b mod 10 ^ n) * 10 ^ 6 div 10 ^ n"
  from display_parts [OF assms(1), of n] have k0: "0 \<le> k" and k6: "k < 10 ^ 6"
    by (simp_all add: k_def)
  from k0 k6 obtain q where q: "double_div (Number_bigint k) (Finite 1000000) = Finite q"
    by (rule fraction_double)
  from assms(2) have "(of_int (2 ^ 1024) :: rat) \<le> of_int (b div 10 ^ n)"
    by (simp only: of_int_le_iff)
  then have "(2::rat) powi 1024 \<le> of_int (b div 10 ^ n)" by simp
  then have o: "roundDouble (of_int (b div 10 ^ n)) = Infinity" by (rule roundDouble_overflow)
  have "displayDouble b n = double_add (roundDouble (of_int (b div 10 ^ n))) (Finite q)"
    unfolding displayDouble_def k_def [symmetric] q by (simp only: Number_bigint_def)
  then show ?thesis by (simp add: o)
qed

text \<open>The converter never gives \<open>NaN\<close>.\<close>

lemma roundDouble_not_NaN [simp]: "roundDouble x \<noteq> NaN"
  by (simp add: roundDouble_def Let_def)

lemma weiToNumber_not_NaN: "weiToNumber wei decimals \<noteq> Some NaN"
proof
  assume "weiToNumber wei decimals = Some NaN"
  then obtain bi d where bi: "BigInt_string wei = Some bi" and d: "BigInt_number decimals = Some d"
    and d0: "0 \<le> d"
    and e: "double_add (Number_bigint (bi sdiv 10 ^ nat d))
              (double_div (Number_bigint ((bi smod 10 ^ nat d) * 1000000 sdiv 10 ^ nat d))
                 (Finite 1000000)) = NaN"
    by (auto simp: weiToNumber_def BigInt_pow_def Let_def split: option.splits if_splits)
  define D :: int where "D = 10 ^ nat d"
  have D: "0 < D" by (simp add: D_def)
  define m where "m = bi smod D"
  have mb: "\<bar>m\<bar> < D"
  proof (cases "0 \<le> bi")
    case True
    then have "m = bi mod D" unfolding m_def using D by (simp add: smod_nonneg)
    then show ?thesis using D by simp
  next
    case False
    then have "m = - ((- bi) mod D)" unfolding m_def using D by (simp add: smod_neg)
    then show ?thesis using D by simp
  qed
  define k where "k = m * 1000000 sdiv D"
  have "\<bar>k\<bar> < 1000000"
  proof (cases "0 \<le> m * 1000000")
    case True
    then have m0: "0 \<le> m" by simp
    with mb have "m * 1000000 < 1000000 * D" by simp
    with D have "m * 1000000 div D < 1000000" by (rule int_div_less)
    moreover have "0 \<le> m * 1000000 div D" using True D by (simp add: pos_imp_zdiv_nonneg_iff)
    ultimately show ?thesis unfolding k_def sdiv_nonneg [OF True D] by simp
  next
    case False
    then have neg: "m * 1000000 < 0" by simp
    then have m0: "m < 0" by simp
    with mb have "(- m) * 1000000 < 1000000 * D" by simp
    with D have "(- m) * 1000000 div D < 1000000" by (rule int_div_less)
    moreover have "0 \<le> (- m) * 1000000 div D" using m0 D by (simp add: pos_imp_zdiv_nonneg_iff)
    ultimately show ?thesis unfolding k_def sdiv_neg [OF neg D] by simp
  qed
  then have "\<bar>k\<bar> < 2 ^ 53" by simp
  then have "Number_bigint k = Finite (of_int k)" by (rule Number_bigint_small)
  then obtain q where q: "double_div (Number_bigint k) (Finite 1000000) \<in> {Finite q, Infinity, NegInfinity}"
    by (cases "roundDouble (of_int k / 1000000)") simp_all
  have "double_add (Number_bigint (bi sdiv D)) (double_div (Number_bigint k) (Finite 1000000)) \<noteq> NaN"
  proof (cases "roundDouble (of_int k / 1000000)")
    case (Finite q)
    with \<open>Number_bigint k = Finite (of_int k)\<close> show ?thesis
      by (cases "roundDouble (of_int (bi sdiv D))") (simp_all add: Number_bigint_def)
  next
    case Infinity
    have "0 \<le> (of_int k :: rat) / 1000000 \<or> (of_int k :: rat) / 1000000 < 0" by linarith
    moreover have "\<bar>(of_int k :: rat) / 1000000\<bar> < 2 powi 1024 - 2 powi 970"
    proof -
      have "(of_int \<bar>k\<bar> :: rat) < of_int 1000000" using \<open>\<bar>k\<bar> < 1000000\<close> by (simp only: of_int_less_iff)
      then have "\<bar>(of_int k :: rat) / 1000000\<bar> < 1" by simp
      also have "(1::rat) \<le> 2 powi 1024 - 2 powi 970" by simp
      finally show ?thesis .
    qed
    ultimately have "\<exists>r. roundDouble \<bar>(of_int k :: rat) / 1000000\<bar> = Finite r"
      by (intro roundDouble_finite) simp_all
    with Infinity show ?thesis
      by (cases "0 \<le> (of_int k :: rat) / 1000000")
        (auto simp: abs_if roundDouble_uminus not_le split: if_splits)
  next
    case NegInfinity
    have "\<bar>(of_int k :: rat) / 1000000\<bar> < 2 powi 1024 - 2 powi 970"
    proof -
      have "(of_int \<bar>k\<bar> :: rat) < of_int 1000000" using \<open>\<bar>k\<bar> < 1000000\<close> by (simp only: of_int_less_iff)
      then have "\<bar>(of_int k :: rat) / 1000000\<bar> < 1" by simp
      also have "(1::rat) \<le> 2 powi 1024 - 2 powi 970" by simp
      finally show ?thesis .
    qed
    then have "\<exists>r. roundDouble \<bar>(of_int k :: rat) / 1000000\<bar> = Finite r"
      by (intro roundDouble_finite) simp_all
    with NegInfinity show ?thesis
      by (cases "0 \<le> (of_int k :: rat) / 1000000")
        (auto simp: abs_if roundDouble_uminus not_le split: if_splits)
  qed simp
  with e show False by (simp add: D_def m_def k_def)
qed

lemma BigInt_string_minus5: "BigInt_string ''-5'' = Some (- 5)"
  by (simp add: BigInt_string_def trim_def isWhiteSpace_def parseDigits_def digitVal_def)

lemma BigInt_string_example: "BigInt_string ''1234567890123456789'' = Some 1234567890123456789"
  by (simp add: BigInt_string_def trim_def isWhiteSpace_def parseDigits_def digitVal_def)

text \<open>
  Claim C5, as the code has it. \<open>weiToNumber\<close> returns \<open>null\<close> exactly when the string
  is no integer literal for \<open>BigInt\<close> (a sign is allowed) or \<open>decimals\<close> is not a
  non-negative integer. For a base that is not negative the two floors of the
  specification's formula are computed exactly, and the result is the double that the
  formula gives when the two integers are turned into doubles and the quotient and the
  sum are rounded; for a negative base the divisions truncate towards zero, and the
  result is that double of the absolute base, negated. A finite result differs from the
  specification's display value by at most that value divided by \<open>2^51\<close>; it is the
  display value itself when the whole part is below \<open>2^53\<close> and the first six fractional
  digits are zero; it is finite when the whole part is below \<open>2^1023\<close>, and plus infinity
  when the whole part is \<open>2^1024\<close> or more. The display value is the base scaled by
  \<open>10^decimals\<close> and cut after the sixth fractional digit.
\<close>

theorem weiToNumber_result:
  "(weiToNumber wei decimals = None \<longleftrightarrow>
      BigInt_string wei = None
      \<or> (case BigInt_number decimals of None \<Rightarrow> True | Some k \<Rightarrow> k < 0))
   \<and> (BigInt_string wei = Some b \<and> 0 \<le> b \<and> 0 \<le> d \<longrightarrow>
        weiToNumber wei (Finite (of_int d)) = Some (displayDouble b (nat d)))
   \<and> (BigInt_string wei = Some b \<and> b < 0 \<and> 0 \<le> d \<longrightarrow>
        weiToNumber wei (Finite (of_int d)) = Some (negate (displayDouble (- b) (nat d))))
   \<and> (0 \<le> c \<and> displayDouble c n = Finite r \<longrightarrow>
        \<bar>r - displayValue c n\<bar> \<le> displayValue c n / 2 ^ 51)
   \<and> (0 \<le> c \<and> c div 10 ^ n < 2 ^ 53 \<and> (c mod 10 ^ n) * 10 ^ 6 < 10 ^ n \<longrightarrow>
        displayDouble c n = Finite (displayValue c n))
   \<and> (0 \<le> c \<and> c div 10 ^ n < 2 ^ 1023 \<longrightarrow> isFinite (displayDouble c n))
   \<and> (0 \<le> c \<and> 2 ^ 1024 \<le> c div 10 ^ n \<longrightarrow> displayDouble c n = Infinity)
   \<and> displayValue c n = of_int \<lfloor>(of_int c :: rat) * 10 ^ 6 / 10 ^ n\<rfloor> / 10 ^ 6"
proof (intro conjI impI)
  show "weiToNumber wei decimals = None \<longleftrightarrow>
      BigInt_string wei = None
      \<or> (case BigInt_number decimals of None \<Rightarrow> True | Some k \<Rightarrow> k < 0)"
    by (rule weiToNumber_None_iff)
  show "weiToNumber wei (Finite (of_int d)) = Some (displayDouble b (nat d))"
    if "BigInt_string wei = Some b \<and> 0 \<le> b \<and> 0 \<le> d"
    using that by (intro weiToNumber_nonneg) simp_all
  show "weiToNumber wei (Finite (of_int d)) = Some (negate (displayDouble (- b) (nat d)))"
    if "BigInt_string wei = Some b \<and> b < 0 \<and> 0 \<le> d"
    using that by (intro weiToNumber_neg) simp_all
  show "\<bar>r - displayValue c n\<bar> \<le> displayValue c n / 2 ^ 51"
    if "0 \<le> c \<and> displayDouble c n = Finite r"
    using that by (intro displayDouble_error) simp_all
  show "displayDouble c n = Finite (displayValue c n)"
    if "0 \<le> c \<and> c div 10 ^ n < 2 ^ 53 \<and> (c mod 10 ^ n) * 10 ^ 6 < 10 ^ n"
    using that by (intro displayDouble_exact) simp_all
  show "isFinite (displayDouble c n)" if "0 \<le> c \<and> c div 10 ^ n < 2 ^ 1023"
    using that by (intro displayDouble_finite) simp_all
  show "displayDouble c n = Infinity" if "0 \<le> c \<and> 2 ^ 1024 \<le> c div 10 ^ n"
    using that by (intro displayDouble_overflow) simp_all
  show "displayValue c n = of_int \<lfloor>(of_int c :: rat) * 10 ^ 6 / 10 ^ n\<rfloor> / 10 ^ 6"
    by (rule displayValue_floor)
qed

lemma displayDouble_example:
  "displayDouble 1234567890123456789 18 = Finite (5559995481163911 / 4503599627370496)"
  by code_simp

lemma displayValue_examples:
  "displayValue 1234567890123456789 18 = 1234567 / 1000000"
  "displayValue 5000000000000000000 18 = 5"
  "displayValue 1999999000000000000 18 = 1999999 / 1000000"
  by (simp_all add: displayValue_def)

theorem weiToNumber_result_witness:
  "BigInt_string ''1234567890123456789'' = Some 1234567890123456789
   \<and> weiToNumber ''1234567890123456789'' (Finite 18)
       = Some (Finite (5559995481163911 / 4503599627370496))
   \<and> displayValue 1234567890123456789 18 = 1234567 / 1000000
   \<and> \<bar>5559995481163911 / 4503599627370496 - displayValue 1234567890123456789 18\<bar>
       \<le> displayValue 1234567890123456789 18 / 2 ^ 51
   \<and> isFinite (displayDouble 1234567890123456789 18)
   \<and> BigInt_string ''-5'' = Some (- 5)
   \<and> weiToNumber ''-5'' (Finite 18) = Some (negate (displayDouble 5 18))
   \<and> displayDouble 5000000000000000000 18 = Finite (displayValue 5000000000000000000 18)
   \<and> displayValue 5000000000000000000 18 = 5
   \<and> displayDouble (2 ^ 1024 * 10 ^ 18) 18 = Infinity"
proof -
  note A = weiToNumber_result [where wei = "''1234567890123456789''" and decimals = "Finite 18"
      and b = 1234567890123456789 and d = 18 and c = 1234567890123456789 and n = 18
      and r = "5559995481163911 / 4503599627370496"]
  note B = weiToNumber_result [where wei = "''-5''" and decimals = "Finite 18"
      and b = "- 5" and d = 18 and c = 5000000000000000000 and n = 18]
  note C = weiToNumber_result [where c = "2 ^ 1024 * 10 ^ 18" and n = 18]
  from A [THEN conjunct2, THEN conjunct1] BigInt_string_example
  have a1: "weiToNumber ''1234567890123456789'' (Finite 18)
       = Some (Finite (5559995481163911 / 4503599627370496))"
    by (simp add: displayDouble_example)
  from A [THEN conjunct2, THEN conjunct2, THEN conjunct2, THEN conjunct1] displayDouble_example
  have a2: "\<bar>5559995481163911 / 4503599627370496 - displayValue 1234567890123456789 18\<bar>
       \<le> displayValue 1234567890123456789 18 / 2 ^ 51"
    by simp
  have "(1234567890123456789::int) div 10 ^ 18 < 2 ^ 1023" by simp
  with A [THEN conjunct2, THEN conjunct2, THEN conjunct2, THEN conjunct2, THEN conjunct2,
      THEN conjunct1]
  have a3: "isFinite (displayDouble 1234567890123456789 18)" by simp
  from B [THEN conjunct2, THEN conjunct2, THEN conjunct1] BigInt_string_minus5
  have b1: "weiToNumber ''-5'' (Finite 18) = Some (negate (displayDouble 5 18))"
    by simp
  have "(5000000000000000000::int) div 10 ^ 18 < 2 ^ 53"
    "(5000000000000000000 mod 10 ^ 18) * 10 ^ 6 < (10 ^ 18 :: int)"
    by simp_all
  with B [THEN conjunct2, THEN conjunct2, THEN conjunct2, THEN conjunct2, THEN conjunct1]
  have b2: "displayDouble 5000000000000000000 18 = Finite (displayValue 5000000000000000000 18)"
    by simp
  have "(2::int) ^ 1024 \<le> 2 ^ 1024 * 10 ^ 18 div 10 ^ 18" by simp
  with C [THEN conjunct2, THEN conjunct2, THEN conjunct2, THEN conjunct2, THEN conjunct2,
      THEN conjunct2, THEN conjunct1]
  have c1: "displayDouble (2 ^ 1024 * 10 ^ 18) 18 = Infinity" by simp
  from BigInt_string_example a1 displayValue_examples(1) a2 a3 BigInt_string_minus5 b1 b2
    displayValue_examples(2) c1
  show ?thesis by (intro conjI)
qed

text \<open>
  Claim C5 as the specification states it fails twice. \<open>"-5"\<close> is no non-negative
  integer, and \<open>weiToNumber("-5", 18)\<close> is \<open>0\<close>, not \<open>null\<close>. And for
  \<open>"1999999000000000000"\<close> the formula gives \<open>1.999999\<close>, while \<open>weiToNumber\<close> returns the
  double \<open>1 + 0.999999\<close>, which is below it.
\<close>

theorem weiToNumber_negative_counterexample:
  "BigInt_string ''-5'' = Some (- 5)
   \<and> weiToNumber ''-5'' (Finite 18) = Some (Finite 0)
   \<and> weiToNumber ''1999999000000000000'' (Finite 18)
       = Some (Finite (2251798687785341 / 1125899906842624))
   \<and> displayValue 1999999000000000000 18 = 1999999 / 1000000
   \<and> (2251798687785341 / 1125899906842624 :: rat) < 1999999 / 1000000"
proof -
  have "weiToNumber ''-5'' (Finite 18) = Some (Finite 0)" by code_simp
  moreover have "weiToNumber ''1999999000000000000'' (Finite 18)
       = Some (Finite (2251798687785341 / 1125899906842624))"
    by code_simp
  moreover have "(2251798687785341 / 1125899906842624 :: rat) < 1999999 / 1000000" by simp
  ultimately show ?thesis using BigInt_string_minus5 displayValue_examples(3) by (intro conjI)
qed

section \<open>The order of the two windows\<close>

lemma positive_number: "\<not> x \<le> 0 \<Longrightarrow> x \<noteq> NaN \<Longrightarrow> (0::number) < x"
  by (cases x) (simp_all add: zero_number_def)

lemma zero_le_zero_number [simp]: "(0::number) \<le> 0" "(0::number) \<noteq> NegInfinity"
  by (simp_all add: zero_number_def)

lemma number_add_keeps_order:
  fixes a b c :: number
  assumes "a \<le> b" and "a \<noteq> NegInfinity" and "0 < c"
  shows "a + c \<le> b + c" and "a \<le> b + c" and "a + c \<noteq> NegInfinity"
  using assms by (cases a; cases b; cases c; simp add: zero_number_def)+

lemma rewardAmount_pos:
  assumes "rewardAmount address t = Some amt"
  shows "0 < amt"
proof -
  from assms obtain w where "weiToNumber w (Finite 18) = Some amt" and n: "\<not> amt \<le> 0"
    by (auto simp: rewardAmount_def Let_def split: option.splits if_splits)
  with weiToNumber_not_NaN [of w "Finite 18"] have "amt \<noteq> NaN" by auto
  with n show ?thesis by (rule positive_number)
qed

lemma ingestTx_keeps_order:
  assumes "rewards7d vars \<le> rewards30d vars" and "rewards7d vars \<noteq> NegInfinity"
  shows "rewards7d (ingestTx toNumber address nowSec vars t)
           \<le> rewards30d (ingestTx toNumber address nowSec vars t)"
    and "rewards7d (ingestTx toNumber address nowSec vars t) \<noteq> NegInfinity"
proof -
  have "rewards7d (ingestTx toNumber address nowSec vars t)
           \<le> rewards30d (ingestTx toNumber address nowSec vars t)
        \<and> rewards7d (ingestTx toNumber address nowSec vars t) \<noteq> NegInfinity"
  proof (cases "tsOf toNumber t")
    case None
    with assms show ?thesis by (simp add: ingestTx_def)
  next
    case (Some ts)
    show ?thesis
    proof (cases "rewardAmount address t")
      case None
      with Some assms show ?thesis by (simp add: ingestTx_def)
    next
      case (Some amt)
      then have "0 < amt" by (rule rewardAmount_pos)
      from number_add_keeps_order [OF assms this]
        Some \<open>tsOf toNumber t = Some ts\<close> assms show ?thesis
        by (simp add: ingestTx_def oldestNeeded_def Let_def)
    qed
  qed
  then show "rewards7d (ingestTx toNumber address nowSec vars t)
           \<le> rewards30d (ingestTx toNumber address nowSec vars t)"
    and "rewards7d (ingestTx toNumber address nowSec vars t) \<noteq> NegInfinity"
    by simp_all
qed

lemma foldl_ingestTx_keeps_order:
  "rewards7d vars \<le> rewards30d vars \<Longrightarrow> rewards7d vars \<noteq> NegInfinity \<Longrightarrow>
   rewards7d (foldl (ingestTx toNumber address nowSec) vars txs)
     \<le> rewards30d (foldl (ingestTx toNumber address nowSec) vars txs)
   \<and> rewards7d (foldl (ingestTx toNumber address nowSec) vars txs) \<noteq> NegInfinity"
  by (induction txs arbitrary: vars) (simp_all add: ingestTx_keeps_order)

lemma ingest_keeps_order:
  "rewards7d vars \<le> rewards30d vars \<Longrightarrow> rewards7d vars \<noteq> NegInfinity \<Longrightarrow>
   rewards7d (ingest toNumber address nowSec vars list)
     \<le> rewards30d (ingest toNumber address nowSec vars list)
   \<and> rewards7d (ingest toNumber address nowSec vars list) \<noteq> NegInfinity"
  by (simp add: ingest_def foldl_ingestTx_keeps_order)

lemma foldl_ingest_keeps_order:
  "rewards7d vars \<le> rewards30d vars \<Longrightarrow> rewards7d vars \<noteq> NegInfinity \<Longrightarrow>
   rewards7d (foldl (ingest toNumber address nowSec) vars pages)
     \<le> rewards30d (foldl (ingest toNumber address nowSec) vars pages)
   \<and> rewards7d (foldl (ingest toNumber address nowSec) vars pages) \<noteq> NegInfinity"
  by (induction pages arbitrary: vars) (simp_all add: ingest_keeps_order)


section \<open>The since-mode walk\<close>

declare earnedLoop.simps [simp del]
declare rewardsLoop.simps [simp del]

subsection \<open>The cases of the since-mode loop\<close>

lemma earnedLoop_done:
  "\<not> page \<le> earned_maxPages \<Longrightarrow>
   earnedLoop up toNumber address sinceSec page vars calls = (calls, Inr vars)"
  by (subst earnedLoop.simps) simp

lemma earnedLoop_throw:
  "page \<le> earned_maxPages \<Longrightarrow> getCoinbasePage up address page earned_limit = Inl e \<Longrightarrow>
   earnedLoop up toNumber address sinceSec page vars calls
     = (calls @ [earnedCall address page], Inl e)"
  by (subst earnedLoop.simps) simp

lemma earnedLoop_empty:
  "page \<le> earned_maxPages \<Longrightarrow> getCoinbasePage up address page earned_limit = Inr txs \<Longrightarrow>
   orEmpty (p_body txs) = [] \<Longrightarrow>
   earnedLoop up toNumber address sinceSec page vars calls
     = (calls @ [earnedCall address page], Inr (vars\<lparr>pagesFetched := pagesFetched vars + 1\<rparr>))"
  by (subst earnedLoop.simps) simp

lemma earnedLoop_stop:
  "page \<le> earned_maxPages \<Longrightarrow> getCoinbasePage up address page earned_limit = Inr txs \<Longrightarrow>
   orEmpty (p_body txs) \<noteq> [] \<Longrightarrow>
   st = foldl (earnedTx toNumber address sinceSec)
          (vars\<lparr>pagesFetched := pagesFetched vars + 1\<rparr>, False) (orEmpty (p_body txs)) \<Longrightarrow>
   snd st \<or> lastPageReported txs page \<Longrightarrow>
   earnedLoop up toNumber address sinceSec page vars calls
     = (calls @ [earnedCall address page], Inr (fst st))"
  by (subst earnedLoop.simps) (auto simp: Let_def)

lemma earnedLoop_next:
  "page \<le> earned_maxPages \<Longrightarrow> getCoinbasePage up address page earned_limit = Inr txs \<Longrightarrow>
   orEmpty (p_body txs) \<noteq> [] \<Longrightarrow>
   st = foldl (earnedTx toNumber address sinceSec)
          (vars\<lparr>pagesFetched := pagesFetched vars + 1\<rparr>, False) (orEmpty (p_body txs)) \<Longrightarrow>
   \<not> snd st \<Longrightarrow> \<not> lastPageReported txs page \<Longrightarrow>
   earnedLoop up toNumber address sinceSec page vars calls
     = earnedLoop up toNumber address sinceSec (page + 1) (fst st)
         (calls @ [earnedCall address page])"
  by (subst earnedLoop.simps) (simp add: Let_def)

lemma earnedLoop_calls_aux:
  "\<forall>cs. earnedLoop up toNumber address sinceSec page vars cs
     = (cs @ fst (earnedLoop up toNumber address sinceSec page vars []),
        snd (earnedLoop up toNumber address sinceSec page vars []))"
proof (induction "nat (earned_maxPages + 1 - page)" arbitrary: page vars rule: less_induct)
  case less
  show ?case
  proof (cases "page \<le> earned_maxPages")
    case False
    then show ?thesis by (simp add: earnedLoop_done)
  next
    case le: True
    show ?thesis
    proof (cases "getCoinbasePage up address page earned_limit")
      case (Inl e)
      with le show ?thesis by (simp add: earnedLoop_throw)
    next
      case (Inr txs)
      show ?thesis
      proof (cases "orEmpty (p_body txs) = []")
        case True
        with le Inr show ?thesis by (simp add: earnedLoop_empty)
      next
        case ne: False
        define st where "st = foldl (earnedTx toNumber address sinceSec)
          (vars\<lparr>pagesFetched := pagesFetched vars + 1\<rparr>, False) (orEmpty (p_body txs))"
        show ?thesis
        proof (cases "snd st \<or> lastPageReported txs page")
          case True
          from earnedLoop_stop [OF le Inr ne st_def True] show ?thesis by simp
        next
          case False
          then have a: "\<not> snd st" and b: "\<not> lastPageReported txs page" by simp_all
          note nxt = earnedLoop_next [OF le Inr ne st_def a b]
          have IH: "\<forall>cs. earnedLoop up toNumber address sinceSec (page + 1) (fst st) cs
             = (cs @ fst (earnedLoop up toNumber address sinceSec (page + 1) (fst st) []),
                snd (earnedLoop up toNumber address sinceSec (page + 1) (fst st) []))"
            using le by (intro less.hyps) simp
          show ?thesis
          proof
            fix cs
            have "earnedLoop up toNumber address sinceSec page vars cs
              = earnedLoop up toNumber address sinceSec (page + 1) (fst st) (cs @ [earnedCall address page])"
              by (rule nxt)
            moreover have "earnedLoop up toNumber address sinceSec page vars []
              = earnedLoop up toNumber address sinceSec (page + 1) (fst st) ([] @ [earnedCall address page])"
              by (rule nxt)
            ultimately show "earnedLoop up toNumber address sinceSec page vars cs
              = (cs @ fst (earnedLoop up toNumber address sinceSec page vars []),
                 snd (earnedLoop up toNumber address sinceSec page vars []))"
              using IH [rule_format, of "cs @ [earnedCall address page]"]
                IH [rule_format, of "[earnedCall address page]"]
              by simp
          qed
        qed
      qed
    qed
  qed
qed


lemma earnedLoop_calls:
  "earnedLoop up toNumber address sinceSec page vars cs
     = (cs @ fst (earnedLoop up toNumber address sinceSec page vars []),
        snd (earnedLoop up toNumber address sinceSec page vars []))"
  using earnedLoop_calls_aux by blast

text \<open>Induction over the pages of one walk, on what the loop returns.\<close>

lemma earnedLoop_walk [case_names over throw empty stop step]:
  assumes "\<And>page vars. \<not> page \<le> earned_maxPages \<Longrightarrow> P page vars ([], Inr vars)"
    and "\<And>page vars e. page \<le> earned_maxPages \<Longrightarrow>
           getCoinbasePage up address page earned_limit = Inl e \<Longrightarrow>
           P page vars ([earnedCall address page], Inl e)"
    and "\<And>page vars txs. page \<le> earned_maxPages \<Longrightarrow>
           getCoinbasePage up address page earned_limit = Inr txs \<Longrightarrow>
           orEmpty (p_body txs) = [] \<Longrightarrow>
           P page vars ([earnedCall address page],
             Inr (vars\<lparr>pagesFetched := pagesFetched vars + 1\<rparr>))"
    and "\<And>page vars txs st. page \<le> earned_maxPages \<Longrightarrow>
           getCoinbasePage up address page earned_limit = Inr txs \<Longrightarrow>
           orEmpty (p_body txs) \<noteq> [] \<Longrightarrow>
           st = foldl (earnedTx toNumber address sinceSec)
                  (vars\<lparr>pagesFetched := pagesFetched vars + 1\<rparr>, False) (orEmpty (p_body txs)) \<Longrightarrow>
           snd st \<or> lastPageReported txs page \<Longrightarrow>
           P page vars ([earnedCall address page], Inr (fst st))"
    and "\<And>page vars txs st r. page \<le> earned_maxPages \<Longrightarrow>
           getCoinbasePage up address page earned_limit = Inr txs \<Longrightarrow>
           orEmpty (p_body txs) \<noteq> [] \<Longrightarrow>
           st = foldl (earnedTx toNumber address sinceSec)
                  (vars\<lparr>pagesFetched := pagesFetched vars + 1\<rparr>, False) (orEmpty (p_body txs)) \<Longrightarrow>
           \<not> snd st \<Longrightarrow> \<not> lastPageReported txs page \<Longrightarrow>
           r = earnedLoop up toNumber address sinceSec (page + 1) (fst st) [] \<Longrightarrow>
           P (page + 1) (fst st) r \<Longrightarrow>
           P page vars (earnedCall address page # fst r, snd r)"
  shows "P page vars (earnedLoop up toNumber address sinceSec page vars [])"
proof (induction "nat (earned_maxPages + 1 - page)" arbitrary: page vars rule: less_induct)
  case less
  show ?case
  proof (cases "page \<le> earned_maxPages")
    case False
    then show ?thesis by (simp add: earnedLoop_done assms(1))
  next
    case le: True
    show ?thesis
    proof (cases "getCoinbasePage up address page earned_limit")
      case (Inl e)
      with le show ?thesis by (simp add: earnedLoop_throw assms(2))
    next
      case (Inr txs)
      show ?thesis
      proof (cases "orEmpty (p_body txs) = []")
        case True
        with le Inr show ?thesis by (simp add: earnedLoop_empty assms(3))
      next
        case ne: False
        define st where "st = foldl (earnedTx toNumber address sinceSec)
          (vars\<lparr>pagesFetched := pagesFetched vars + 1\<rparr>, False) (orEmpty (p_body txs))"
        show ?thesis
        proof (cases "snd st \<or> lastPageReported txs page")
          case True
          from earnedLoop_stop [OF le Inr ne st_def True] assms(4) [OF le Inr ne st_def True]
          show ?thesis by simp
        next
          case False
          then have a: "\<not> snd st" and b: "\<not> lastPageReported txs page" by simp_all
          define r where "r = earnedLoop up toNumber address sinceSec (page + 1) (fst st) []"
          have "P (page + 1) (fst st) r"
            unfolding r_def using le by (intro less.hyps) simp
          from assms(5) [OF le Inr ne st_def a b r_def this]
          have "P page vars (earnedCall address page # fst r, snd r)" .
          moreover have "earnedLoop up toNumber address sinceSec page vars []
              = (earnedCall address page # fst r, snd r)"
            using earnedLoop_next [OF le Inr ne st_def a b, of "[]"]
              earnedLoop_calls [of up toNumber address sinceSec "page + 1" "fst st" "[earnedCall address page]"]
            by (simp add: r_def)
          ultimately show ?thesis by simp
        qed
      qed
    qed
  qed
qed

lemma earnedTx_fold:
  "foldl (earnedTx toNumber address sinceSec) (vars, b) body = (vars', b') \<Longrightarrow>
   b' = (b \<or> list_ex (olderThan toNumber sinceSec) body)
   \<and> total vars' = total vars + sum_list (map (countedFrom toNumber address sinceSec) body)
   \<and> pagesFetched vars' = pagesFetched vars"
proof (induction body arbitrary: vars b)
  case Nil
  then show ?case by simp
next
  case (Cons t body)
  obtain v1 b1 where s: "earnedTx toNumber address sinceSec (vars, b) t = (v1, b1)"
    by (cases "earnedTx toNumber address sinceSec (vars, b) t")
  have one: "b1 = (b \<or> olderThan toNumber sinceSec t)
      \<and> total v1 = total vars + countedFrom toNumber address sinceSec t
      \<and> pagesFetched v1 = pagesFetched vars"
    using s
    by (auto simp: earnedTx_def olderThan_def countedFrom_def
        split: option.splits if_splits)
  from Cons.prems s have "foldl (earnedTx toNumber address sinceSec) (v1, b1) body = (vars', b')"
    by simp
  from Cons.IH [OF this] one show ?case by auto
qed

lemma upto_Cons: "i \<le> j \<Longrightarrow> [i..j] = i # [i + 1..j]"
  by (simp add: upto_rec1)

lemma earnedLoop_shape:
  "\<exists>n. page - 1 \<le> n \<and> (n \<le> earned_maxPages \<or> n = page - 1)
     \<and> (page \<le> earned_maxPages \<longrightarrow> page \<le> n)
     \<and> fst (earnedLoop up toNumber address sinceSec page vars [])
           = map (earnedCall address) [page..n]
     \<and> (\<forall>q. page \<le> q \<and> q < n \<longrightarrow> \<not> earnedStops up toNumber address sinceSec q)
     \<and> (page \<le> n \<and> n < earned_maxPages \<longrightarrow> earnedStops up toNumber address sinceSec n)
     \<and> (\<forall>e. snd (earnedLoop up toNumber address sinceSec page vars []) = Inl e \<longrightarrow>
            page \<le> n \<and> getCoinbasePage up address n earned_limit = Inl e)
     \<and> (\<forall>vars'. snd (earnedLoop up toNumber address sinceSec page vars []) = Inr vars' \<longrightarrow>
            total vars' = total vars
              + (\<Sum>q\<leftarrow>[page..n]. \<Sum>t\<leftarrow>pageTxs up address q earned_limit.
                    countedFrom toNumber address sinceSec t)
            \<and> pagesFetched vars' = pagesFetched vars + (n - page + 1)
            \<and> (page \<le> n \<longrightarrow> (\<exists>txs. getCoinbasePage up address n earned_limit = Inr txs)))"
  (is "?P page vars (earnedLoop up toNumber address sinceSec page vars [])")
proof (rule earnedLoop_walk [where P = ?P])
  fix page :: int and vars :: earned_vars
  assume "\<not> page \<le> earned_maxPages"
  then show "?P page vars ([], Inr vars)"
    by (intro exI [of _ "page - 1"]) auto
next
  fix page :: int and vars :: earned_vars and e
  assume "page \<le> earned_maxPages" "getCoinbasePage up address page earned_limit = Inl e"
  then show "?P page vars ([earnedCall address page], Inl e)"
    by (intro exI [of _ page]) (auto simp: earnedStops_def)
next
  fix page :: int and vars :: earned_vars and txs
  assume "page \<le> earned_maxPages" "getCoinbasePage up address page earned_limit = Inr txs"
    "orEmpty (p_body txs) = []"
  then show "?P page vars ([earnedCall address page],
      Inr (vars\<lparr>pagesFetched := pagesFetched vars + 1\<rparr>))"
    by (intro exI [of _ page]) (auto simp: earnedStops_def pageTxs_def getCoinbasePage_def)
next
  fix page :: int and vars :: earned_vars and txs st
  assume le: "page \<le> earned_maxPages"
    and f: "getCoinbasePage up address page earned_limit = Inr txs"
    and ne: "orEmpty (p_body txs) \<noteq> []"
    and st: "st = foldl (earnedTx toNumber address sinceSec)
          (vars\<lparr>pagesFetched := pagesFetched vars + 1\<rparr>, False) (orEmpty (p_body txs))"
    and stop: "snd st \<or> lastPageReported txs page"
  from st have "foldl (earnedTx toNumber address sinceSec)
      (vars\<lparr>pagesFetched := pagesFetched vars + 1\<rparr>, False) (orEmpty (p_body txs)) = (fst st, snd st)"
    by simp
  from earnedTx_fold [OF this] stop le f
  show "?P page vars ([earnedCall address page], Inr (fst st))"
    by (intro exI [of _ page]) (auto simp: earnedStops_def pageTxs_def getCoinbasePage_def)
next
  fix page :: int and vars :: earned_vars and txs st r
  assume le: "page \<le> earned_maxPages"
    and f: "getCoinbasePage up address page earned_limit = Inr txs"
    and ne: "orEmpty (p_body txs) \<noteq> []"
    and st: "st = foldl (earnedTx toNumber address sinceSec)
          (vars\<lparr>pagesFetched := pagesFetched vars + 1\<rparr>, False) (orEmpty (p_body txs))"
    and a: "\<not> snd st" and b: "\<not> lastPageReported txs page"
    and r: "r = earnedLoop up toNumber address sinceSec (page + 1) (fst st) []"
    and IH: "?P (page + 1) (fst st) r"
  from st have "foldl (earnedTx toNumber address sinceSec)
      (vars\<lparr>pagesFetched := pagesFetched vars + 1\<rparr>, False) (orEmpty (p_body txs)) = (fst st, snd st)"
    by simp
  note fold = earnedTx_fold [OF this]
  have cont: "\<not> earnedStops up toNumber address sinceSec page"
    using f ne a b fold by (simp add: earnedStops_def)
  have txs: "pageTxs up address page earned_limit = orEmpty (p_body txs)"
    using f by (simp add: pageTxs_def getCoinbasePage_def)
  from IH obtain n where n: "page \<le> n" "n \<le> earned_maxPages \<or> n = page"
    "page + 1 \<le> earned_maxPages \<longrightarrow> page + 1 \<le> n"
    "fst r = map (earnedCall address) [page + 1..n]"
    "\<forall>q. page + 1 \<le> q \<and> q < n \<longrightarrow> \<not> earnedStops up toNumber address sinceSec q"
    "page + 1 \<le> n \<and> n < earned_maxPages \<longrightarrow> earnedStops up toNumber address sinceSec n"
    "\<forall>e. snd r = Inl e \<longrightarrow> page + 1 \<le> n \<and> getCoinbasePage up address n earned_limit = Inl e"
    "\<forall>vars'. snd r = Inr vars' \<longrightarrow>
            total vars' = total (fst st)
              + (\<Sum>q\<leftarrow>[page + 1..n]. \<Sum>t\<leftarrow>pageTxs up address q earned_limit.
                    countedFrom toNumber address sinceSec t)
            \<and> pagesFetched vars' = pagesFetched (fst st) + (n - (page + 1) + 1)
            \<and> (page + 1 \<le> n \<longrightarrow> (\<exists>txs. getCoinbasePage up address n earned_limit = Inr txs))"
    by auto
  show "?P page vars (earnedCall address page # fst r, snd r)"
  proof (intro exI [of _ n] conjI allI impI)
    show "page - 1 \<le> n" using n(1) by simp
    show "n \<le> earned_maxPages \<or> n = page - 1" using n(2) le by auto
    show "page \<le> n" by (rule n(1))
    show "fst (earnedCall address page # fst r, snd r) = map (earnedCall address) [page..n]"
      using n(1,4) by (simp add: upto_Cons)
    show "\<not> earnedStops up toNumber address sinceSec q" if "page \<le> q \<and> q < n" for q
      using that cont n(5) by (cases "q = page") auto
    show "earnedStops up toNumber address sinceSec n" if "page \<le> n \<and> n < earned_maxPages"
      using that n(3,6) by (cases "n = page") auto
    show "page \<le> n" by (rule n(1))
    show "getCoinbasePage up address n earned_limit = Inl e"
      if "snd (earnedCall address page # fst r, snd r) = Inl e" for e
      using that n(7) by simp
  next
    fix vars'
    assume "snd (earnedCall address page # fst r, snd r) = Inr vars'"
    then have s: "snd r = Inr vars'" by simp
    with n(8) have t: "total vars' = total (fst st)
              + (\<Sum>q\<leftarrow>[page + 1..n]. \<Sum>t\<leftarrow>pageTxs up address q earned_limit.
                    countedFrom toNumber address sinceSec t)"
      and p: "pagesFetched vars' = pagesFetched (fst st) + (n - (page + 1) + 1)"
      and g: "page + 1 \<le> n \<longrightarrow> (\<exists>txs. getCoinbasePage up address n earned_limit = Inr txs)"
      by auto
    show "total vars' = total vars
              + (\<Sum>q\<leftarrow>[page..n]. \<Sum>t\<leftarrow>pageTxs up address q earned_limit.
                    countedFrom toNumber address sinceSec t)"
      using t fold n(1) txs by (simp add: upto_Cons)
    show "pagesFetched vars' = pagesFetched vars + (n - page + 1)"
      using p fold by simp
    show "\<exists>txs. getCoinbasePage up address n earned_limit = Inr txs"
      using g f by (cases "n = page") (use n(1) in auto)
  qed
qed

section \<open>The windowed walk\<close>

subsection \<open>The cases of the windowed loop\<close>

lemma rewardsLoop_over:
  "\<not> page \<le> rewards_maxPages \<Longrightarrow>
   rewardsLoop up toNumber address nowSec page oldestTsSeen vars calls = (calls, Inr vars)"
  by (subst rewardsLoop.simps) simp

lemma rewardsLoop_old:
  "tooOld nowSec oldestTsSeen \<Longrightarrow>
   rewardsLoop up toNumber address nowSec page oldestTsSeen vars calls = (calls, Inr vars)"
  by (subst rewardsLoop.simps) simp

lemma rewardsLoop_throw:
  "page \<le> rewards_maxPages \<Longrightarrow> \<not> tooOld nowSec oldestTsSeen \<Longrightarrow>
   getCoinbaseTxPage up address page pageLimit = Inl e \<Longrightarrow>
   rewardsLoop up toNumber address nowSec page oldestTsSeen vars calls
     = (calls @ [rewardsCall address page], Inl e)"
  by (subst rewardsLoop.simps) simp

lemma rewardsLoop_empty:
  "page \<le> rewards_maxPages \<Longrightarrow> \<not> tooOld nowSec oldestTsSeen \<Longrightarrow>
   getCoinbaseTxPage up address page pageLimit = Inr pageRes \<Longrightarrow>
   orEmpty (p_body pageRes) = [] \<Longrightarrow>
   rewardsLoop up toNumber address nowSec page oldestTsSeen vars calls
     = (calls @ [rewardsCall address page], Inr vars)"
  by (subst rewardsLoop.simps) simp

lemma rewardsLoop_last:
  "page \<le> rewards_maxPages \<Longrightarrow> \<not> tooOld nowSec oldestTsSeen \<Longrightarrow>
   getCoinbaseTxPage up address page pageLimit = Inr pageRes \<Longrightarrow>
   orEmpty (p_body pageRes) \<noteq> [] \<Longrightarrow> lastPageReported pageRes page \<Longrightarrow>
   rewardsLoop up toNumber address nowSec page oldestTsSeen vars calls
     = (calls @ [rewardsCall address page],
        Inr (ingest toNumber address nowSec vars (Some (orEmpty (p_body pageRes)))))"
  by (subst rewardsLoop.simps) (simp add: Let_def)

lemma rewardsLoop_next:
  "page \<le> rewards_maxPages \<Longrightarrow> \<not> tooOld nowSec oldestTsSeen \<Longrightarrow>
   getCoinbaseTxPage up address page pageLimit = Inr pageRes \<Longrightarrow>
   orEmpty (p_body pageRes) \<noteq> [] \<Longrightarrow> \<not> lastPageReported pageRes page \<Longrightarrow>
   rewardsLoop up toNumber address nowSec page oldestTsSeen vars calls
     = rewardsLoop up toNumber address nowSec (page + 1)
         (seenOldest toNumber (orEmpty (p_body pageRes)) oldestTsSeen)
         (ingest toNumber address nowSec vars (Some (orEmpty (p_body pageRes))))
         (calls @ [rewardsCall address page])"
  by (subst rewardsLoop.simps) (simp add: Let_def)

lemma rewardsLoop_calls_aux:
  "\<forall>cs. rewardsLoop up toNumber address nowSec page oldestTsSeen vars cs
     = (cs @ fst (rewardsLoop up toNumber address nowSec page oldestTsSeen vars []),
        snd (rewardsLoop up toNumber address nowSec page oldestTsSeen vars []))"
proof (induction "nat (rewards_maxPages + 1 - page)" arbitrary: page oldestTsSeen vars
    rule: less_induct)
  case less
  show ?case
  proof (cases "page \<le> rewards_maxPages")
    case False
    then show ?thesis by (simp add: rewardsLoop_over)
  next
    case le: True
    show ?thesis
    proof (cases "tooOld nowSec oldestTsSeen")
      case True
      then show ?thesis by (simp add: rewardsLoop_old)
    next
      case fresh: False
      show ?thesis
      proof (cases "getCoinbaseTxPage up address page pageLimit")
        case (Inl e)
        with le fresh show ?thesis by (simp add: rewardsLoop_throw)
      next
        case (Inr pageRes)
        show ?thesis
        proof (cases "orEmpty (p_body pageRes) = []")
          case True
          with le fresh Inr show ?thesis by (simp add: rewardsLoop_empty)
        next
          case ne: False
          show ?thesis
          proof (cases "lastPageReported pageRes page")
            case True
            with le fresh Inr ne show ?thesis by (simp add: rewardsLoop_last)
          next
            case False
            note nxt = rewardsLoop_next [OF le fresh Inr ne False]
            have IH: "\<forall>cs. rewardsLoop up toNumber address nowSec (page + 1) o1 v1 cs
               = (cs @ fst (rewardsLoop up toNumber address nowSec (page + 1) o1 v1 []),
                  snd (rewardsLoop up toNumber address nowSec (page + 1) o1 v1 []))" for o1 v1
              using le by (intro less.hyps) simp
            show ?thesis
              using IH [rule_format, of _ _ "_ @ [rewardsCall address page]"]
                IH [rule_format, of _ _ "[rewardsCall address page]"]
              by (simp add: nxt)
          qed
        qed
      qed
    qed
  qed
qed

lemma rewardsLoop_calls:
  "rewardsLoop up toNumber address nowSec page oldestTsSeen vars cs
     = (cs @ fst (rewardsLoop up toNumber address nowSec page oldestTsSeen vars []),
        snd (rewardsLoop up toNumber address nowSec page oldestTsSeen vars []))"
  using rewardsLoop_calls_aux by blast

text \<open>Induction over the pages of one windowed walk, on what the loop returns.\<close>

lemma rewardsLoop_walk [case_names over old throw empty last step]:
  assumes "\<And>page seen vars. \<not> page \<le> rewards_maxPages \<Longrightarrow> P page seen vars ([], Inr vars)"
    and "\<And>page seen vars. tooOld nowSec seen \<Longrightarrow> P page seen vars ([], Inr vars)"
    and "\<And>page seen vars e. page \<le> rewards_maxPages \<Longrightarrow> \<not> tooOld nowSec seen \<Longrightarrow>
           getCoinbaseTxPage up address page pageLimit = Inl e \<Longrightarrow>
           P page seen vars ([rewardsCall address page], Inl e)"
    and "\<And>page seen vars pageRes. page \<le> rewards_maxPages \<Longrightarrow> \<not> tooOld nowSec seen \<Longrightarrow>
           getCoinbaseTxPage up address page pageLimit = Inr pageRes \<Longrightarrow>
           orEmpty (p_body pageRes) = [] \<Longrightarrow>
           P page seen vars ([rewardsCall address page], Inr vars)"
    and "\<And>page seen vars pageRes. page \<le> rewards_maxPages \<Longrightarrow> \<not> tooOld nowSec seen \<Longrightarrow>
           getCoinbaseTxPage up address page pageLimit = Inr pageRes \<Longrightarrow>
           orEmpty (p_body pageRes) \<noteq> [] \<Longrightarrow> lastPageReported pageRes page \<Longrightarrow>
           P page seen vars ([rewardsCall address page],
             Inr (ingest toNumber address nowSec vars (Some (orEmpty (p_body pageRes)))))"
    and "\<And>page seen vars pageRes r. page \<le> rewards_maxPages \<Longrightarrow> \<not> tooOld nowSec seen \<Longrightarrow>
           getCoinbaseTxPage up address page pageLimit = Inr pageRes \<Longrightarrow>
           orEmpty (p_body pageRes) \<noteq> [] \<Longrightarrow> \<not> lastPageReported pageRes page \<Longrightarrow>
           r = rewardsLoop up toNumber address nowSec (page + 1)
                 (seenOldest toNumber (orEmpty (p_body pageRes)) seen)
                 (ingest toNumber address nowSec vars (Some (orEmpty (p_body pageRes)))) [] \<Longrightarrow>
           P (page + 1) (seenOldest toNumber (orEmpty (p_body pageRes)) seen)
             (ingest toNumber address nowSec vars (Some (orEmpty (p_body pageRes)))) r \<Longrightarrow>
           P page seen vars (rewardsCall address page # fst r, snd r)"
  shows "P page seen vars (rewardsLoop up toNumber address nowSec page seen vars [])"
proof (induction "nat (rewards_maxPages + 1 - page)" arbitrary: page seen vars rule: less_induct)
  case less
  show ?case
  proof (cases "page \<le> rewards_maxPages")
    case False
    then show ?thesis by (simp add: rewardsLoop_over assms(1))
  next
    case le: True
    show ?thesis
    proof (cases "tooOld nowSec seen")
      case True
      then show ?thesis by (simp add: rewardsLoop_old assms(2))
    next
      case fresh: False
      show ?thesis
      proof (cases "getCoinbaseTxPage up address page pageLimit")
        case (Inl e)
        with le fresh show ?thesis by (simp add: rewardsLoop_throw assms(3))
      next
        case (Inr pageRes)
        show ?thesis
        proof (cases "orEmpty (p_body pageRes) = []")
          case True
          with le fresh Inr show ?thesis by (simp add: rewardsLoop_empty assms(4))
        next
          case ne: False
          show ?thesis
          proof (cases "lastPageReported pageRes page")
            case True
            with le fresh Inr ne show ?thesis by (simp add: rewardsLoop_last assms(5))
          next
            case False
            define r where "r = rewardsLoop up toNumber address nowSec (page + 1)
                 (seenOldest toNumber (orEmpty (p_body pageRes)) seen)
                 (ingest toNumber address nowSec vars (Some (orEmpty (p_body pageRes)))) []"
            have "P (page + 1) (seenOldest toNumber (orEmpty (p_body pageRes)) seen)
                (ingest toNumber address nowSec vars (Some (orEmpty (p_body pageRes)))) r"
              unfolding r_def using le by (intro less.hyps) simp
            from assms(6) [OF le fresh Inr ne False r_def this]
            have "P page seen vars (rewardsCall address page # fst r, snd r)" .
            moreover have "rewardsLoop up toNumber address nowSec page seen vars []
                = (rewardsCall address page # fst r, snd r)"
              using rewardsLoop_next [OF le fresh Inr ne False, of toNumber vars "[]"]
                rewardsLoop_calls [of up toNumber address nowSec "page + 1" _ _
                  "[rewardsCall address page]"]
              by (simp add: r_def)
            ultimately show ?thesis by simp
          qed
        qed
      qed
    qed
  qed
qed

lemma ingestTx_counts:
  "rewards30d (ingestTx toNumber address nowSec vars t)
     = rewards30d vars + countedFrom toNumber address (of_int (nowSec - sec30d)) t
   \<and> rewards7d (ingestTx toNumber address nowSec vars t)
     = rewards7d vars + countedFrom toNumber address (of_int (nowSec - sec7d)) t"
  by (auto simp: ingestTx_def countedFrom_def oldestNeeded_def sec7d_def sec30d_def Let_def
      split: option.splits)

lemma foldl_ingestTx_counts:
  "rewards30d (foldl (ingestTx toNumber address nowSec) vars txs)
     = rewards30d vars
       + (\<Sum>t\<leftarrow>txs. countedFrom toNumber address (of_int (nowSec - sec30d)) t)
   \<and> rewards7d (foldl (ingestTx toNumber address nowSec) vars txs)
     = rewards7d vars
       + (\<Sum>t\<leftarrow>txs. countedFrom toNumber address (of_int (nowSec - sec7d)) t)"
  by (induction txs arbitrary: vars) (simp_all add: ingestTx_counts)

lemma ingestTx_old:
  "tsOf toNumber t = Some ts \<Longrightarrow> ts < of_int (nowSec - sec30d) \<Longrightarrow>
   ingestTx toNumber address nowSec vars t = vars"
  by (simp add: ingestTx_def oldestNeeded_def)

lemma rewardsLoop_shape:
  "\<exists>n. page - 1 \<le> n \<and> (n \<le> rewards_maxPages \<or> n = page - 1)
     \<and> fst (rewardsLoop up toNumber address nowSec page seen vars [])
           = map (rewardsCall address) [page..n]
     \<and> (\<forall>vars'. snd (rewardsLoop up toNumber address nowSec page seen vars []) = Inr vars' \<longrightarrow>
            vars' = foldl (ingestTx toNumber address nowSec) vars
                      (concat (map (\<lambda>q. pageTxs up address q pageLimit) [page..n])))"
  (is "?P page seen vars (rewardsLoop up toNumber address nowSec page seen vars [])")
proof (rule rewardsLoop_walk [where P = ?P])
  fix page :: int and seen :: "rat option" and vars :: rewards_vars
  show "?P page seen vars ([], Inr vars)"
    by (intro exI [of _ "page - 1"]) auto
  show "?P page seen vars ([], Inr vars)"
    by (intro exI [of _ "page - 1"]) auto
next
  fix page :: int and seen :: "rat option" and vars :: rewards_vars and e
  show "?P page seen vars ([rewardsCall address page], Inl e)"
    if "page \<le> rewards_maxPages"
    using that by (intro exI [of _ page]) auto
next
  fix page :: int and seen :: "rat option" and vars :: rewards_vars and pageRes
  assume le: "page \<le> rewards_maxPages"
    and f: "getCoinbaseTxPage up address page pageLimit = Inr pageRes"
  then have txs: "pageTxs up address page pageLimit = orEmpty (p_body pageRes)"
    by (simp add: pageTxs_def getCoinbaseTxPage_def)
  show "?P page seen vars ([rewardsCall address page], Inr vars)"
    if "orEmpty (p_body pageRes) = []"
    using that le txs by (intro exI [of _ page]) auto
  show "?P page seen vars ([rewardsCall address page],
      Inr (ingest toNumber address nowSec vars (Some (orEmpty (p_body pageRes)))))"
    using le txs by (intro exI [of _ page]) (auto simp: ingest_def orEmpty_def)
next
  fix page :: int and seen :: "rat option" and vars :: rewards_vars and pageRes r
  assume le: "page \<le> rewards_maxPages"
    and f: "getCoinbaseTxPage up address page pageLimit = Inr pageRes"
    and IH: "?P (page + 1) (seenOldest toNumber (orEmpty (p_body pageRes)) seen)
             (ingest toNumber address nowSec vars (Some (orEmpty (p_body pageRes)))) r"
  from f have txs: "pageTxs up address page pageLimit = orEmpty (p_body pageRes)"
    by (simp add: pageTxs_def getCoinbaseTxPage_def)
  from IH obtain n where n: "page \<le> n" "n \<le> rewards_maxPages \<or> n = page"
    "fst r = map (rewardsCall address) [page + 1..n]"
    "\<forall>vars'. snd r = Inr vars' \<longrightarrow>
        vars' = foldl (ingestTx toNumber address nowSec)
                  (ingest toNumber address nowSec vars (Some (orEmpty (p_body pageRes))))
                  (concat (map (\<lambda>q. pageTxs up address q pageLimit) [page + 1..n]))"
    by auto
  show "?P page seen vars (rewardsCall address page # fst r, snd r)"
    using n le txs
    by (intro exI [of _ n]) (auto simp: upto_Cons ingest_def orEmpty_def)
qed

lemma rewardsLoop_stops_after_old:
  assumes "accounttx up address p pageLimit = Inr txs"
    and "lastTimestamp toNumber (orEmpty (p_body txs)) = Some t"
    and "t < of_int (oldestNeeded nowSec)"
  shows "page \<le> p \<longrightarrow>
    (\<forall>q>p. rewardsCall address q
        \<notin> set (fst (rewardsLoop up toNumber address nowSec page seen vars [])))"
  (is "?P page seen vars (rewardsLoop up toNumber address nowSec page seen vars [])")
proof (rule rewardsLoop_walk [where P = ?P])
  fix page :: int and seen :: "rat option" and vars :: rewards_vars
  show "?P page seen vars ([], Inr vars)" by simp
  show "?P page seen vars ([], Inr vars)" by simp
next
  fix page :: int and seen :: "rat option" and vars :: rewards_vars and e
  show "?P page seen vars ([rewardsCall address page], Inl e)" by auto
next
  fix page :: int and seen :: "rat option" and vars :: rewards_vars and pageRes
  show "?P page seen vars ([rewardsCall address page], Inr vars)" by auto
  show "?P page seen vars ([rewardsCall address page],
      Inr (ingest toNumber address nowSec vars (Some (orEmpty (p_body pageRes)))))" by auto
next
  fix page :: int and seen :: "rat option" and vars :: rewards_vars and pageRes r
  assume f: "getCoinbaseTxPage up address page pageLimit = Inr pageRes"
    and r: "r = rewardsLoop up toNumber address nowSec (page + 1)
                 (seenOldest toNumber (orEmpty (p_body pageRes)) seen)
                 (ingest toNumber address nowSec vars (Some (orEmpty (p_body pageRes)))) []"
    and IH: "?P (page + 1) (seenOldest toNumber (orEmpty (p_body pageRes)) seen)
             (ingest toNumber address nowSec vars (Some (orEmpty (p_body pageRes)))) r"
  show "?P page seen vars (rewardsCall address page # fst r, snd r)"
  proof (cases "page = p")
    case True
    with f assms have "tooOld nowSec (seenOldest toNumber (orEmpty (p_body pageRes)) seen)"
      by (simp add: getCoinbaseTxPage_def seenOldest_def tooOld_def)
    then have "fst r = []" by (simp add: r rewardsLoop_old)
    with True show ?thesis by auto
  next
    case False
    with IH show ?thesis by auto
  qed
qed

lemma rewardsLoop_goes_on:
  "2 \<le> page \<and> page \<le> rewards_maxPages \<and> \<not> tooOld nowSec seen
     \<and> (\<forall>q. page \<le> q \<and> q < rewards_maxPages \<longrightarrow> rewardsContinues up toNumber address nowSec q)
   \<longrightarrow> fst (rewardsLoop up toNumber address nowSec page seen vars [])
         = map (rewardsCall address) [page..rewards_maxPages]"
  (is "?P page seen vars (rewardsLoop up toNumber address nowSec page seen vars [])")
proof (rule rewardsLoop_walk [where P = ?P])
  fix page :: int and seen :: "rat option" and vars :: rewards_vars
  show "?P page seen vars ([], Inr vars)" if "\<not> page \<le> rewards_maxPages"
    using that by simp
  show "?P page seen vars ([], Inr vars)" if "tooOld nowSec seen"
    using that by simp
next
  fix page :: int and seen :: "rat option" and vars :: rewards_vars and e
  assume "getCoinbaseTxPage up address page pageLimit = Inl e"
  then have "\<not> rewardsContinues up toNumber address nowSec page"
    by (simp add: rewardsContinues_def getCoinbaseTxPage_def)
  then show "?P page seen vars ([rewardsCall address page], Inl e)"
    by (cases "page = rewards_maxPages") auto
next
  fix page :: int and seen :: "rat option" and vars :: rewards_vars and pageRes
  assume f: "getCoinbaseTxPage up address page pageLimit = Inr pageRes"
  show "?P page seen vars ([rewardsCall address page], Inr vars)"
    if "orEmpty (p_body pageRes) = []"
  proof -
    from that f have "2 \<le> page \<longrightarrow> \<not> rewardsContinues up toNumber address nowSec page"
      by (simp add: rewardsContinues_def getCoinbaseTxPage_def)
    then show ?thesis by (cases "page = rewards_maxPages") auto
  qed
  show "?P page seen vars ([rewardsCall address page],
      Inr (ingest toNumber address nowSec vars (Some (orEmpty (p_body pageRes)))))"
    if "lastPageReported pageRes page"
  proof -
    from that f have "2 \<le> page \<longrightarrow> \<not> rewardsContinues up toNumber address nowSec page"
      by (simp add: rewardsContinues_def getCoinbaseTxPage_def)
    then show ?thesis by (cases "page = rewards_maxPages") auto
  qed
next
  fix page :: int and seen :: "rat option" and vars :: rewards_vars and pageRes r
  assume le: "page \<le> rewards_maxPages" and fresh: "\<not> tooOld nowSec seen"
    and f: "getCoinbaseTxPage up address page pageLimit = Inr pageRes"
    and r: "r = rewardsLoop up toNumber address nowSec (page + 1)
                 (seenOldest toNumber (orEmpty (p_body pageRes)) seen)
                 (ingest toNumber address nowSec vars (Some (orEmpty (p_body pageRes)))) []"
    and IH: "?P (page + 1) (seenOldest toNumber (orEmpty (p_body pageRes)) seen)
             (ingest toNumber address nowSec vars (Some (orEmpty (p_body pageRes)))) r"
  show "?P page seen vars (rewardsCall address page # fst r, snd r)"
  proof (cases "page = rewards_maxPages")
    case True
    then have "fst r = []" by (simp add: r rewardsLoop_over)
    with True show ?thesis by simp
  next
    case False
    show ?thesis
    proof (intro impI, elim conjE)
      assume p2: "2 \<le> page"
        and all: "\<forall>q. page \<le> q \<and> q < rewards_maxPages \<longrightarrow>
                   rewardsContinues up toNumber address nowSec q"
      from False le have lt: "page < rewards_maxPages" by simp
      with all have "rewardsContinues up toNumber address nowSec page" by simp
      with f have "\<not> tooOld nowSec (lastTimestamp toNumber (orEmpty (p_body pageRes)))"
        by (simp add: rewardsContinues_def getCoinbaseTxPage_def)
      with fresh have "\<not> tooOld nowSec (seenOldest toNumber (orEmpty (p_body pageRes)) seen)"
        by (cases "lastTimestamp toNumber (orEmpty (p_body pageRes))") (simp_all add: seenOldest_def)
      with IH p2 lt all have "fst r = map (rewardsCall address) [page + 1..rewards_maxPages]"
        by simp
      with le show "fst (rewardsCall address page # fst r, snd r)
          = map (rewardsCall address) [page..rewards_maxPages]"
        by (simp add: upto_Cons)
    qed
  qed
qed

section \<open>One address of the earned route\<close>

lemma earnedAddress_walk:
  "fst (earnedAddress up toNumber sinceSec address)
     = fst (earnedLoop up toNumber address sinceSec 1
              \<lparr>lastRewardAt = None, total = 0, pagesFetched = 0\<rparr> [])"
  "snd (earnedAddress up toNumber sinceSec address) = Inr r \<longleftrightarrow>
     (\<exists>vars. snd (earnedLoop up toNumber address sinceSec 1
                  \<lparr>lastRewardAt = None, total = 0, pagesFetched = 0\<rparr> []) = Inr vars
        \<and> r = \<lparr>er_address = address, er_earned = orNull (total vars),
                er_lastRewardAt = lastRewardAt vars, er_pagesFetched = pagesFetched vars\<rparr>)"
  by (auto simp: earnedAddress_def Let_def split: sum.splits)

lemma olderThan_ex:
  "t \<in> set body \<Longrightarrow> tsOf toNumber t = Some ts \<Longrightarrow> ts < bound \<Longrightarrow>
   list_ex (olderThan toNumber bound) body"
  unfolding list_ex_iff olderThan_def by (rule bexI [of _ t]) simp_all

lemma earnedAddress_calls:
  "\<exists>n. 1 \<le> n \<and> n \<le> earned_maxPages
     \<and> fst (earnedAddress up toNumber sinceSec address) = map (earnedCall address) [1..n]
     \<and> (\<forall>q. 1 \<le> q \<and> q < n \<longrightarrow> \<not> earnedStops up toNumber address sinceSec q)
     \<and> (n < earned_maxPages \<longrightarrow> earnedStops up toNumber address sinceSec n)
     \<and> (\<forall>e. snd (earnedAddress up toNumber sinceSec address) = Inl e \<longrightarrow>
            getCoinbasePage up address n earned_limit = Inl e)
     \<and> (\<forall>r. snd (earnedAddress up toNumber sinceSec address) = Inr r \<longrightarrow>
            er_pagesFetched r = n
            \<and> er_earned r = orNull (\<Sum>q\<leftarrow>[1..n]. \<Sum>t\<leftarrow>pageTxs up address q earned_limit.
                                        countedFrom toNumber address sinceSec t))"
proof -
  define vars0 :: earned_vars where "vars0 = \<lparr>lastRewardAt = None, total = 0, pagesFetched = 0\<rparr>"
  from earnedLoop_shape [of 1 up toNumber address sinceSec vars0]
  obtain n where n: "(1::int) \<le> earned_maxPages \<longrightarrow> 1 \<le> n" "n \<le> earned_maxPages \<or> n = 0"
    "fst (earnedLoop up toNumber address sinceSec 1 vars0 []) = map (earnedCall address) [1..n]"
    "\<forall>q. 1 \<le> q \<and> q < n \<longrightarrow> \<not> earnedStops up toNumber address sinceSec q"
    "1 \<le> n \<and> n < earned_maxPages \<longrightarrow> earnedStops up toNumber address sinceSec n"
    "\<forall>e. snd (earnedLoop up toNumber address sinceSec 1 vars0 []) = Inl e \<longrightarrow>
            1 \<le> n \<and> getCoinbasePage up address n earned_limit = Inl e"
    "\<forall>vars'. snd (earnedLoop up toNumber address sinceSec 1 vars0 []) = Inr vars' \<longrightarrow>
            total vars' = total vars0
              + (\<Sum>q\<leftarrow>[1..n]. \<Sum>t\<leftarrow>pageTxs up address q earned_limit.
                    countedFrom toNumber address sinceSec t)
            \<and> pagesFetched vars' = pagesFetched vars0 + (n - 1 + 1)
            \<and> (1 \<le> n \<longrightarrow> (\<exists>txs. getCoinbasePage up address n earned_limit = Inr txs))"
    by auto
  have n1: "1 \<le> n" using n(1) by (simp add: earned_maxPages_def)
  have "snd (earnedAddress up toNumber sinceSec address) = Inl e \<Longrightarrow>
      snd (earnedLoop up toNumber address sinceSec 1 vars0 []) = Inl e" for e
    by (auto simp: earnedAddress_def Let_def vars0_def split: sum.splits)
  moreover have "snd (earnedAddress up toNumber sinceSec address) = Inr r \<Longrightarrow>
      \<exists>vars. snd (earnedLoop up toNumber address sinceSec 1 vars0 []) = Inr vars
        \<and> er_earned r = orNull (total vars) \<and> er_pagesFetched r = pagesFetched vars" for r
    by (auto simp: earnedAddress_def Let_def vars0_def split: sum.splits)
  moreover have "fst (earnedAddress up toNumber sinceSec address)
      = fst (earnedLoop up toNumber address sinceSec 1 vars0 [])"
    by (simp add: earnedAddress_def Let_def vars0_def)
  ultimately show ?thesis
    using n n1 by (intro exI [of _ n]) (auto simp: vars0_def)
qed


lemma decimal_digit_values [simp]:
  "digitVal 10 CHR ''0'' = Some 0" "digitVal 10 CHR ''1'' = Some 1"
  "digitVal 10 CHR ''2'' = Some 2" "digitVal 10 CHR ''3'' = Some 3"
  "digitVal 10 CHR ''4'' = Some 4" "digitVal 10 CHR ''5'' = Some 5"
  "digitVal 10 CHR ''6'' = Some 6" "digitVal 10 CHR ''7'' = Some 7"
  "digitVal 10 CHR ''8'' = Some 8" "digitVal 10 CHR ''9'' = Some 9"
  by (simp_all add: digitVal_def)

text \<open>
  Claim C1, as the code has it. Let page \<open>p\<close> of the feed of an address hold a record
  whose timestamp is a finite number other than zero and lies before \<open>since\<close>. Then the since-mode walk of that
  address requests no page after \<open>p\<close>. When it requests page \<open>p\<close>, its requests are the
  pages 1 to \<open>p\<close>, it returns a result with \<open>pagesFetched = p\<close>, and the earned total is
  what the earlier pages count for plus what every record of page \<open>p\<close> counts for: a
  record of page \<open>p\<close> with a read timestamp not before \<open>since\<close> and a positive
  self-output amount counts for that amount, wherever it stands in the page.
\<close>

theorem since_walk_stops_after_old_record:
  assumes "1 \<le> p"
    and "getCoinbasePage up address p earned_limit = Inr txs"
    and "t \<in> set (orEmpty (p_body txs))"
    and "timestampNumber toNumber t = Some (Finite ts)"
    and "ts \<noteq> 0"
    and "ts < sinceSec"
  shows "(\<forall>q>p. earnedCall address q \<notin> set (fst (earnedAddress up toNumber sinceSec address)))
    \<and> (earnedCall address p \<in> set (fst (earnedAddress up toNumber sinceSec address)) \<longrightarrow>
         fst (earnedAddress up toNumber sinceSec address) = map (earnedCall address) [1..p]
         \<and> (\<exists>r. snd (earnedAddress up toNumber sinceSec address) = Inr r
                \<and> er_pagesFetched r = p
                \<and> er_earned r = orNull
                     ((\<Sum>q\<leftarrow>[1..p - 1]. \<Sum>u\<leftarrow>pageTxs up address q earned_limit.
                          countedFrom toNumber address sinceSec u)
                      + (\<Sum>u\<leftarrow>orEmpty (p_body txs). countedFrom toNumber address sinceSec u))))
    \<and> (\<forall>u\<in>set (orEmpty (p_body txs)). \<forall>ts' amt.
          tsOf toNumber u = Some ts' \<and> sinceSec \<le> ts' \<and> rewardAmount address u = Some amt \<longrightarrow>
          countedFrom toNumber address sinceSec u = amt)"
proof -
  let ?calls = "fst (earnedAddress up toNumber sinceSec address)"
  from earnedAddress_calls [of up toNumber sinceSec address]
  obtain n where n: "1 \<le> n" "n \<le> earned_maxPages"
    "?calls = map (earnedCall address) [1..n]"
    "\<forall>q. 1 \<le> q \<and> q < n \<longrightarrow> \<not> earnedStops up toNumber address sinceSec q"
    "\<forall>e. snd (earnedAddress up toNumber sinceSec address) = Inl e \<longrightarrow>
            getCoinbasePage up address n earned_limit = Inl e"
    "\<forall>r. snd (earnedAddress up toNumber sinceSec address) = Inr r \<longrightarrow>
            er_pagesFetched r = n
            \<and> er_earned r = orNull (\<Sum>q\<leftarrow>[1..n]. \<Sum>t\<leftarrow>pageTxs up address q earned_limit.
                                        countedFrom toNumber address sinceSec t)"
    by blast
  have "tsOf toNumber t = Some ts"
    using assms(4,5) by (simp add: tsOf_def)
  from olderThan_ex [OF assms(3) this assms(6)]
  have stops: "earnedStops up toNumber address sinceSec p"
    using assms(2) by (simp add: earnedStops_def)
  with n(4) assms(1) have np: "n \<le> p" by force
  have A: "\<forall>q>p. earnedCall address q \<notin> set ?calls"
    using np n(3) by auto
  have B: "?calls = map (earnedCall address) [1..p]
         \<and> (\<exists>r. snd (earnedAddress up toNumber sinceSec address) = Inr r
                \<and> er_pagesFetched r = p
                \<and> er_earned r = orNull
                     ((\<Sum>q\<leftarrow>[1..p - 1]. \<Sum>u\<leftarrow>pageTxs up address q earned_limit.
                          countedFrom toNumber address sinceSec u)
                      + (\<Sum>u\<leftarrow>orEmpty (p_body txs). countedFrom toNumber address sinceSec u)))"
    if "earnedCall address p \<in> set ?calls"
  proof -
    from that n(3) have "p \<le> n" by auto
    with np have eq: "n = p" by simp
    obtain r where r: "snd (earnedAddress up toNumber sinceSec address) = Inr r"
      using n(5) assms(2) eq by (cases "snd (earnedAddress up toNumber sinceSec address)") auto
    have txs: "pageTxs up address p earned_limit = orEmpty (p_body txs)"
      using assms(2) by (simp add: pageTxs_def getCoinbasePage_def)
    have "[1..p] = [1..p - 1] @ [p]" using assms(1) by (rule upto_rec2)
    with n(6) r eq txs show ?thesis
      using n(3) by auto
  qed
  have C: "\<forall>u\<in>set (orEmpty (p_body txs)). \<forall>ts' amt.
          tsOf toNumber u = Some ts' \<and> sinceSec \<le> ts' \<and> rewardAmount address u = Some amt \<longrightarrow>
          countedFrom toNumber address sinceSec u = amt"
    by (simp add: countedFrom_def)
  from A B C show ?thesis by blast
qed

theorem since_walk_stops_after_old_record_witness:
  "(1::int) \<le> 3
   \<and> getCoinbasePage sinceFeed addrA 3 earned_limit = Inr sincePage3
   \<and> rewardTx ''900'' addrA ''8000000000000000000'' \<in> set (orEmpty (p_body sincePage3))
   \<and> timestampNumber decimalNumber (rewardTx ''900'' addrA ''8000000000000000000'')
       = Some (Finite 900)
   \<and> (900::rat) \<noteq> 0 \<and> (900::rat) < 1000
   \<and> earnedCall addrA 4 \<notin> set (fst (earnedAddress sinceFeed decimalNumber 1000 addrA))
   \<and> fst (earnedAddress sinceFeed decimalNumber 1000 addrA) = map (earnedCall addrA) [1..3]
   \<and> snd (earnedAddress sinceFeed decimalNumber 1000 addrA)
       = Inr \<lparr>er_address = addrA, er_earned = Some (Finite 23), er_lastRewardAt = Some 5000,
              er_pagesFetched = 3\<rparr>"
proof -
  have h2: "getCoinbasePage sinceFeed addrA 3 earned_limit = Inr sincePage3"
    by (simp add: getCoinbasePage_def sinceFeed_def)
  have h3: "rewardTx ''900'' addrA ''8000000000000000000'' \<in> set (orEmpty (p_body sincePage3))"
    by (simp add: sincePage3_def txPage_def orEmpty_def)
  have h4: "timestampNumber decimalNumber (rewardTx ''900'' addrA ''8000000000000000000'')
      = Some (Finite 900)"
    by (simp add: timestampNumber_def rewardTx_def decimalNumber_def parseDigits_def)
  have run: "earnedAddress sinceFeed decimalNumber 1000 addrA
      = (map (earnedCall addrA) [1..3],
         Inr \<lparr>er_address = addrA, er_earned = Some (Finite 23), er_lastRewardAt = Some 5000,
              er_pagesFetched = 3\<rparr>)"
    by code_simp
  from since_walk_stops_after_old_record [of 3 sinceFeed addrA sincePage3
      "rewardTx ''900'' addrA ''8000000000000000000''" decimalNumber 900 1000, OF _ h2 h3 h4]
  have "earnedCall addrA 4 \<notin> set (fst (earnedAddress sinceFeed decimalNumber 1000 addrA))"
    by simp
  with h2 h3 h4 run show ?thesis by simp
qed

text \<open>
  Claim C1 as the specification states it fails for a record with timestamp zero: zero
  lies before every valid \<open>since\<close>, but the record is skipped like one without a
  timestamp, and the walk goes on to page 2.
\<close>

theorem since_walk_zero_timestamp_counterexample:
  "getCoinbasePage zeroFeed addrA 1 earned_limit
     = Inr (txPage [rewardTx ''0'' addrA ''1000000000000000000''] 2 1)
   \<and> timestampNumber decimalNumber (rewardTx ''0'' addrA ''1000000000000000000'')
       = Some (Finite 0)
   \<and> (0::rat) < 1000
   \<and> fst (earnedAddress zeroFeed decimalNumber 1000 addrA)
       = [earnedCall addrA 1, earnedCall addrA 2]"
proof -
  have "fst (earnedAddress zeroFeed decimalNumber 1000 addrA)
      = [earnedCall addrA 1, earnedCall addrA 2]"
    by code_simp
  then show ?thesis
    by (simp add: getCoinbasePage_def zeroFeed_def timestampNumber_def rewardTx_def
        decimalNumber_def parseDigits_def)
qed

section \<open>One address of the rewards route\<close>

lemma rewardsWalk_calls:
  "rewardsWalk up toNumber address nowSec txs calls
     = (calls @ fst (rewardsWalk up toNumber address nowSec txs []),
        snd (rewardsWalk up toNumber address nowSec txs []))"
  unfolding rewardsWalk_def Let_def by (rule rewardsLoop_calls)

lemma sum_list_concat_map:
  "(\<Sum>t\<leftarrow>concat (map f qs). g t) = (\<Sum>q\<leftarrow>qs. \<Sum>t\<leftarrow>f q. (g t :: number))"
  by (induction qs) simp_all

lemma rewardsWalk_shape:
  assumes "getCoinbaseTxs up address pageLimit = Inr txs"
  shows "\<exists>n. 1 \<le> n \<and> n \<le> rewards_maxPages
     \<and> fst (rewardsWalk up toNumber address nowSec txs []) = map (rewardsCall address) [2..n]
     \<and> (\<forall>vars. snd (rewardsWalk up toNumber address nowSec txs []) = Inr vars \<longrightarrow>
            vars = foldl (ingestTx toNumber address nowSec)
                     \<lparr>lastRewardAt = None, rewards7d = 0, rewards30d = 0\<rparr>
                     (concat (map (\<lambda>q. pageTxs up address q pageLimit) [1..n])))"
proof -
  define vars1 where "vars1 = ingest toNumber address nowSec
      \<lparr>lastRewardAt = None, rewards7d = 0, rewards30d = 0\<rparr> (p_body txs)"
  define seen where "seen = lastTimestamp toNumber (orEmpty (p_body txs))"
  have walk: "rewardsWalk up toNumber address nowSec txs []
      = rewardsLoop up toNumber address nowSec 2 seen vars1 []"
    by (simp add: rewardsWalk_def vars1_def seen_def)
  from rewardsLoop_shape [of 2 up toNumber address nowSec seen vars1]
  obtain n where n: "1 \<le> n" "n \<le> rewards_maxPages \<or> n = 1"
    "fst (rewardsLoop up toNumber address nowSec 2 seen vars1 [])
       = map (rewardsCall address) [2..n]"
    "\<forall>vars'. snd (rewardsLoop up toNumber address nowSec 2 seen vars1 []) = Inr vars' \<longrightarrow>
        vars' = foldl (ingestTx toNumber address nowSec) vars1
                  (concat (map (\<lambda>q. pageTxs up address q pageLimit) [2..n]))"
    by auto
  have first: "pageTxs up address 1 pageLimit = orEmpty (p_body txs)"
    using assms by (simp add: pageTxs_def getCoinbaseTxs_def)
  have "foldl (ingestTx toNumber address nowSec) vars1
          (concat (map (\<lambda>q. pageTxs up address q pageLimit) [2..n]))
      = foldl (ingestTx toNumber address nowSec)
          \<lparr>lastRewardAt = None, rewards7d = 0, rewards30d = 0\<rparr>
          (concat (map (\<lambda>q. pageTxs up address q pageLimit) [1..n]))"
    using n(1) first by (simp add: upto_Cons [of 1 n] vars1_def ingest_def)
  with n walk show ?thesis
    by (intro exI [of _ n]) (auto simp: rewards_maxPages_def)
qed

lemma rewardsAddress_failed:
  "getAccount up address = Inl e \<or> getStake up address = Inl e
     \<or> getCoinbaseTxs up address pageLimit = Inl e \<Longrightarrow>
   fst (rewardsAddress up toNumber nowSec address) = firstCalls address
   \<and> (\<exists>e'. snd (rewardsAddress up toNumber nowSec address) = Inl e')"
  by (auto simp: rewardsAddress_def Let_def split: sum.splits)

lemma rewardsAddress_walked:
  assumes "getAccount up address = Inr acct" "getStake up address = Inr stk"
    "getCoinbaseTxs up address pageLimit = Inr txs"
  shows "fst (rewardsAddress up toNumber nowSec address)
           = firstCalls address @ fst (rewardsWalk up toNumber address nowSec txs [])"
    and "snd (rewardsAddress up toNumber nowSec address)
           = (case snd (rewardsWalk up toNumber address nowSec txs []) of
                Inl e \<Rightarrow> Inl e
              | Inr vars \<Rightarrow>
                  Inr \<lparr>res_address = address,
                       res_tfuelBalance = tfuelBalanceOf acct,
                       res_stakedTheta = orNull (stakedThetaSum stk),
                       res_rewards7d = orNull (rewards7d vars),
                       res_rewards30d = orNull (rewards30d vars),
                       res_lastRewardAt = lastRewardAt vars\<rparr>)"
  using assms rewardsWalk_calls [of up toNumber address nowSec txs "firstCalls address"]
  by (simp_all add: rewardsAddress_def Let_def)

lemma rewardsAddress_cases:
  obtains (failed) e where "getAccount up address = Inl e \<or> getStake up address = Inl e
       \<or> getCoinbaseTxs up address pageLimit = Inl e"
  | (walked) acct stk txs where "getAccount up address = Inr acct"
      "getStake up address = Inr stk" "getCoinbaseTxs up address pageLimit = Inr txs"
  by (cases "getAccount up address"; cases "getStake up address";
      cases "getCoinbaseTxs up address pageLimit") auto

lemma rewardsAddress_calls:
  "\<exists>n. 1 \<le> n \<and> n \<le> rewards_maxPages
     \<and> fst (rewardsAddress up toNumber nowSec address)
         = AccountCall address # StakeCall address # map (rewardsCall address) [1..n]
     \<and> (\<forall>r. snd (rewardsAddress up toNumber nowSec address) = Inr r \<longrightarrow>
           res_rewards30d r = orNull (\<Sum>q\<leftarrow>[1..n]. \<Sum>t\<leftarrow>pageTxs up address q pageLimit.
                countedFrom toNumber address (of_int (nowSec - sec30d)) t)
           \<and> res_rewards7d r = orNull (\<Sum>q\<leftarrow>[1..n]. \<Sum>t\<leftarrow>pageTxs up address q pageLimit.
                countedFrom toNumber address (of_int (nowSec - sec7d)) t))"
proof (cases rule: rewardsAddress_cases [of up address])
  case (failed e)
  from rewardsAddress_failed [OF this, of toNumber nowSec] show ?thesis
    by (intro exI [of _ 1]) (auto simp: rewards_maxPages_def)
next
  case (walked acct stk txs)
  from rewardsWalk_shape [OF walked(3), of toNumber nowSec]
  obtain n where n: "1 \<le> n" "n \<le> rewards_maxPages"
    "fst (rewardsWalk up toNumber address nowSec txs []) = map (rewardsCall address) [2..n]"
    "\<forall>vars. snd (rewardsWalk up toNumber address nowSec txs []) = Inr vars \<longrightarrow>
            vars = foldl (ingestTx toNumber address nowSec)
                     \<lparr>lastRewardAt = None, rewards7d = 0, rewards30d = 0\<rparr>
                     (concat (map (\<lambda>q. pageTxs up address q pageLimit) [1..n]))"
    by blast
  note w = rewardsAddress_walked [OF walked, of toNumber nowSec]
  have calls: "fst (rewardsAddress up toNumber nowSec address)
         = AccountCall address # StakeCall address # map (rewardsCall address) [1..n]"
    using w(1) n(1,3) by (simp add: upto_Cons [of 1 n])
  have sums: "res_rewards30d r = orNull (\<Sum>q\<leftarrow>[1..n]. \<Sum>t\<leftarrow>pageTxs up address q pageLimit.
                countedFrom toNumber address (of_int (nowSec - sec30d)) t)
           \<and> res_rewards7d r = orNull (\<Sum>q\<leftarrow>[1..n]. \<Sum>t\<leftarrow>pageTxs up address q pageLimit.
                countedFrom toNumber address (of_int (nowSec - sec7d)) t)"
    if "snd (rewardsAddress up toNumber nowSec address) = Inr r" for r
  proof -
    from that w(2) obtain vars where
      v: "snd (rewardsWalk up toNumber address nowSec txs []) = Inr vars"
      and r: "res_rewards30d r = orNull (rewards30d vars)"
        "res_rewards7d r = orNull (rewards7d vars)"
      by (cases "snd (rewardsWalk up toNumber address nowSec txs [])") auto
    from n(4) v have "vars = foldl (ingestTx toNumber address nowSec)
                     \<lparr>lastRewardAt = None, rewards7d = 0, rewards30d = 0\<rparr>
                     (concat (map (\<lambda>q. pageTxs up address q pageLimit) [1..n]))"
      by simp
    with r show ?thesis
      by (simp add: foldl_ingestTx_counts sum_list_concat_map)
  qed
  from n(1,2) calls sums show ?thesis by blast
qed

lemma lastTimestamp_nonempty: "lastTimestamp toNumber body = Some t \<Longrightarrow> body \<noteq> []"
  by (auto simp: lastTimestamp_def)

lemma rewardsAddress_two_pages:
  assumes ok: "getAccount up address = Inr acct" "getStake up address = Inr stk"
    and p1: "accounttx up address 1 pageLimit = Inr page1"
    and p2: "accounttx up address 2 pageLimit = Inr page2"
    and t1: "lastTimestamp toNumber (orEmpty (p_body page1)) = Some t1"
      "of_int (nowSec - sec30d) \<le> t1"
    and t2: "lastTimestamp toNumber (orEmpty (p_body page2)) = Some t2"
      "t2 < of_int (nowSec - sec30d)"
  shows "fst (rewardsAddress up toNumber nowSec address)
           = [AccountCall address, StakeCall address, rewardsCall address 1,
              rewardsCall address 2]"
    and "\<exists>r. snd (rewardsAddress up toNumber nowSec address) = Inr r
           \<and> res_rewards30d r = orNull
               (\<Sum>t\<leftarrow>orEmpty (p_body page1) @ orEmpty (p_body page2).
                   countedFrom toNumber address (of_int (nowSec - sec30d)) t)
           \<and> res_rewards7d r = orNull
               (\<Sum>t\<leftarrow>orEmpty (p_body page1) @ orEmpty (p_body page2).
                   countedFrom toNumber address (of_int (nowSec - sec7d)) t)"
proof -
  define vars1 where "vars1 = ingest toNumber address nowSec
      \<lparr>lastRewardAt = None, rewards7d = 0, rewards30d = 0\<rparr> (p_body page1)"
  define vars2 where "vars2 = ingest toNumber address nowSec vars1 (Some (orEmpty (p_body page2)))"
  have txs: "getCoinbaseTxs up address pageLimit = Inr page1"
    using p1 by (simp add: getCoinbaseTxs_def)
  have f2: "getCoinbaseTxPage up address 2 pageLimit = Inr page2"
    using p2 by (simp add: getCoinbaseTxPage_def)
  have fresh: "\<not> tooOld nowSec (Some t1)"
    using t1(2) by (simp add: tooOld_def oldestNeeded_def)
  have old: "tooOld nowSec (seenOldest toNumber (orEmpty (p_body page2)) (Some t1))"
    using t2 by (simp add: tooOld_def oldestNeeded_def seenOldest_def)
  have ne: "orEmpty (p_body page2) \<noteq> []"
    using t2(1) by (rule lastTimestamp_nonempty)
  have le: "(2::int) \<le> rewards_maxPages" by (simp add: rewards_maxPages_def)
  have loop: "rewardsLoop up toNumber address nowSec 2 (Some t1) vars1 []
      = ([rewardsCall address 2], Inr vars2)"
  proof (cases "lastPageReported page2 2")
    case True
    from rewardsLoop_last [OF le fresh f2 ne True] show ?thesis by (simp add: vars2_def)
  next
    case False
    from rewardsLoop_next [OF le fresh f2 ne False] rewardsLoop_old [OF old]
    show ?thesis by (simp add: vars2_def)
  qed
  then have walk: "rewardsWalk up toNumber address nowSec page1 []
      = ([rewardsCall address 2], Inr vars2)"
    using t1(1) by (simp add: rewardsWalk_def vars1_def)
  note w = rewardsAddress_walked [OF ok txs, of toNumber nowSec]
  show "fst (rewardsAddress up toNumber nowSec address)
           = [AccountCall address, StakeCall address, rewardsCall address 1,
              rewardsCall address 2]"
    using w(1) walk by simp
  have v2: "vars2 = foldl (ingestTx toNumber address nowSec)
      \<lparr>lastRewardAt = None, rewards7d = 0, rewards30d = 0\<rparr>
      (orEmpty (p_body page1) @ orEmpty (p_body page2))"
    by (simp add: vars2_def vars1_def ingest_def orEmpty_def)
  show "\<exists>r. snd (rewardsAddress up toNumber nowSec address) = Inr r
           \<and> res_rewards30d r = orNull
               (\<Sum>t\<leftarrow>orEmpty (p_body page1) @ orEmpty (p_body page2).
                   countedFrom toNumber address (of_int (nowSec - sec30d)) t)
           \<and> res_rewards7d r = orNull
               (\<Sum>t\<leftarrow>orEmpty (p_body page1) @ orEmpty (p_body page2).
                   countedFrom toNumber address (of_int (nowSec - sec7d)) t)"
    using w(2) walk foldl_ingestTx_counts [of toNumber address nowSec
        "\<lparr>lastRewardAt = None, rewards7d = 0, rewards30d = 0\<rparr>"
        "orEmpty (p_body page1) @ orEmpty (p_body page2)"]
    by (simp add: v2 del: foldl_append map_append sum_list_append)
qed

lemma rewardsAddress_stops_after_old:
  assumes "1 \<le> p" "accounttx up address p pageLimit = Inr txs"
    and "lastTimestamp toNumber (orEmpty (p_body txs)) = Some t"
    and "t < of_int (nowSec - sec30d)"
  shows "\<forall>q>p. rewardsCall address q \<notin> set (fst (rewardsAddress up toNumber nowSec address))"
proof (cases rule: rewardsAddress_cases [of up address])
  case (failed e)
  from rewardsAddress_failed [OF this, of toNumber nowSec] assms(1) show ?thesis by auto
next
  case (walked acct stk page1)
  note w = rewardsAddress_walked [OF walked, of toNumber nowSec]
  have old: "t < of_int (oldestNeeded nowSec)" using assms(4) by (simp add: oldestNeeded_def)
  show ?thesis
  proof (cases "p = 1")
    case True
    with walked(3) assms(2) have "page1 = txs" by (simp add: getCoinbaseTxs_def)
    with assms(3) old
    have "tooOld nowSec (lastTimestamp toNumber (orEmpty (p_body page1)))"
      by (simp add: tooOld_def)
    then have "fst (rewardsWalk up toNumber address nowSec page1 []) = []"
      by (simp add: rewardsWalk_def rewardsLoop_old)
    with w(1) True show ?thesis by auto
  next
    case False
    with assms(1) have "2 \<le> p" by simp
    with rewardsLoop_stops_after_old [OF assms(2,3) old, where page = 2]
    have "\<forall>q>p. rewardsCall address q
        \<notin> set (fst (rewardsWalk up toNumber address nowSec page1 []))"
      by (simp add: rewardsWalk_def)
    with w(1) assms(1) show ?thesis by auto
  qed
qed

lemma ingestTx_skips_old:
  assumes "timestampNumber toNumber u = Some (Finite ts)" "ts < of_int (nowSec - sec30d)"
  shows "ingestTx toNumber address nowSec vars u = vars"
    and "countedFrom toNumber address (of_int (nowSec - sec30d)) u = 0"
    and "countedFrom toNumber address (of_int (nowSec - sec7d)) u = 0"
  using assms
  by (auto simp: ingestTx_def countedFrom_def tsOf_def oldestNeeded_def sec7d_def sec30d_def)

text \<open>
  Claim C2. In the windowed walk of an address: when page \<open>p\<close> of the feed ends with a
  record whose timestamp is a finite number before \<open>now - 30 days\<close>, no page after \<open>p\<close> is
  requested. A record whose timestamp is a finite number before \<open>now - 30 days\<close> leaves
  all accumulators as they are, and counts for nothing in either window. The requests of
  an address are the account, the stake and the pages 1 to some \<open>n\<close>, and the two sums of
  a result are what the records of these pages count for in their window. In
  particular, when the account and the stake are there, page 1 ends inside the 30 days
  and page 2 ends before them, exactly the pages 1 and 2 are requested, and
  \<open>rewards30d\<close> is what the records of both pages count for, which is nothing for the
  records before \<open>now - 30 days\<close>.
\<close>

theorem windowed_walk_stops_at_boundary:
  "(1 \<le> p \<and> accounttx up address p pageLimit = Inr txs
      \<and> lastTimestamp toNumber (orEmpty (p_body txs)) = Some t
      \<and> t < of_int (nowSec - sec30d) \<longrightarrow>
      (\<forall>q>p. rewardsCall address q \<notin> set (fst (rewardsAddress up toNumber nowSec address))))
   \<and> (timestampNumber toNumber u = Some (Finite ts) \<and> ts < of_int (nowSec - sec30d) \<longrightarrow>
        ingestTx toNumber address nowSec vars u = vars
        \<and> countedFrom toNumber address (of_int (nowSec - sec30d)) u = 0
        \<and> countedFrom toNumber address (of_int (nowSec - sec7d)) u = 0)
   \<and> (\<exists>n. 1 \<le> n \<and> n \<le> rewards_maxPages
         \<and> fst (rewardsAddress up toNumber nowSec address)
             = AccountCall address # StakeCall address # map (rewardsCall address) [1..n]
         \<and> (\<forall>r. snd (rewardsAddress up toNumber nowSec address) = Inr r \<longrightarrow>
               res_rewards30d r = orNull (\<Sum>q\<leftarrow>[1..n]. \<Sum>t\<leftarrow>pageTxs up address q pageLimit.
                    countedFrom toNumber address (of_int (nowSec - sec30d)) t)
               \<and> res_rewards7d r = orNull (\<Sum>q\<leftarrow>[1..n]. \<Sum>t\<leftarrow>pageTxs up address q pageLimit.
                    countedFrom toNumber address (of_int (nowSec - sec7d)) t)))
   \<and> (getAccount up address = Inr acct \<and> getStake up address = Inr stk
        \<and> accounttx up address 1 pageLimit = Inr pageA
        \<and> accounttx up address 2 pageLimit = Inr pageB
        \<and> lastTimestamp toNumber (orEmpty (p_body pageA)) = Some tA
        \<and> of_int (nowSec - sec30d) \<le> tA
        \<and> lastTimestamp toNumber (orEmpty (p_body pageB)) = Some tB
        \<and> tB < of_int (nowSec - sec30d) \<longrightarrow>
        fst (rewardsAddress up toNumber nowSec address)
          = [AccountCall address, StakeCall address, rewardsCall address 1,
             rewardsCall address 2]
        \<and> (\<exists>r. snd (rewardsAddress up toNumber nowSec address) = Inr r
               \<and> res_rewards30d r = orNull
                   (\<Sum>t\<leftarrow>orEmpty (p_body pageA) @ orEmpty (p_body pageB).
                       countedFrom toNumber address (of_int (nowSec - sec30d)) t)
               \<and> res_rewards7d r = orNull
                   (\<Sum>t\<leftarrow>orEmpty (p_body pageA) @ orEmpty (p_body pageB).
                       countedFrom toNumber address (of_int (nowSec - sec7d)) t)))"
proof (intro conjI)
  show "1 \<le> p \<and> accounttx up address p pageLimit = Inr txs
      \<and> lastTimestamp toNumber (orEmpty (p_body txs)) = Some t
      \<and> t < of_int (nowSec - sec30d) \<longrightarrow>
      (\<forall>q>p. rewardsCall address q \<notin> set (fst (rewardsAddress up toNumber nowSec address)))"
    using rewardsAddress_stops_after_old by blast
  show "timestampNumber toNumber u = Some (Finite ts) \<and> ts < of_int (nowSec - sec30d) \<longrightarrow>
        ingestTx toNumber address nowSec vars u = vars
        \<and> countedFrom toNumber address (of_int (nowSec - sec30d)) u = 0
        \<and> countedFrom toNumber address (of_int (nowSec - sec7d)) u = 0"
    using ingestTx_skips_old by blast
  show "\<exists>n. 1 \<le> n \<and> n \<le> rewards_maxPages
         \<and> fst (rewardsAddress up toNumber nowSec address)
             = AccountCall address # StakeCall address # map (rewardsCall address) [1..n]
         \<and> (\<forall>r. snd (rewardsAddress up toNumber nowSec address) = Inr r \<longrightarrow>
               res_rewards30d r = orNull (\<Sum>q\<leftarrow>[1..n]. \<Sum>t\<leftarrow>pageTxs up address q pageLimit.
                    countedFrom toNumber address (of_int (nowSec - sec30d)) t)
               \<and> res_rewards7d r = orNull (\<Sum>q\<leftarrow>[1..n]. \<Sum>t\<leftarrow>pageTxs up address q pageLimit.
                    countedFrom toNumber address (of_int (nowSec - sec7d)) t))"
    by (rule rewardsAddress_calls)
  show "getAccount up address = Inr acct \<and> getStake up address = Inr stk
        \<and> accounttx up address 1 pageLimit = Inr pageA
        \<and> accounttx up address 2 pageLimit = Inr pageB
        \<and> lastTimestamp toNumber (orEmpty (p_body pageA)) = Some tA
        \<and> of_int (nowSec - sec30d) \<le> tA
        \<and> lastTimestamp toNumber (orEmpty (p_body pageB)) = Some tB
        \<and> tB < of_int (nowSec - sec30d) \<longrightarrow>
        fst (rewardsAddress up toNumber nowSec address)
          = [AccountCall address, StakeCall address, rewardsCall address 1,
             rewardsCall address 2]
        \<and> (\<exists>r. snd (rewardsAddress up toNumber nowSec address) = Inr r
               \<and> res_rewards30d r = orNull
                   (\<Sum>t\<leftarrow>orEmpty (p_body pageA) @ orEmpty (p_body pageB).
                       countedFrom toNumber address (of_int (nowSec - sec30d)) t)
               \<and> res_rewards7d r = orNull
                   (\<Sum>t\<leftarrow>orEmpty (p_body pageA) @ orEmpty (p_body pageB).
                       countedFrom toNumber address (of_int (nowSec - sec7d)) t))"
  proof (intro impI, elim conjE)
    assume a: "getAccount up address = Inr acct" "getStake up address = Inr stk"
      "accounttx up address 1 pageLimit = Inr pageA"
      "accounttx up address 2 pageLimit = Inr pageB"
      "lastTimestamp toNumber (orEmpty (p_body pageA)) = Some tA"
      "of_int (nowSec - sec30d) \<le> tA"
      "lastTimestamp toNumber (orEmpty (p_body pageB)) = Some tB"
      "tB < of_int (nowSec - sec30d)"
    from rewardsAddress_two_pages(1) [OF a] rewardsAddress_two_pages(2) [OF a]
    show "fst (rewardsAddress up toNumber nowSec address)
          = [AccountCall address, StakeCall address, rewardsCall address 1,
             rewardsCall address 2]
        \<and> (\<exists>r. snd (rewardsAddress up toNumber nowSec address) = Inr r
               \<and> res_rewards30d r = orNull
                   (\<Sum>t\<leftarrow>orEmpty (p_body pageA) @ orEmpty (p_body pageB).
                       countedFrom toNumber address (of_int (nowSec - sec30d)) t)
               \<and> res_rewards7d r = orNull
                   (\<Sum>t\<leftarrow>orEmpty (p_body pageA) @ orEmpty (p_body pageB).
                       countedFrom toNumber address (of_int (nowSec - sec7d)) t))"
      by (rule conjI)
  qed
qed


lemma windowFeed_run:
  "rewardsAddress windowFeed decimalNumber exampleNow addrA
     = ([AccountCall addrA, StakeCall addrA, rewardsCall addrA 1, rewardsCall addrA 2],
        Inr \<lparr>res_address = addrA, res_tfuelBalance = Some (Finite 5), res_stakedTheta = Some (Finite 3),
             res_rewards7d = Some (Finite 1), res_rewards30d = Some (Finite 7),
             res_lastRewardAt = Some 9913600\<rparr>)"
  by code_simp

lemma windowFeed_pages:
  "getAccount windowFeed addrA = Inr (accountOf ''5000000000000000000'')"
  "accounttx windowFeed addrA 1 pageLimit = Inr windowPage1"
  "accounttx windowFeed addrA 2 pageLimit = Inr windowPage2"
  "lastTimestamp decimalNumber (orEmpty (p_body windowPage1)) = Some 8272000"
  "lastTimestamp decimalNumber (orEmpty (p_body windowPage2)) = Some 6976000"
  by (simp_all add: windowFeed_def getAccount_def windowPage1_def windowPage2_def txPage_def
      orEmpty_def lastTimestamp_def timestampNumber_def rewardTx_def decimalNumber_def
      parseDigits_def)

lemma windowFeed_stake:
  "getStake windowFeed addrA = Inr (stakeOf
        [\<lparr>sr_amount = Some ''3000000000000000000'', sr_withdrawn = Some False\<rparr>,
         \<lparr>sr_amount = Some ''9000000000000000000'', sr_withdrawn = Some True\<rparr>])"
  by (simp add: windowFeed_def getStake_def)

theorem windowed_walk_stops_at_boundary_witness:
  "accounttx windowFeed addrA 2 pageLimit = Inr windowPage2
   \<and> lastTimestamp decimalNumber (orEmpty (p_body windowPage2)) = Some 6976000
   \<and> (6976000::rat) < of_int (exampleNow - sec30d)
   \<and> rewardsCall addrA 3
         \<notin> set (fst (rewardsAddress windowFeed decimalNumber exampleNow addrA))
   \<and> timestampNumber decimalNumber (rewardTx ''6976000'' addrA ''8000000000000000000'')
       = Some (Finite 6976000)
   \<and> ingestTx decimalNumber addrA exampleNow
        \<lparr>lastRewardAt = None, rewards7d = 0, rewards30d = 0\<rparr>
        (rewardTx ''6976000'' addrA ''8000000000000000000'')
       = \<lparr>lastRewardAt = None, rewards7d = 0, rewards30d = 0\<rparr>
   \<and> lastTimestamp decimalNumber (orEmpty (p_body windowPage1)) = Some 8272000
   \<and> of_int (exampleNow - sec30d) \<le> (8272000::rat)
   \<and> fst (rewardsAddress windowFeed decimalNumber exampleNow addrA)
       = [AccountCall addrA, StakeCall addrA, rewardsCall addrA 1, rewardsCall addrA 2]
   \<and> snd (rewardsAddress windowFeed decimalNumber exampleNow addrA)
       = Inr \<lparr>res_address = addrA, res_tfuelBalance = Some (Finite 5), res_stakedTheta = Some (Finite 3),
              res_rewards7d = Some (Finite 1), res_rewards30d = Some (Finite 7),
              res_lastRewardAt = Some 9913600\<rparr>"
proof -
  have old: "(6976000::rat) < of_int (exampleNow - sec30d)"
    by (simp add: exampleNow_def sec30d_def)
  have fresh: "of_int (exampleNow - sec30d) \<le> (8272000::rat)"
    by (simp add: exampleNow_def sec30d_def)
  have ts: "timestampNumber decimalNumber (rewardTx ''6976000'' addrA ''8000000000000000000'')
       = Some (Finite 6976000)"
    by (simp add: timestampNumber_def rewardTx_def decimalNumber_def parseDigits_def)
  note T = windowed_walk_stops_at_boundary [where p = 2 and up = windowFeed
      and address = addrA and txs = windowPage2 and toNumber = decimalNumber
      and t = 6976000 and nowSec = exampleNow
      and u = "rewardTx ''6976000'' addrA ''8000000000000000000''" and ts = 6976000
      and vars = "\<lparr>lastRewardAt = None, rewards7d = 0, rewards30d = 0\<rparr>"
      and acct = "accountOf ''5000000000000000000''"
      and stk = "stakeOf [\<lparr>sr_amount = Some ''3000000000000000000'', sr_withdrawn = Some False\<rparr>,
         \<lparr>sr_amount = Some ''9000000000000000000'', sr_withdrawn = Some True\<rparr>]"
      and pageA = windowPage1 and pageB = windowPage2 and tA = 8272000 and tB = 6976000]
  from T windowFeed_pages windowFeed_stake old fresh
  have calls: "fst (rewardsAddress windowFeed decimalNumber exampleNow addrA)
        = [AccountCall addrA, StakeCall addrA, rewardsCall addrA 1, rewardsCall addrA 2]"
    by blast
  from T windowFeed_pages(3,5) old
  have stop: "rewardsCall addrA 3
         \<notin> set (fst (rewardsAddress windowFeed decimalNumber exampleNow addrA))"
    by simp
  from T ts old
  have skip: "ingestTx decimalNumber addrA exampleNow
        \<lparr>lastRewardAt = None, rewards7d = 0, rewards30d = 0\<rparr>
        (rewardTx ''6976000'' addrA ''8000000000000000000'')
       = \<lparr>lastRewardAt = None, rewards7d = 0, rewards30d = 0\<rparr>"
    by simp
  from stop skip calls windowFeed_pages old fresh ts windowFeed_run show ?thesis
    by (intro conjI) simp_all
qed

lemma lastPageReported_total:
  "p_totalPageNumber res = Some totalPages \<Longrightarrow> page < totalPages \<Longrightarrow>
   p_currentPageNumber res = None \<or> p_currentPageNumber res = Some page \<Longrightarrow>
   \<not> lastPageReported res page"
  by (auto simp: lastPageReported_def)

lemma earnedAddress_goes_on:
  assumes "\<forall>q. 1 \<le> q \<and> q < earned_maxPages \<longrightarrow> \<not> earnedStops up toNumber address sinceSec q"
  shows "fst (earnedAddress up toNumber sinceSec address)
           = map (earnedCall address) [1..earned_maxPages]"
proof -
  from earnedAddress_calls [of up toNumber sinceSec address]
  obtain n where n: "1 \<le> n" "n \<le> earned_maxPages"
    "fst (earnedAddress up toNumber sinceSec address) = map (earnedCall address) [1..n]"
    "n < earned_maxPages \<longrightarrow> earnedStops up toNumber address sinceSec n"
    by blast
  with assms have "n = earned_maxPages" by force
  with n(3) show ?thesis by simp
qed

lemma rewardsAddress_goes_on:
  assumes ok: "getAccount up address = Inr acct" "getStake up address = Inr stk"
    and all: "\<forall>q. 1 \<le> q \<and> q < rewards_maxPages \<longrightarrow>
                rewardsContinues up toNumber address nowSec q"
  shows "fst (rewardsAddress up toNumber nowSec address)
           = AccountCall address # StakeCall address
               # map (rewardsCall address) [1..rewards_maxPages]"
proof -
  have m: "(2::int) \<le> rewards_maxPages" by (simp add: rewards_maxPages_def)
  with all have c1: "rewardsContinues up toNumber address nowSec 1" by simp
  then obtain page1 where p1: "accounttx up address 1 pageLimit = Inr page1"
    and fresh: "\<not> tooOld nowSec (lastTimestamp toNumber (orEmpty (p_body page1)))"
    by (auto simp: rewardsContinues_def split: sum.splits)
  then have txs: "getCoinbaseTxs up address pageLimit = Inr page1"
    by (simp add: getCoinbaseTxs_def)
  have w: "fst (rewardsWalk up toNumber address nowSec page1 [])
      = map (rewardsCall address) [2..rewards_maxPages]"
    unfolding rewardsWalk_def Let_def
    using rewardsLoop_goes_on [of 2 nowSec "lastTimestamp toNumber (orEmpty (p_body page1))"
        up toNumber address] fresh all m
    by simp
  have u: "[1..rewards_maxPages] = 1 # [2..rewards_maxPages]"
    using upto_Cons [of 1 rewards_maxPages] m by simp
  show ?thesis
    unfolding rewardsAddress_walked(1) [OF ok txs] w u by simp
qed

text \<open>
  Claim C3. The requests of the since-mode walk of an address are the pages 1 to some
  \<open>n \<le> 40\<close>, whatever the feed holds, and \<open>pagesFetched\<close> is that \<open>n\<close>; when no page
  before the 40th ends the walk (no failed request, no empty page, no record older than
  \<open>since\<close>, no last page reported), they are the pages 1 to 40. The requests of the
  windowed walk of an address are the account, the stake and the pages 1 to some
  \<open>n \<le> 25\<close>; when the account and the stake are there and no page before the 25th ends
  the walk, they are the pages 1 to 25. A page that reports a total above its own number,
  with no current page or its own, is not reported as the last.
\<close>

theorem walks_respect_maxPages:
  "(\<exists>n. 1 \<le> n \<and> n \<le> earned_maxPages
       \<and> fst (earnedAddress up toNumber sinceSec address) = map (earnedCall address) [1..n]
       \<and> int (length (fst (earnedAddress up toNumber sinceSec address))) \<le> earned_maxPages
       \<and> (\<forall>r. snd (earnedAddress up toNumber sinceSec address) = Inr r \<longrightarrow>
              er_pagesFetched r = n))
   \<and> ((\<forall>q. 1 \<le> q \<and> q < earned_maxPages \<longrightarrow> \<not> earnedStops up toNumber address sinceSec q) \<longrightarrow>
        fst (earnedAddress up toNumber sinceSec address)
          = map (earnedCall address) [1..earned_maxPages])
   \<and> (\<exists>n. 1 \<le> n \<and> n \<le> rewards_maxPages
         \<and> fst (rewardsAddress up toNumber nowSec address)
             = AccountCall address # StakeCall address # map (rewardsCall address) [1..n])
   \<and> (getAccount up address = Inr acct \<and> getStake up address = Inr stk
        \<and> (\<forall>q. 1 \<le> q \<and> q < rewards_maxPages \<longrightarrow>
               rewardsContinues up toNumber address nowSec q) \<longrightarrow>
        fst (rewardsAddress up toNumber nowSec address)
          = AccountCall address # StakeCall address
              # map (rewardsCall address) [1..rewards_maxPages])
   \<and> (p_totalPageNumber res = Some totalPages \<and> page < totalPages
        \<and> (p_currentPageNumber res = None \<or> p_currentPageNumber res = Some page) \<longrightarrow>
        \<not> lastPageReported res page)
   \<and> earned_maxPages = 40 \<and> rewards_maxPages = 25"
proof (intro conjI)
  from earnedAddress_calls [of up toNumber sinceSec address]
  obtain n where n: "1 \<le> n" "n \<le> earned_maxPages"
    "fst (earnedAddress up toNumber sinceSec address) = map (earnedCall address) [1..n]"
    "\<forall>r. snd (earnedAddress up toNumber sinceSec address) = Inr r \<longrightarrow> er_pagesFetched r = n"
    by blast
  then show "\<exists>n. 1 \<le> n \<and> n \<le> earned_maxPages
       \<and> fst (earnedAddress up toNumber sinceSec address) = map (earnedCall address) [1..n]
       \<and> int (length (fst (earnedAddress up toNumber sinceSec address))) \<le> earned_maxPages
       \<and> (\<forall>r. snd (earnedAddress up toNumber sinceSec address) = Inr r \<longrightarrow>
              er_pagesFetched r = n)"
    by (intro exI [of _ n]) simp
  show "(\<forall>q. 1 \<le> q \<and> q < earned_maxPages \<longrightarrow> \<not> earnedStops up toNumber address sinceSec q) \<longrightarrow>
        fst (earnedAddress up toNumber sinceSec address)
          = map (earnedCall address) [1..earned_maxPages]"
    using earnedAddress_goes_on by blast
  from rewardsAddress_calls [of up toNumber nowSec address]
  show "\<exists>n. 1 \<le> n \<and> n \<le> rewards_maxPages
         \<and> fst (rewardsAddress up toNumber nowSec address)
             = AccountCall address # StakeCall address # map (rewardsCall address) [1..n]"
    by blast
  show "getAccount up address = Inr acct \<and> getStake up address = Inr stk
        \<and> (\<forall>q. 1 \<le> q \<and> q < rewards_maxPages \<longrightarrow>
               rewardsContinues up toNumber address nowSec q) \<longrightarrow>
        fst (rewardsAddress up toNumber nowSec address)
          = AccountCall address # StakeCall address
              # map (rewardsCall address) [1..rewards_maxPages]"
    using rewardsAddress_goes_on by blast
  show "p_totalPageNumber res = Some totalPages \<and> page < totalPages
        \<and> (p_currentPageNumber res = None \<or> p_currentPageNumber res = Some page) \<longrightarrow>
        \<not> lastPageReported res page"
    using lastPageReported_total by blast
  show "earned_maxPages = 40" by (simp add: earned_maxPages_def)
  show "rewards_maxPages = 25" by (simp add: rewards_maxPages_def)
qed

lemma longFeed_page:
  "accounttx longFeed addrA q l
     = Inr (txPage [rewardTx ''9913600'' addrA ''1000000000000000000''] 100 q)"
  "getAccount longFeed addrA = Inr (accountOf ''5000000000000000000'')"
  "getStake longFeed addrA = Inr (stakeOf [])"
  by (simp_all add: longFeed_def getAccount_def getStake_def)

lemma longFeed_ts:
  "timestampNumber decimalNumber (rewardTx ''9913600'' addrA ''1000000000000000000'')
     = Some (Finite 9913600)"
  by (simp add: timestampNumber_def rewardTx_def decimalNumber_def parseDigits_def)

theorem walks_respect_maxPages_witness:
  "fst (earnedAddress longFeed decimalNumber 1000 addrA)
       = map (earnedCall addrA) [1..earned_maxPages]
   \<and> getAccount longFeed addrA = Inr (accountOf ''5000000000000000000'')
   \<and> getStake longFeed addrA = Inr (stakeOf [])
   \<and> fst (rewardsAddress longFeed decimalNumber exampleNow addrA)
       = AccountCall addrA # StakeCall addrA # map (rewardsCall addrA) [1..rewards_maxPages]
   \<and> p_totalPageNumber (txPage [] 100 7) = Some 100 \<and> (7::int) < 100
   \<and> p_currentPageNumber (txPage [] 100 7) = Some 7
   \<and> \<not> lastPageReported (txPage [] 100 7) 7"
proof -
  have e: "\<forall>q. 1 \<le> q \<and> q < earned_maxPages \<longrightarrow> \<not> earnedStops longFeed decimalNumber addrA 1000 q"
    by (simp add: earnedStops_def getCoinbasePage_def longFeed_page txPage_def orEmpty_def
        olderThan_def tsOf_def longFeed_ts lastPageReported_def earned_maxPages_def)
  have r: "\<forall>q. 1 \<le> q \<and> q < rewards_maxPages \<longrightarrow>
      rewardsContinues longFeed decimalNumber addrA exampleNow q"
    by (simp add: rewardsContinues_def longFeed_page txPage_def orEmpty_def lastTimestamp_def
        longFeed_ts lastPageReported_def rewards_maxPages_def tooOld_def oldestNeeded_def
        exampleNow_def sec30d_def)
  have p: "p_totalPageNumber (txPage [] 100 7) = Some 100"
    "p_currentPageNumber (txPage [] 100 7) = Some 7"
    by (simp_all add: txPage_def)
  note T = walks_respect_maxPages [where up = longFeed and toNumber = decimalNumber
      and sinceSec = 1000 and address = addrA and nowSec = exampleNow
      and acct = "accountOf ''5000000000000000000''" and stk = "stakeOf []"
      and res = "txPage [] 100 7" and totalPages = 100 and page = 7]
  from T e have c1: "fst (earnedAddress longFeed decimalNumber 1000 addrA)
       = map (earnedCall addrA) [1..earned_maxPages]"
    by blast
  from T r longFeed_page(2,3)
  have c2: "fst (rewardsAddress longFeed decimalNumber exampleNow addrA)
       = AccountCall addrA # StakeCall addrA # map (rewardsCall addrA) [1..rewards_maxPages]"
    by blast
  from T p have c3: "\<not> lastPageReported (txPage [] 100 7) 7"
    by simp
  from p c1 c2 c3 longFeed_page(2,3) show ?thesis
    by (intro conjI) simp_all
qed

lemma rewardsWalk_keeps_order:
  assumes "snd (rewardsWalk up toNumber address nowSec txs calls) = Inr vars'"
  shows "rewards7d vars' \<le> rewards30d vars'"
proof -
  define vars1 where "vars1 = ingest toNumber address nowSec
      \<lparr>lastRewardAt = None, rewards7d = 0, rewards30d = 0\<rparr> (p_body txs)"
  define seen where "seen = lastTimestamp toNumber (orEmpty (p_body txs))"
  have "snd (rewardsLoop up toNumber address nowSec 2 seen vars1 []) = Inr vars'"
    using assms rewardsWalk_calls [of up toNumber address nowSec txs calls]
    by (simp add: rewardsWalk_def vars1_def seen_def)
  with rewardsLoop_shape [of 2 up toNumber address nowSec seen vars1]
  obtain txs' where "vars' = foldl (ingestTx toNumber address nowSec) vars1 txs'"
    by blast
  moreover have "rewards7d vars1 \<le> rewards30d vars1 \<and> rewards7d vars1 \<noteq> NegInfinity"
    unfolding vars1_def by (rule ingest_keeps_order) simp_all
  ultimately show ?thesis by (simp add: foldl_ingestTx_keeps_order)
qed

lemma countedFrom_windows:
  "countedFrom toNumber address (of_int (nowSec - sec7d)) t \<noteq> 0 \<Longrightarrow>
   countedFrom toNumber address (of_int (nowSec - sec30d)) t
     = countedFrom toNumber address (of_int (nowSec - sec7d)) t"
  by (auto simp: countedFrom_def sec7d_def sec30d_def split: option.splits if_splits)

text \<open>
  Claim C4. From the accumulators at zero, after any list of records and after any list
  of pages, \<open>rewards7d\<close> is at most \<open>rewards30d\<close>; one record keeps that order, from
  any accumulators in that order whose \<open>rewards7d\<close> is not minus infinity (every finite
  value, and plus infinity after an amount that overflows); the accumulators at the end
  of a walk are in that order. A record that counts in the 7-day window counts for the
  same amount in the 30-day window. The order is that of the language, so neither sum
  is \<open>NaN\<close>.
\<close>

theorem rewards30d_at_least_rewards7d:
  "rewards7d (foldl (ingestTx toNumber address nowSec)
               \<lparr>lastRewardAt = None, rewards7d = 0, rewards30d = 0\<rparr> txs)
     \<le> rewards30d (foldl (ingestTx toNumber address nowSec)
               \<lparr>lastRewardAt = None, rewards7d = 0, rewards30d = 0\<rparr> txs)
   \<and> rewards7d (foldl (ingest toNumber address nowSec)
               \<lparr>lastRewardAt = None, rewards7d = 0, rewards30d = 0\<rparr> pages)
     \<le> rewards30d (foldl (ingest toNumber address nowSec)
               \<lparr>lastRewardAt = None, rewards7d = 0, rewards30d = 0\<rparr> pages)
   \<and> (rewards7d vars \<le> rewards30d vars \<and> rewards7d vars \<noteq> NegInfinity \<longrightarrow>
        rewards7d (ingestTx toNumber address nowSec vars t)
          \<le> rewards30d (ingestTx toNumber address nowSec vars t)
        \<and> rewards7d (ingestTx toNumber address nowSec vars t) \<noteq> NegInfinity)
   \<and> (snd (rewardsWalk up toNumber address nowSec txsA calls) = Inr vars' \<longrightarrow>
        rewards7d vars' \<le> rewards30d vars')
   \<and> (countedFrom toNumber address (of_int (nowSec - sec7d)) t \<noteq> 0 \<longrightarrow>
        countedFrom toNumber address (of_int (nowSec - sec30d)) t
          = countedFrom toNumber address (of_int (nowSec - sec7d)) t)"
  using foldl_ingestTx_keeps_order [of "\<lparr>lastRewardAt = None, rewards7d = 0, rewards30d = 0\<rparr>"
      toNumber address nowSec txs]
    foldl_ingest_keeps_order [of "\<lparr>lastRewardAt = None, rewards7d = 0, rewards30d = 0\<rparr>"
      toNumber address nowSec pages]
    ingestTx_keeps_order [of vars toNumber address nowSec t]
    rewardsWalk_keeps_order [of up toNumber address nowSec txsA calls vars']
    countedFrom_windows [of toNumber address nowSec t]
  by simp

lemma windowFeed_walk:
  "snd (rewardsWalk windowFeed decimalNumber addrA exampleNow windowPage1 [])
     = Inr \<lparr>lastRewardAt = Some 9913600, rewards7d = Finite 1, rewards30d = Finite 7\<rparr>"
  by code_simp

lemma windowFeed_step:
  "ingestTx decimalNumber addrA exampleNow \<lparr>lastRewardAt = None, rewards7d = 0, rewards30d = 0\<rparr>
     (rewardTx ''8272000'' addrA ''2000000000000000000'')
   = \<lparr>lastRewardAt = Some 8272000, rewards7d = 0, rewards30d = Finite 2\<rparr>"
  by code_simp

lemma windowFeed_counted:
  "countedFrom decimalNumber addrA (of_int (exampleNow - sec7d))
     (rewardTx ''9913600'' addrA ''1000000000000000000'') = Finite 1"
  by code_simp

theorem rewards30d_at_least_rewards7d_witness:
  "snd (rewardsWalk windowFeed decimalNumber addrA exampleNow windowPage1 [])
     = Inr \<lparr>lastRewardAt = Some 9913600, rewards7d = Finite 1, rewards30d = Finite 7\<rparr>
   \<and> rewards7d \<lparr>lastRewardAt = Some 9913600, rewards7d = Finite 1, rewards30d = Finite 7\<rparr>
       \<le> rewards30d \<lparr>lastRewardAt = Some 9913600, rewards7d = Finite 1, rewards30d = Finite 7\<rparr>
   \<and> rewards7d (ingestTx decimalNumber addrA exampleNow
         \<lparr>lastRewardAt = None, rewards7d = 0, rewards30d = 0\<rparr>
         (rewardTx ''8272000'' addrA ''2000000000000000000''))
       \<le> rewards30d (ingestTx decimalNumber addrA exampleNow
         \<lparr>lastRewardAt = None, rewards7d = 0, rewards30d = 0\<rparr>
         (rewardTx ''8272000'' addrA ''2000000000000000000''))
   \<and> countedFrom decimalNumber addrA (of_int (exampleNow - sec7d))
        (rewardTx ''9913600'' addrA ''1000000000000000000'') = Finite 1
   \<and> countedFrom decimalNumber addrA (of_int (exampleNow - sec30d))
        (rewardTx ''9913600'' addrA ''1000000000000000000'') = Finite 1"
proof -
  note T = rewards30d_at_least_rewards7d [where toNumber = decimalNumber and address = addrA
      and nowSec = exampleNow and up = windowFeed and txsA = windowPage1 and calls = "[]"
      and vars' = "\<lparr>lastRewardAt = Some 9913600, rewards7d = Finite 1, rewards30d = Finite 7\<rparr>"
      and vars = "\<lparr>lastRewardAt = None, rewards7d = 0, rewards30d = 0\<rparr>"
      and t = "rewardTx ''9913600'' addrA ''1000000000000000000''"]
  note U = rewards30d_at_least_rewards7d [where toNumber = decimalNumber and address = addrA
      and nowSec = exampleNow
      and vars = "\<lparr>lastRewardAt = None, rewards7d = 0, rewards30d = 0\<rparr>"
      and t = "rewardTx ''8272000'' addrA ''2000000000000000000''"]
  from T windowFeed_walk
  have a: "rewards7d \<lparr>lastRewardAt = Some 9913600, rewards7d = Finite 1, rewards30d = Finite 7\<rparr>
       \<le> rewards30d \<lparr>lastRewardAt = Some 9913600, rewards7d = Finite 1, rewards30d = Finite 7\<rparr>"
    by blast
  from U have b: "rewards7d (ingestTx decimalNumber addrA exampleNow
         \<lparr>lastRewardAt = None, rewards7d = 0, rewards30d = 0\<rparr>
         (rewardTx ''8272000'' addrA ''2000000000000000000''))
       \<le> rewards30d (ingestTx decimalNumber addrA exampleNow
         \<lparr>lastRewardAt = None, rewards7d = 0, rewards30d = 0\<rparr>
         (rewardTx ''8272000'' addrA ''2000000000000000000''))"
    by simp
  from T windowFeed_counted
  have c: "countedFrom decimalNumber addrA (of_int (exampleNow - sec30d))
        (rewardTx ''9913600'' addrA ''1000000000000000000'') = Finite 1"
    by (simp add: zero_number_def)
  from a b c windowFeed_walk windowFeed_counted show ?thesis
    by (intro conjI)
qed

lemma number_le_not_NaN: "(a::number) \<le> b \<Longrightarrow> a \<noteq> NaN \<and> b \<noteq> NaN"
  by (cases a; cases b) simp_all

lemma number_less_imp_le: "(a::number) < b \<Longrightarrow> a \<le> b"
  by (cases a; cases b) simp_all

lemma number_nonneg_add: "(0::number) \<le> a \<Longrightarrow> 0 \<le> b \<Longrightarrow> 0 \<le> a + b"
  by (cases a; cases b) (simp_all add: zero_number_def)

lemma sum_list_number_nonneg:
  "(\<And>x. x \<in> set xs \<Longrightarrow> (0::number) \<le> x) \<Longrightarrow> 0 \<le> sum_list xs"
  by (induction xs) (simp_all add: number_nonneg_add)

lemma countedFrom_nonneg: "0 \<le> countedFrom toNumber address bound t"
  by (auto simp: countedFrom_def number_less_imp_le [OF rewardAmount_pos]
      split: option.splits)

lemma earned_total_nonneg:
  assumes "snd (earnedLoop up toNumber address sinceSec 1
             \<lparr>lastRewardAt = None, total = 0, pagesFetched = 0\<rparr> []) = Inr vars"
  shows "0 \<le> total vars"
proof -
  from earnedLoop_shape [of 1 up toNumber address sinceSec
      "\<lparr>lastRewardAt = None, total = 0, pagesFetched = 0\<rparr>"] assms
  obtain n where "total vars
      = 0 + (\<Sum>q\<leftarrow>[1..n]. \<Sum>t\<leftarrow>pageTxs up address q earned_limit.
                countedFrom toNumber address sinceSec t)"
    by auto
  moreover have "0 \<le> (\<Sum>q\<leftarrow>[1..n]. \<Sum>t\<leftarrow>pageTxs up address q earned_limit.
                countedFrom toNumber address sinceSec t)"
    by (intro sum_list_number_nonneg) (auto intro!: sum_list_number_nonneg countedFrom_nonneg)
  ultimately show ?thesis by simp
qed

text \<open>
  Claim C7. Every result of the rewards route for an address comes from a stake
  response and the accumulators at the end of the walk, and its \<open>rewards7d\<close> and
  \<open>rewards30d\<close> are \<open>null\<close> when the sum is zero and the sum otherwise. Its
  \<open>stakedTheta\<close> is \<open>null\<close> when the sum is zero, and also when the sum is \<open>NaN\<close>, which
  is falsy too (the sum of records with an amount of plus and of minus infinity); it is
  the sum otherwise. Every result of the earned route for an address comes from the
  variables at the end of its walk, and its \<open>earned\<close> is \<open>null\<close> when the total is zero
  and the total otherwise. The accumulators and the total are never \<open>NaN\<close>.
\<close>

theorem zero_sums_are_returned_as_null:
  "(snd (rewardsAddress up toNumber nowSec address) = Inr r \<longrightarrow>
      (\<exists>stk txs vars.
          getStake up address = Inr stk
          \<and> getCoinbaseTxs up address pageLimit = Inr txs
          \<and> snd (rewardsWalk up toNumber address nowSec txs []) = Inr vars
          \<and> res_stakedTheta r
              = (if stakedThetaSum stk = 0 \<or> stakedThetaSum stk = NaN then None
                 else Some (stakedThetaSum stk))
          \<and> res_rewards7d r = (if rewards7d vars = 0 then None else Some (rewards7d vars))
          \<and> res_rewards30d r = (if rewards30d vars = 0 then None else Some (rewards30d vars))))
   \<and> (snd (earnedAddress up toNumber sinceSec address) = Inr er \<longrightarrow>
        (\<exists>vars.
            snd (earnedLoop up toNumber address sinceSec 1
                   \<lparr>lastRewardAt = None, total = 0, pagesFetched = 0\<rparr> []) = Inr vars
            \<and> er_earned er = (if total vars = 0 then None else Some (total vars))))"
proof (intro conjI impI)
  assume r: "snd (rewardsAddress up toNumber nowSec address) = Inr r"
  show "\<exists>stk txs vars.
          getStake up address = Inr stk
          \<and> getCoinbaseTxs up address pageLimit = Inr txs
          \<and> snd (rewardsWalk up toNumber address nowSec txs []) = Inr vars
          \<and> res_stakedTheta r
              = (if stakedThetaSum stk = 0 \<or> stakedThetaSum stk = NaN then None
                 else Some (stakedThetaSum stk))
          \<and> res_rewards7d r = (if rewards7d vars = 0 then None else Some (rewards7d vars))
          \<and> res_rewards30d r = (if rewards30d vars = 0 then None else Some (rewards30d vars))"
  proof (cases rule: rewardsAddress_cases [of up address])
    case (failed e)
    from rewardsAddress_failed [OF this, of toNumber nowSec] r show ?thesis by auto
  next
    case (walked acct stk txs)
    have n: "rewards7d vars \<noteq> NaN \<and> rewards30d vars \<noteq> NaN"
      if "snd (rewardsWalk up toNumber address nowSec txs []) = Inr vars" for vars
      using rewardsWalk_keeps_order [OF that] by (rule number_le_not_NaN)
    from rewardsAddress_walked(2) [OF walked, of toNumber nowSec] r walked(2,3) n
    show ?thesis
      by (cases "snd (rewardsWalk up toNumber address nowSec txs [])")
        (auto simp: orNull_def)
  qed
next
  assume e: "snd (earnedAddress up toNumber sinceSec address) = Inr er"
  have "total vars \<noteq> NaN"
    if "snd (earnedLoop up toNumber address sinceSec 1
              \<lparr>lastRewardAt = None, total = 0, pagesFetched = 0\<rparr> []) = Inr vars" for vars
    using number_le_not_NaN [OF earned_total_nonneg [OF that]] by simp
  with e show "\<exists>vars.
            snd (earnedLoop up toNumber address sinceSec 1
                   \<lparr>lastRewardAt = None, total = 0, pagesFetched = 0\<rparr> []) = Inr vars
            \<and> er_earned er = (if total vars = 0 then None else Some (total vars))"
    by (auto simp: earnedAddress_walk(2) orNull_def)
qed

lemma sinceFeed_rewards_run:
  "snd (rewardsAddress sinceFeed decimalNumber 2595000 addrA)
     = Inr \<lparr>res_address = addrA, res_tfuelBalance = Some (Finite 5), res_stakedTheta = None,
            res_rewards7d = None, res_rewards30d = Some (Finite 7), res_lastRewardAt = Some 5000\<rparr>"
  by code_simp

lemma sinceFeed_earned_run:
  "snd (earnedAddress sinceFeed decimalNumber 6000 addrA)
     = Inr \<lparr>er_address = addrA, er_earned = None, er_lastRewardAt = None,
            er_pagesFetched = 1\<rparr>"
  by code_simp

theorem zero_sums_are_returned_as_null_witness:
  "snd (rewardsAddress sinceFeed decimalNumber 2595000 addrA)
     = Inr \<lparr>res_address = addrA, res_tfuelBalance = Some (Finite 5), res_stakedTheta = None,
            res_rewards7d = None, res_rewards30d = Some (Finite 7), res_lastRewardAt = Some 5000\<rparr>
   \<and> snd (earnedAddress sinceFeed decimalNumber 6000 addrA)
     = Inr \<lparr>er_address = addrA, er_earned = None, er_lastRewardAt = None,
            er_pagesFetched = 1\<rparr>
   \<and> (\<exists>stk txs vars.
          getStake sinceFeed addrA = Inr stk
          \<and> getCoinbaseTxs sinceFeed addrA pageLimit = Inr txs
          \<and> snd (rewardsWalk sinceFeed decimalNumber addrA 2595000 txs []) = Inr vars
          \<and> stakedThetaSum stk = 0 \<and> rewards7d vars = 0 \<and> rewards30d vars = Finite 7)
   \<and> (\<exists>vars. snd (earnedLoop sinceFeed decimalNumber addrA 6000 1
                  \<lparr>lastRewardAt = None, total = 0, pagesFetched = 0\<rparr> []) = Inr vars
         \<and> total vars = 0)"
proof -
  note T = zero_sums_are_returned_as_null [where up = sinceFeed and toNumber = decimalNumber
      and nowSec = 2595000 and address = addrA and sinceSec = 6000
      and r = "\<lparr>res_address = addrA, res_tfuelBalance = Some (Finite 5), res_stakedTheta = None,
            res_rewards7d = None, res_rewards30d = Some (Finite 7), res_lastRewardAt = Some 5000\<rparr>"
      and er = "\<lparr>er_address = addrA, er_earned = None, er_lastRewardAt = None,
            er_pagesFetched = 1\<rparr>"]
  from T sinceFeed_rewards_run
  obtain stk txs vars where "getStake sinceFeed addrA = Inr stk"
    "getCoinbaseTxs sinceFeed addrA pageLimit = Inr txs"
    "snd (rewardsWalk sinceFeed decimalNumber addrA 2595000 txs []) = Inr vars"
    "None = (if rewards7d vars = 0 then None else Some (rewards7d vars))"
    "Some (Finite 7) = (if rewards30d vars = 0 then None else Some (rewards30d vars))"
    by auto
  moreover from this(1) have "stakedThetaSum stk = 0"
    by (auto simp: getStake_def sinceFeed_def stakedThetaSum_def stakeOf_def orEmpty_def
        List.map_filter_simps)
  ultimately have a: "\<exists>stk txs vars.
          getStake sinceFeed addrA = Inr stk
          \<and> getCoinbaseTxs sinceFeed addrA pageLimit = Inr txs
          \<and> snd (rewardsWalk sinceFeed decimalNumber addrA 2595000 txs []) = Inr vars
          \<and> stakedThetaSum stk = 0 \<and> rewards7d vars = 0 \<and> rewards30d vars = Finite 7"
    by (intro exI [of _ stk] exI [of _ txs] exI [of _ vars]) (auto split: if_splits)
  from T sinceFeed_earned_run
  obtain evars where "snd (earnedLoop sinceFeed decimalNumber addrA 6000 1
                  \<lparr>lastRewardAt = None, total = 0, pagesFetched = 0\<rparr> []) = Inr evars"
    "None = (if total evars = 0 then None else Some (total evars))"
    by auto
  then have b: "\<exists>vars. snd (earnedLoop sinceFeed decimalNumber addrA 6000 1
                  \<lparr>lastRewardAt = None, total = 0, pagesFetched = 0\<rparr> []) = Inr vars
         \<and> total vars = 0"
    by (intro exI [of _ evars]) (auto split: if_splits)
  from a b sinceFeed_rewards_run sinceFeed_earned_run show ?thesis
    by (intro conjI)
qed

section \<open>The tracker's refresh\<close>

lemma trackResult_other:
  "res_address r \<noteq> a \<Longrightarrow> trackResult prev k s r a = s a"
  by (simp add: trackResult_def Let_def split: option.splits)

lemma trackResult_no_balance:
  "res_tfuelBalance r = None \<Longrightarrow> trackResult prev k s r = s"
  by (simp add: trackResult_def split: option.splits)

lemma trackResult_no_baseline:
  "baselines prev (res_address r) = None \<or> baselines prev (res_address r) = Some None \<Longrightarrow>
   trackResult prev k s r = s"
  by (auto simp: trackResult_def split: option.splits)

lemma trackResult_write:
  "baselines prev (res_address r) = Some (Some base) \<Longrightarrow> res_tfuelBalance r = Some bal \<Longrightarrow>
   trackResult prev k s r
     = s(res_address r \<mapsto>
          (case s (res_address r) of None \<Rightarrow> Map.empty | Some w \<Rightarrow> w)(k \<mapsto> max 0 (bal - base)))"
  by (simp add: trackResult_def Let_def)

lemma refresh_unchanged:
  assumes "baselines prev a = None \<or> baselines prev a = Some None
      \<or> (\<forall>r\<in>set results. res_address r = a \<longrightarrow> res_tfuelBalance r = None)"
  shows "foldl (trackResult prev k) s results a = s a"
  using assms
proof (induction results arbitrary: s)
  case Nil
  then show ?case by simp
next
  case (Cons r rs)
  have "trackResult prev k s r a = s a"
  proof (cases "res_address r = a")
    case True
    with Cons.prems have "baselines prev (res_address r) = None
        \<or> baselines prev (res_address r) = Some None \<or> res_tfuelBalance r = None"
      by auto
    then show ?thesis
      using trackResult_no_baseline [of prev r k s] trackResult_no_balance [of r prev k s]
      by auto
  next
    case False
    then show ?thesis by (rule trackResult_other)
  qed
  moreover from Cons.prems have "baselines prev a = None \<or> baselines prev a = Some None
      \<or> (\<forall>r\<in>set rs. res_address r = a \<longrightarrow> res_tfuelBalance r = None)"
    by auto
  ultimately show ?case
    using Cons.IH [of "trackResult prev k s r"] by simp
qed

lemma refresh_written:
  assumes "baselines prev a = Some (Some base)"
    and "\<exists>r\<in>set results. res_address r = a \<and> res_tfuelBalance r = Some bal"
    and "\<forall>r\<in>set results. res_address r = a \<longrightarrow>
           res_tfuelBalance r = None \<or> res_tfuelBalance r = Some bal"
  shows "foldl (trackResult prev k) s results a
           = Some ((case s a of None \<Rightarrow> Map.empty | Some w \<Rightarrow> w)(k \<mapsto> max 0 (bal - base)))"
  using assms(2,3)
proof (induction results arbitrary: s)
  case Nil
  then show ?case by simp
next
  case (Cons r rs)
  let ?s1 = "trackResult prev k s r"
  let ?w = "(case s a of None \<Rightarrow> Map.empty | Some w \<Rightarrow> w)(k \<mapsto> max 0 (bal - base))"
  show ?case
  proof (cases "res_address r = a \<and> res_tfuelBalance r = Some bal")
    case True
    then have s1: "?s1 a = Some ?w"
      using trackResult_write [of prev r base bal k s] assms(1) by simp
    show ?thesis
    proof (cases "\<exists>r\<in>set rs. res_address r = a \<and> res_tfuelBalance r = Some bal")
      case True
      with Cons.prems(2) have "foldl (trackResult prev k) ?s1 rs a
          = Some ((case ?s1 a of None \<Rightarrow> Map.empty | Some w \<Rightarrow> w)(k \<mapsto> max 0 (bal - base)))"
        by (intro Cons.IH) auto
      also have "(case ?s1 a of None \<Rightarrow> Map.empty | Some w \<Rightarrow> w)(k \<mapsto> max 0 (bal - base)) = ?w"
        by (simp only: s1 option.case fun_upd_upd)
      finally show ?thesis by (simp only: foldl_Cons)
    next
      case False
      with Cons.prems(2)
      have "\<forall>r\<in>set rs. res_address r = a \<longrightarrow> res_tfuelBalance r = None" by auto
      then have "foldl (trackResult prev k) ?s1 rs a = ?s1 a"
        by (intro refresh_unchanged) simp
      with s1 show ?thesis by (simp only: foldl_Cons)
    qed
  next
    case False
    with Cons.prems(2) have "res_address r \<noteq> a \<or> res_tfuelBalance r = None" by auto
    then have s1: "?s1 a = s a"
      using trackResult_other [of r a prev k s] trackResult_no_balance [of r prev k s] by auto
    from False Cons.prems(1)
    have "\<exists>r\<in>set rs. res_address r = a \<and> res_tfuelBalance r = Some bal" by auto
    with Cons.prems(2) have "foldl (trackResult prev k) ?s1 rs a
          = Some ((case ?s1 a of None \<Rightarrow> Map.empty | Some w \<Rightarrow> w)(k \<mapsto> max 0 (bal - base)))"
      by (intro Cons.IH) auto
    with s1 show ?thesis by (simp only: foldl_Cons)
  qed
qed

text \<open>
  Claim C9. With tracking off a refresh changes nothing. With tracking on, a refresh
  keeps \<open>startedAt\<close> and the baselines. For an address with a baseline that is a number
  and for which the results report the balance \<open>bal\<close>, the series of the address holds
  \<open>max(0, bal - baseline)\<close> at today's key, a value that is never negative, and keeps
  its values at all other keys. For an address whose baseline is missing or \<open>null\<close>, or
  for which no result reports a balance, the series stays as it was.
\<close>

theorem refresh_writes_floored_earned:
  "refreshTracking k results None = None
   \<and> (\<exists>after. refreshTracking k results (Some prev) = Some after
         \<and> startedAt after = startedAt prev \<and> baselines after = baselines prev
         \<and> (baselines prev a = Some (Some base)
              \<and> (\<exists>r\<in>set results. res_address r = a \<and> res_tfuelBalance r = Some bal)
              \<and> (\<forall>r\<in>set results. res_address r = a \<longrightarrow>
                     res_tfuelBalance r = None \<or> res_tfuelBalance r = Some bal) \<longrightarrow>
              (\<exists>w. series after a = Some w
                   \<and> w k = Some (max 0 (bal - base)) \<and> 0 \<le> max 0 (bal - base)
                   \<and> (\<forall>d. d \<noteq> k \<longrightarrow>
                          w d = (case series prev a of None \<Rightarrow> None | Some v \<Rightarrow> v d))))
         \<and> (baselines prev a = None \<or> baselines prev a = Some None
              \<or> (\<forall>r\<in>set results. res_address r = a \<longrightarrow> res_tfuelBalance r = None) \<longrightarrow>
              series after a = series prev a))"
proof -
  define after where "after = prev\<lparr>series := foldl (trackResult prev k) (series prev) results\<rparr>"
  have r: "refreshTracking k results (Some prev) = Some after"
    by (simp add: refreshTracking_def after_def)
  have w: "\<exists>w. series after a = Some w
                   \<and> w k = Some (max 0 (bal - base)) \<and> 0 \<le> max 0 (bal - base)
                   \<and> (\<forall>d. d \<noteq> k \<longrightarrow>
                          w d = (case series prev a of None \<Rightarrow> None | Some v \<Rightarrow> v d))"
    if "baselines prev a = Some (Some base)"
      "\<exists>r\<in>set results. res_address r = a \<and> res_tfuelBalance r = Some bal"
      "\<forall>r\<in>set results. res_address r = a \<longrightarrow>
                     res_tfuelBalance r = None \<or> res_tfuelBalance r = Some bal"
    using refresh_written [OF that, of k "series prev"]
    by (auto simp: after_def split: option.splits)
  have u: "series after a = series prev a"
    if "baselines prev a = None \<or> baselines prev a = Some None
              \<or> (\<forall>r\<in>set results. res_address r = a \<longrightarrow> res_tfuelBalance r = None)"
    using refresh_unchanged [OF that, of k "series prev"] by (simp add: after_def)
  have "startedAt after = startedAt prev" "baselines after = baselines prev"
    by (simp_all add: after_def)
  with r w u show ?thesis
    by (simp add: refreshTracking_def)
qed

lemma tracker_example:
  "baselines (startTracking 0 ''2026-11-03'' [balanceResult addrA (Some 100)]) addrA
     = Some (Some 100)"
  "baselines (startTracking 0 ''2026-11-03'' [balanceResult addrA (Some 100)]) ''0xb'' = None"
  "series (startTracking 0 ''2026-11-03'' [balanceResult addrA (Some 100)]) addrA
     = Some [''2026-11-03'' \<mapsto> 0]"
  by (simp_all add: startTracking_def balanceResult_def addrA_def)

theorem refresh_writes_floored_earned_witness:
  "baselines (startTracking 0 ''2026-11-03'' [balanceResult addrA (Some 100)]) addrA
     = Some (Some 100)
   \<and> res_address (balanceResult addrA (Some 97)) = addrA
   \<and> res_tfuelBalance (balanceResult addrA (Some 97)) = Some 97
   \<and> baselines (startTracking 0 ''2026-11-03'' [balanceResult addrA (Some 100)]) ''0xb'' = None
   \<and> (\<exists>after w.
         refreshTracking ''2026-11-03'' [balanceResult addrA (Some 97)]
           (Some (startTracking 0 ''2026-11-03'' [balanceResult addrA (Some 100)])) = Some after
         \<and> series after addrA = Some w \<and> w ''2026-11-03'' = Some 0
         \<and> series after ''0xb''
             = series (startTracking 0 ''2026-11-03'' [balanceResult addrA (Some 100)]) ''0xb'')"
proof -
  let ?prev = "startTracking 0 ''2026-11-03'' [balanceResult addrA (Some 100)]"
  let ?results = "[balanceResult addrA (Some 97)]"
  have r: "res_address (balanceResult addrA (Some 97)) = addrA"
    "res_tfuelBalance (balanceResult addrA (Some 97)) = Some 97"
    by (simp_all add: balanceResult_def)
  note T = refresh_writes_floored_earned [where k = "''2026-11-03''" and results = ?results
      and prev = ?prev and a = addrA and base = 100 and bal = 97]
  note U = refresh_writes_floored_earned [where k = "''2026-11-03''" and results = ?results
      and prev = ?prev and a = "''0xb''"]
  from T obtain after where a: "refreshTracking ''2026-11-03'' ?results (Some ?prev) = Some after"
    and b: "baselines ?prev addrA = Some (Some 100)
              \<and> (\<exists>r\<in>set ?results. res_address r = addrA \<and> res_tfuelBalance r = Some 97)
              \<and> (\<forall>r\<in>set ?results. res_address r = addrA \<longrightarrow>
                     res_tfuelBalance r = None \<or> res_tfuelBalance r = Some 97) \<longrightarrow>
              (\<exists>w. series after addrA = Some w
                   \<and> w ''2026-11-03'' = Some (max 0 (97 - 100)))"
    by blast
  from b tracker_example(1) r obtain w where w: "series after addrA = Some w"
    "w ''2026-11-03'' = Some (max 0 (97 - 100))"
    by auto
  from U a tracker_example(2) have u: "series after ''0xb'' = series ?prev ''0xb''"
    by auto
  from a w u have "\<exists>after w.
         refreshTracking ''2026-11-03'' ?results (Some ?prev) = Some after
         \<and> series after addrA = Some w \<and> w ''2026-11-03'' = Some 0
         \<and> series after ''0xb'' = series ?prev ''0xb''"
    by (intro exI [of _ after] exI [of _ w]) simp
  with tracker_example(1,2) r show ?thesis by (intro conjI)
qed

section \<open>Lower case, trimming and splitting\<close>

lemma of_char_lowerChar:
  "of_char (lowerChar c)
     = (if (65 \<le> (of_char c :: nat) \<and> (of_char c :: nat) \<le> 90)
           \<or> (192 \<le> (of_char c :: nat) \<and> (of_char c :: nat) \<le> 222 \<and> (of_char c :: nat) \<noteq> 215)
        then of_char c + 32 else (of_char c :: nat))"
  by (auto simp: lowerChar_def Let_def)

lemma char_eq_code: "c = d \<longleftrightarrow> (of_char c :: nat) = of_char d"
  by simp

lemma lowerChar_comma [simp]: "lowerChar c = CHR '','' \<longleftrightarrow> c = CHR '',''"
  by (auto simp: char_eq_code of_char_lowerChar split: if_splits)

lemma lowerChar_bar [simp]: "lowerChar c = CHR ''|'' \<longleftrightarrow> c = CHR ''|''"
  by (auto simp: char_eq_code of_char_lowerChar split: if_splits)

lemma isWhiteSpace_lowerChar [simp]: "isWhiteSpace (lowerChar c) = isWhiteSpace c"
  by (auto simp: isWhiteSpace_def of_char_lowerChar)

lemma lowerChar_idem [simp]: "lowerChar (lowerChar c) = lowerChar c"
  by (auto simp: char_eq_code of_char_lowerChar)

lemma toLowerCase_idem [simp]: "toLowerCase (toLowerCase s) = toLowerCase s"
  by (simp add: toLowerCase_def)

lemma split_comma_nonempty [simp]: "split_comma s \<noteq> []"
  by (induction s) (auto split: list.splits)

lemma split_comma_lower:
  "split_comma (toLowerCase s) = map toLowerCase (split_comma s)"
proof (induction s)
  case Nil
  then show ?case by (simp add: toLowerCase_def)
next
  case (Cons c cs)
  obtain p ps where "split_comma cs = p # ps"
    by (cases "split_comma cs") simp_all
  with Cons show ?case by (simp add: toLowerCase_def)
qed

lemma trim_lower: "trim (toLowerCase s) = toLowerCase (trim s)"
proof -
  have "dropWhile isWhiteSpace (map lowerChar xs) = map lowerChar (dropWhile isWhiteSpace xs)" for xs
    by (simp add: dropWhile_map comp_def)
  then show ?thesis by (simp add: trim_def toLowerCase_def rev_map)
qed

lemma toAddressList_lower: "toAddressList (toLowerCase raw) = toAddressList raw"
proof -
  have "filter (\<lambda>s. s \<noteq> []) (map (\<lambda>p. toLowerCase (trim p)) ps)
      = map toLowerCase (filter (\<lambda>s. s \<noteq> []) (map trim ps))" for ps
    by (induction ps) (simp_all add: toLowerCase_def)
  then show ?thesis
    by (simp add: toAddressList_def split_comma_lower trim_lower comp_def)
qed

lemma in_split_comma:
  "c \<in> set s \<Longrightarrow> c = CHR '','' \<or> (\<exists>p\<in>set (split_comma s). c \<in> set p)"
proof (induction s)
  case Nil
  then show ?case by simp
next
  case (Cons d ds)
  obtain p ps where sp: "split_comma ds = p # ps"
    by (cases "split_comma ds") simp_all
  show ?case
  proof (cases "c = d")
    case True
    with sp show ?thesis by auto
  next
    case False
    with Cons.prems have "c \<in> set ds" by simp
    from Cons.IH [OF this] sp show ?thesis by auto
  qed
qed

lemma in_dropWhile: "c \<in> set s \<Longrightarrow> P c \<or> c \<in> set (dropWhile P s)"
  by (induction s) auto

lemma in_trim: "c \<in> set s \<Longrightarrow> isWhiteSpace c \<or> c \<in> set (trim s)"
proof -
  assume "c \<in> set s"
  then have "isWhiteSpace c \<or> c \<in> set (rev (dropWhile isWhiteSpace s))"
    using in_dropWhile [of c s isWhiteSpace] by simp
  then show ?thesis
    using in_dropWhile [of c "rev (dropWhile isWhiteSpace s)" isWhiteSpace]
    by (auto simp: trim_def)
qed

lemma isHexAddress_chars:
  "isHexAddress s \<Longrightarrow> d \<in> set s \<Longrightarrow> d = CHR ''0'' \<or> d = CHR ''x'' \<or> isLowerHex d"
  by (auto simp: isHexAddress_def list_all_iff split: list.splits)

lemma isLowerHex_not_bar: "isLowerHex d \<Longrightarrow> d \<noteq> CHR ''|''"
  by (auto simp: isLowerHex_def)

lemma isWhiteSpace_not_bar: "isWhiteSpace d \<Longrightarrow> d \<noteq> CHR ''|''"
  by (auto simp: isWhiteSpace_def)

lemma accepted_no_bar:
  assumes "addressesAccepted raw"
  shows "CHR ''|'' \<notin> set (toLowerCase raw)"
proof
  assume "CHR ''|'' \<in> set (toLowerCase raw)"
  then have "CHR ''|'' \<in> lowerChar ` set raw"
    by (simp only: toLowerCase_def set_map)
  then obtain x where x: "x \<in> set raw" "CHR ''|'' = lowerChar x"
    by (rule imageE)
  from x(2) have "lowerChar x = CHR ''|''" by (rule sym)
  then have "x = CHR ''|''" by (simp only: lowerChar_bar)
  with x(1) have bar: "CHR ''|'' \<in> set raw" by simp
  from in_split_comma [OF this] obtain p where p: "p \<in> set (split_comma raw)"
    "CHR ''|'' \<in> set p"
    by auto
  from in_trim [OF p(2)] have t: "CHR ''|'' \<in> set (trim p)"
    using isWhiteSpace_not_bar by auto
  then have "trim p \<noteq> []" by auto
  with p(1) have "toLowerCase (trim p) \<in> set (toAddressList raw)"
    by (auto simp: toAddressList_def)
  with assms have "isHexAddress (toLowerCase (trim p))"
    by (simp add: addressesAccepted_def list_all_iff)
  moreover have "lowerChar CHR ''|'' = CHR ''|''" by (simp only: lowerChar_bar)
  with t have "CHR ''|'' \<in> set (toLowerCase (trim p))"
    unfolding toLowerCase_def set_map by (metis imageI)
  ultimately show False
    using isHexAddress_chars isLowerHex_not_bar by fastforce
qed

lemma unique_separator:
  "c \<notin> set xs0 \<Longrightarrow> c \<notin> set r0 \<Longrightarrow> xs @ c # r = xs0 @ c # r0 \<Longrightarrow> xs = xs0 \<and> r = r0"
proof (induction xs0 arbitrary: xs)
  case Nil
  then show ?case by (cases xs) auto
next
  case (Cons y ys)
  then show ?case by (cases xs) auto
qed

lemma rewards_key_addresses:
  "rewards_cacheKey raw = rewards_cacheKey raw0 \<Longrightarrow> toAddressList raw = toAddressList raw0"
proof -
  assume "rewards_cacheKey raw = rewards_cacheKey raw0"
  then have "toLowerCase raw = toLowerCase raw0"
    unfolding rewards_cacheKey_def by (simp only: same_append_eq)
  then have "toAddressList (toLowerCase raw) = toAddressList (toLowerCase raw0)"
    by (simp only:)
  then show ?thesis by (simp only: toAddressList_lower)
qed

lemma earned_key_split:
  "earned_cacheKey raw sinceRaw
     = ''addresses:'' @ (toLowerCase raw @ CHR ''|'' # (''since:'' @ sinceRaw))"
  unfolding earned_cacheKey_def by (simp only: append.simps append_assoc)

lemma earned_key_addresses:
  assumes key: "earned_cacheKey raw sinceRaw = earned_cacheKey raw0 sinceRaw0"
    and ok: "addressesAccepted raw0" "CHR ''|'' \<notin> set sinceRaw0"
  shows "toAddressList raw = toAddressList raw0"
proof -
  from key have e: "toLowerCase raw @ CHR ''|'' # (''since:'' @ sinceRaw)
      = toLowerCase raw0 @ CHR ''|'' # (''since:'' @ sinceRaw0)"
    unfolding earned_key_split by (simp only: same_append_eq)
  have a: "CHR ''|'' \<notin> set (toLowerCase raw0)"
    using ok(1) by (rule accepted_no_bar)
  have b: "CHR ''|'' \<notin> set (''since:'' @ sinceRaw0)"
    using ok(2) by simp
  from unique_separator [OF a b e] have "toLowerCase raw = toLowerCase raw0" ..
  then have "toAddressList (toLowerCase raw) = toAddressList (toLowerCase raw0)"
    by (simp only:)
  then show ?thesis by (simp only: toAddressList_lower)
qed

section \<open>What the handlers do to the cache\<close>

lemma cacheRead_Some:
  "cacheRead ttl now c key = Some payload \<longleftrightarrow>
     (\<exists>e. c key = Some e \<and> now - ce_ts e < ttl \<and> payload = ce_payload e)"
  by (auto simp: cacheRead_def split: option.splits)

lemma cacheRead_None:
  "cacheRead ttl now c key = None \<longleftrightarrow>
     (case c key of None \<Rightarrow> True | Some e \<Rightarrow> \<not> now - ce_ts e < ttl)"
  by (auto simp: cacheRead_def split: option.splits)

lemma rewardsGET_hit:
  "cacheRead rewards_CACHE_TTL_MS (tCheck clk) c (rewards_cacheKey (queryParam param)) = Some payload \<Longrightarrow>
   rewardsGET toNumber up clk c param = (Inr (Response 200 [] payload), c, [])"
  by (simp add: rewardsGET_def Let_def)

lemma rewardsGET_missing:
  "cacheRead rewards_CACHE_TTL_MS (tCheck clk) c (rewards_cacheKey (queryParam param)) = None \<Longrightarrow>
   toAddressList (queryParam param) = [] \<Longrightarrow>
   rewardsGET toNumber up clk c param = (Inr (badRequest ''Missing addresses''), c, [])"
  by (simp add: rewardsGET_def Let_def)

lemma rewardsGET_invalid:
  "cacheRead rewards_CACHE_TTL_MS (tCheck clk) c (rewards_cacheKey (queryParam param)) = None \<Longrightarrow>
   toAddressList (queryParam param) \<noteq> [] \<Longrightarrow>
   \<not> list_all isHexAddress (toAddressList (queryParam param)) \<Longrightarrow>
   rewardsGET toNumber up clk c param = (Inr (badRequest ''Invalid address''), c, [])"
  by (simp add: rewardsGET_def Let_def)

lemma rewardsGET_rejected:
  "cacheRead rewards_CACHE_TTL_MS (tCheck clk) c (rewards_cacheKey (queryParam param)) = None \<Longrightarrow>
   addressesAccepted (queryParam param) \<Longrightarrow>
   promiseAll (map (\<lambda>a. snd (rewardsAddress up toNumber (tNow clk div 1000) a))
     (toAddressList (queryParam param))) = Inl e \<Longrightarrow>
   rewardsGET toNumber up clk c param
     = (Inl e, c,
        concat (map (\<lambda>a. fst (rewardsAddress up toNumber (tNow clk div 1000) a))
          (toAddressList (queryParam param))))"
  by (simp add: rewardsGET_def Let_def addressesAccepted_def comp_def)

lemma rewardsGET_computed:
  "cacheRead rewards_CACHE_TTL_MS (tCheck clk) c (rewards_cacheKey (queryParam param)) = None \<Longrightarrow>
   addressesAccepted (queryParam param) \<Longrightarrow>
   promiseAll (map (\<lambda>a. snd (rewardsAddress up toNumber (tNow clk div 1000) a))
     (toAddressList (queryParam param))) = Inr results \<Longrightarrow>
   payload = \<lparr>rp_addresses = toAddressList (queryParam param), rp_results = results,
              rp_fetchedAt = tFetched clk\<rparr> \<Longrightarrow>
   rewardsGET toNumber up clk c param
     = (Inr (Response 200 [] (PayloadJson payload)),
        c(rewards_cacheKey (queryParam param) \<mapsto>
          \<lparr>ce_ts = tStore clk, ce_payload = PayloadJson payload\<rparr>),
        concat (map (\<lambda>a. fst (rewardsAddress up toNumber (tNow clk div 1000) a))
          (toAddressList (queryParam param))))"
  by (simp add: rewardsGET_def Let_def addressesAccepted_def comp_def)

lemma earnedGET_hit:
  "cacheRead earned_CACHE_TTL_MS (tCheck clk) c
     (earned_cacheKey (queryParam param) (queryParam since)) = Some payload \<Longrightarrow>
   earnedGET toNumber up clk c param since = (Inr (Response 200 [] payload), c, [])"
  by (simp add: earnedGET_def Let_def)

lemma earnedGET_missing:
  "cacheRead earned_CACHE_TTL_MS (tCheck clk) c
     (earned_cacheKey (queryParam param) (queryParam since)) = None \<Longrightarrow>
   toAddressList (queryParam param) = [] \<Longrightarrow>
   earnedGET toNumber up clk c param since = (Inr (badRequest ''Missing addresses''), c, [])"
  by (simp add: earnedGET_def Let_def)

lemma earnedGET_invalid:
  "cacheRead earned_CACHE_TTL_MS (tCheck clk) c
     (earned_cacheKey (queryParam param) (queryParam since)) = None \<Longrightarrow>
   toAddressList (queryParam param) \<noteq> [] \<Longrightarrow>
   \<not> list_all isHexAddress (toAddressList (queryParam param)) \<Longrightarrow>
   earnedGET toNumber up clk c param since = (Inr (badRequest ''Invalid address''), c, [])"
  by (simp add: earnedGET_def Let_def)

lemma earnedGET_invalid_since:
  "cacheRead earned_CACHE_TTL_MS (tCheck clk) c
     (earned_cacheKey (queryParam param) (queryParam since)) = None \<Longrightarrow>
   addressesAccepted (queryParam param) \<Longrightarrow>
   validSince (toNumber (queryParam since)) = None \<Longrightarrow>
   earnedGET toNumber up clk c param since = (Inr (badRequest ''Invalid since''), c, [])"
  by (simp add: earnedGET_def Let_def addressesAccepted_def)

lemma earnedGET_rejected:
  "cacheRead earned_CACHE_TTL_MS (tCheck clk) c
     (earned_cacheKey (queryParam param) (queryParam since)) = None \<Longrightarrow>
   addressesAccepted (queryParam param) \<Longrightarrow>
   validSince (toNumber (queryParam since)) = Some sinceSec \<Longrightarrow>
   promiseAll (map (\<lambda>a. snd (earnedAddress up toNumber sinceSec a))
     (toAddressList (queryParam param))) = Inl e \<Longrightarrow>
   earnedGET toNumber up clk c param since
     = (Inl e, c,
        concat (map (\<lambda>a. fst (earnedAddress up toNumber sinceSec a))
          (toAddressList (queryParam param))))"
  by (simp add: earnedGET_def Let_def addressesAccepted_def comp_def)

lemma earnedGET_computed:
  "cacheRead earned_CACHE_TTL_MS (tCheck clk) c
     (earned_cacheKey (queryParam param) (queryParam since)) = None \<Longrightarrow>
   addressesAccepted (queryParam param) \<Longrightarrow>
   validSince (toNumber (queryParam since)) = Some sinceSec \<Longrightarrow>
   promiseAll (map (\<lambda>a. snd (earnedAddress up toNumber sinceSec a))
     (toAddressList (queryParam param))) = Inr results \<Longrightarrow>
   payload = \<lparr>ep_sinceSec = sinceSec, ep_addresses = toAddressList (queryParam param),
              ep_results = results, ep_fetchedAt = tFetched clk\<rparr> \<Longrightarrow>
   earnedGET toNumber up clk c param since
     = (Inr (Response 200 [] (PayloadJson payload)),
        c(earned_cacheKey (queryParam param) (queryParam since) \<mapsto>
          \<lparr>ce_ts = tStore clk, ce_payload = PayloadJson payload\<rparr>),
        concat (map (\<lambda>a. fst (earnedAddress up toNumber sinceSec a))
          (toAddressList (queryParam param))))"
  by (simp add: earnedGET_def Let_def addressesAccepted_def comp_def)

section \<open>The caches a process can reach\<close>

lemma promiseAll_cases:
  obtains (rejected) e where "promiseAll rs = Inl e"
  | (all) xs where "promiseAll rs = Inr xs"
  by (cases "promiseAll rs") auto

lemma rewardsGET_cache:
  "fst (snd (rewardsGET toNumber up clk c param)) = c
   \<or> (addressesAccepted (queryParam param)
       \<and> (\<exists>ts p. fst (snd (rewardsGET toNumber up clk c param))
             = c(rewards_cacheKey (queryParam param) \<mapsto> \<lparr>ce_ts = ts, ce_payload = PayloadJson p\<rparr>)))"
proof (cases "cacheRead rewards_CACHE_TTL_MS (tCheck clk) c (rewards_cacheKey (queryParam param))")
  case (Some payload)
  then show ?thesis by (simp add: rewardsGET_hit)
next
  case None
  show ?thesis
  proof (cases "addressesAccepted (queryParam param)")
    case False
    then have "toAddressList (queryParam param) = []
        \<or> (toAddressList (queryParam param) \<noteq> []
            \<and> \<not> list_all isHexAddress (toAddressList (queryParam param)))"
      by (auto simp: addressesAccepted_def)
    with None show ?thesis
      by (auto simp: rewardsGET_missing rewardsGET_invalid)
  next
    case True
    show ?thesis
    proof (cases rule: promiseAll_cases
        [of "map (\<lambda>a. snd (rewardsAddress up toNumber (tNow clk div 1000) a))
              (toAddressList (queryParam param))"])
      case (rejected e)
      from rewardsGET_rejected [OF None True this] show ?thesis by simp
    next
      case (all results)
      from rewardsGET_computed [OF None True this refl] True show ?thesis by auto
    qed
  qed
qed

lemma earnedGET_cache:
  "fst (snd (earnedGET toNumber up clk c param since)) = c
   \<or> (addressesAccepted (queryParam param) \<and> validSince (toNumber (queryParam since)) \<noteq> None
       \<and> (\<exists>ts p. fst (snd (earnedGET toNumber up clk c param since))
             = c(earned_cacheKey (queryParam param) (queryParam since)
                   \<mapsto> \<lparr>ce_ts = ts, ce_payload = PayloadJson p\<rparr>)))"
proof (cases "cacheRead earned_CACHE_TTL_MS (tCheck clk) c
    (earned_cacheKey (queryParam param) (queryParam since))")
  case (Some payload)
  then show ?thesis by (simp add: earnedGET_hit)
next
  case None
  show ?thesis
  proof (cases "addressesAccepted (queryParam param)")
    case False
    then have "toAddressList (queryParam param) = []
        \<or> (toAddressList (queryParam param) \<noteq> []
            \<and> \<not> list_all isHexAddress (toAddressList (queryParam param)))"
      by (auto simp: addressesAccepted_def)
    with None show ?thesis
      by (auto simp: earnedGET_missing earnedGET_invalid)
  next
    case True
    show ?thesis
    proof (cases "validSince (toNumber (queryParam since))")
      case none: None
      from earnedGET_invalid_since [where toNumber = toNumber and since = since, OF None True this]
      show ?thesis by simp
    next
      case (Some sinceSec)
      show ?thesis
      proof (cases rule: promiseAll_cases
          [of "map (\<lambda>a. snd (earnedAddress up toNumber sinceSec a))
                (toAddressList (queryParam param))"])
        case (rejected e)
        from earnedGET_rejected [where toNumber = toNumber and since = since,
            OF None True Some this]
        show ?thesis by simp
      next
        case (all results)
        from earnedGET_computed [where toNumber = toNumber and since = since,
            OF None True Some this refl] True Some
        show ?thesis by auto
      qed
    qed
  qed
qed

lemma rewards_reachable_entries:
  "rewards_reachable toNumber c \<Longrightarrow> c key = Some e \<Longrightarrow>
   \<exists>raw p. key = rewards_cacheKey raw \<and> addressesAccepted raw \<and> ce_payload e = PayloadJson p"
proof (induction arbitrary: key e rule: rewards_reachable.induct)
  case rewards_start
  then show ?case by simp
next
  case (rewards_request c up clk param)
  from rewardsGET_cache [of toNumber up clk c param] show ?case
  proof
    assume "fst (snd (rewardsGET toNumber up clk c param)) = c"
    with rewards_request show ?thesis by simp
  next
    assume a: "addressesAccepted (queryParam param)
       \<and> (\<exists>ts p. fst (snd (rewardsGET toNumber up clk c param))
             = c(rewards_cacheKey (queryParam param) \<mapsto> \<lparr>ce_ts = ts, ce_payload = PayloadJson p\<rparr>))"
    then obtain ts p where s: "fst (snd (rewardsGET toNumber up clk c param))
             = c(rewards_cacheKey (queryParam param) \<mapsto> \<lparr>ce_ts = ts, ce_payload = PayloadJson p\<rparr>)"
      by blast
    show ?thesis
    proof (cases "key = rewards_cacheKey (queryParam param)")
      case True
      with rewards_request.prems s have "ce_payload e = PayloadJson p" by auto
      with True a show ?thesis by blast
    next
      case False
      with rewards_request.prems s have "c key = Some e" by simp
      then show ?thesis by (rule rewards_request.IH)
    qed
  qed
qed

lemma earned_reachable_entries:
  "earned_reachable toNumber c \<Longrightarrow> c key = Some e \<Longrightarrow>
   \<exists>raw s p. key = earned_cacheKey raw s \<and> addressesAccepted raw
     \<and> validSince (toNumber s) \<noteq> None \<and> ce_payload e = PayloadJson p"
proof (induction arbitrary: key e rule: earned_reachable.induct)
  case earned_start
  then show ?case by simp
next
  case (earned_request c up clk param since)
  from earnedGET_cache [of toNumber up clk c param since] show ?case
  proof
    assume "fst (snd (earnedGET toNumber up clk c param since)) = c"
    with earned_request show ?thesis by simp
  next
    assume a: "addressesAccepted (queryParam param) \<and> validSince (toNumber (queryParam since)) \<noteq> None
       \<and> (\<exists>ts p. fst (snd (earnedGET toNumber up clk c param since))
             = c(earned_cacheKey (queryParam param) (queryParam since)
                   \<mapsto> \<lparr>ce_ts = ts, ce_payload = PayloadJson p\<rparr>))"
    then obtain ts p where s: "fst (snd (earnedGET toNumber up clk c param since))
             = c(earned_cacheKey (queryParam param) (queryParam since)
                   \<mapsto> \<lparr>ce_ts = ts, ce_payload = PayloadJson p\<rparr>)"
      by blast
    show ?thesis
    proof (cases "key = earned_cacheKey (queryParam param) (queryParam since)")
      case True
      with earned_request.prems s have "ce_payload e = PayloadJson p" by auto
      with True a show ?thesis by blast
    next
      case False
      with earned_request.prems s have "c key = Some e" by simp
      then show ?thesis by (rule earned_request.IH)
    qed
  qed
qed

lemma rewards_invalid_misses:
  assumes "rewards_reachable toNumber c" "\<not> addressesAccepted raw"
  shows "c (rewards_cacheKey raw) = None"
proof (cases "c (rewards_cacheKey raw)")
  case None
  then show ?thesis .
next
  case (Some e)
  from rewards_reachable_entries [OF assms(1) Some]
  obtain raw0 where "rewards_cacheKey raw = rewards_cacheKey raw0" "addressesAccepted raw0"
    by blast
  with rewards_key_addresses [of raw raw0] assms(2) show ?thesis
    by (simp add: addressesAccepted_def)
qed

lemma earned_invalid_misses:
  assumes "earned_reachable toNumber c" "\<not> addressesAccepted raw"
    and bar: "\<forall>s. CHR ''|'' \<in> set s \<longrightarrow> validSince (toNumber s) = None"
  shows "c (earned_cacheKey raw sinceRaw) = None"
proof (cases "c (earned_cacheKey raw sinceRaw)")
  case None
  then show ?thesis .
next
  case (Some e)
  from earned_reachable_entries [OF assms(1) Some]
  obtain raw0 s0 where k: "earned_cacheKey raw sinceRaw = earned_cacheKey raw0 s0"
    and ok: "addressesAccepted raw0" "validSince (toNumber s0) \<noteq> None"
    by blast
  from ok(2) bar [rule_format, of s0] have "CHR ''|'' \<notin> set s0" by auto
  from earned_key_addresses [OF k ok(1) this] ok(1) assms(2) show ?thesis
    by (simp add: addressesAccepted_def)
qed

lemma cacheRead_absent: "c key = None \<Longrightarrow> cacheRead ttl now c key = None"
  by (simp add: cacheRead_def)

lemma not_accepted_cases:
  "\<not> addressesAccepted raw \<longleftrightarrow>
     toAddressList raw = [] \<or> (\<exists>a\<in>set (toAddressList raw). \<not> isHexAddress a)"
  by (auto simp: addressesAccepted_def list_all_iff)

lemma rewardsGET_miss_response:
  "cacheRead rewards_CACHE_TTL_MS (tCheck clk) c (rewards_cacheKey (queryParam param)) = None \<Longrightarrow>
   fst (rewardsGET toNumber up clk c param) = fst (rewardsGET toNumber up clk Map.empty param)"
  by (simp add: rewardsGET_def Let_def cacheRead_def split: sum.splits)

lemma earnedGET_miss_response:
  "cacheRead earned_CACHE_TTL_MS (tCheck clk) c
     (earned_cacheKey (queryParam param) (queryParam since)) = None \<Longrightarrow>
   fst (earnedGET toNumber up clk c param since)
     = fst (earnedGET toNumber up clk Map.empty param since)"
  by (simp add: earnedGET_def Let_def cacheRead_def split: sum.splits option.splits)

lemma rewardsGET_error_body:
  assumes "fst (rewardsGET toNumber up clk c param) = Inr (Response st hs (ErrorJson msg))"
  shows "(\<exists>e. c (rewards_cacheKey (queryParam param)) = Some e \<and> ce_payload e = ErrorJson msg)
    \<or> (\<not> addressesAccepted (queryParam param) \<and> st = 400
        \<and> fst (snd (rewardsGET toNumber up clk c param)) = c)"
proof (cases "cacheRead rewards_CACHE_TTL_MS (tCheck clk) c (rewards_cacheKey (queryParam param))")
  case (Some payload)
  with assms rewardsGET_hit [OF Some, of toNumber up] show ?thesis
    by (auto simp: cacheRead_Some)
next
  case None
  show ?thesis
  proof (cases "addressesAccepted (queryParam param)")
    case False
    then have "toAddressList (queryParam param) = []
        \<or> (toAddressList (queryParam param) \<noteq> []
            \<and> \<not> list_all isHexAddress (toAddressList (queryParam param)))"
      by (auto simp: addressesAccepted_def)
    with None False assms show ?thesis
      by (auto simp: rewardsGET_missing rewardsGET_invalid badRequest_def)
  next
    case True
    show ?thesis
    proof (cases rule: promiseAll_cases
        [of "map (\<lambda>a. snd (rewardsAddress up toNumber (tNow clk div 1000) a))
              (toAddressList (queryParam param))"])
      case (rejected e)
      from rewardsGET_rejected [OF None True this] assms show ?thesis by simp
    next
      case (all results)
      from rewardsGET_computed [OF None True this refl] assms show ?thesis by simp
    qed
  qed
qed

lemma earnedGET_error_body:
  assumes "fst (earnedGET toNumber up clk c param since) = Inr (Response st hs (ErrorJson msg))"
  shows "(\<exists>e. c (earned_cacheKey (queryParam param) (queryParam since)) = Some e
            \<and> ce_payload e = ErrorJson msg)
    \<or> ((\<not> addressesAccepted (queryParam param) \<or> validSince (toNumber (queryParam since)) = None)
        \<and> st = 400 \<and> fst (snd (earnedGET toNumber up clk c param since)) = c)"
proof (cases "cacheRead earned_CACHE_TTL_MS (tCheck clk) c
    (earned_cacheKey (queryParam param) (queryParam since))")
  case (Some payload)
  with assms earnedGET_hit [OF Some, of toNumber up] show ?thesis
    by (auto simp: cacheRead_Some)
next
  case None
  show ?thesis
  proof (cases "addressesAccepted (queryParam param)")
    case False
    then have "toAddressList (queryParam param) = []
        \<or> (toAddressList (queryParam param) \<noteq> []
            \<and> \<not> list_all isHexAddress (toAddressList (queryParam param)))"
      by (auto simp: addressesAccepted_def)
    with None False assms show ?thesis
      by (auto simp: earnedGET_missing earnedGET_invalid badRequest_def)
  next
    case True
    show ?thesis
    proof (cases "validSince (toNumber (queryParam since))")
      case none: None
      from earnedGET_invalid_since [where toNumber = toNumber and since = since, OF None True this]
        assms none
      show ?thesis by (simp add: badRequest_def)
    next
      case (Some sinceSec)
      show ?thesis
      proof (cases rule: promiseAll_cases
          [of "map (\<lambda>a. snd (earnedAddress up toNumber sinceSec a))
                (toAddressList (queryParam param))"])
        case (rejected e)
        from earnedGET_rejected [where toNumber = toNumber and since = since,
            OF None True Some this] assms
        show ?thesis by simp
      next
        case (all results)
        from earnedGET_computed [where toNumber = toNumber and since = since,
            OF None True Some this refl] assms
        show ?thesis by simp
      qed
    qed
  qed
qed

lemma rewardsGET_status_400:
  assumes "fst (rewardsGET toNumber up clk c param) = Inr (Response 400 hs body)"
  shows "fst (snd (rewardsGET toNumber up clk c param)) = c"
proof -
  from rewardsGET_cache [of toNumber up clk c param] show ?thesis
  proof
    assume "fst (snd (rewardsGET toNumber up clk c param)) = c"
    then show ?thesis .
  next
    assume a: "addressesAccepted (queryParam param)
       \<and> (\<exists>ts p. fst (snd (rewardsGET toNumber up clk c param))
             = c(rewards_cacheKey (queryParam param) \<mapsto> \<lparr>ce_ts = ts, ce_payload = PayloadJson p\<rparr>))"
    show ?thesis
    proof (cases "cacheRead rewards_CACHE_TTL_MS (tCheck clk) c
        (rewards_cacheKey (queryParam param))")
      case (Some payload)
      then show ?thesis by (simp add: rewardsGET_hit)
    next
      case None
      show ?thesis
      proof (cases rule: promiseAll_cases
          [of "map (\<lambda>a. snd (rewardsAddress up toNumber (tNow clk div 1000) a))
                (toAddressList (queryParam param))"])
        case (rejected e)
        from rewardsGET_rejected [OF None _ this] a show ?thesis by simp
      next
        case (all results)
        from rewardsGET_computed [OF None _ this refl] a assms show ?thesis by simp
      qed
    qed
  qed
qed

lemma earnedGET_status_400:
  assumes "fst (earnedGET toNumber up clk c param since) = Inr (Response 400 hs body)"
  shows "fst (snd (earnedGET toNumber up clk c param since)) = c"
proof -
  from earnedGET_cache [of toNumber up clk c param since] show ?thesis
  proof
    assume "fst (snd (earnedGET toNumber up clk c param since)) = c"
    then show ?thesis .
  next
    assume a: "addressesAccepted (queryParam param) \<and> validSince (toNumber (queryParam since)) \<noteq> None
       \<and> (\<exists>ts p. fst (snd (earnedGET toNumber up clk c param since))
             = c(earned_cacheKey (queryParam param) (queryParam since)
                   \<mapsto> \<lparr>ce_ts = ts, ce_payload = PayloadJson p\<rparr>))"
    then obtain sinceSec where s: "validSince (toNumber (queryParam since)) = Some sinceSec"
      by auto
    show ?thesis
    proof (cases "cacheRead earned_CACHE_TTL_MS (tCheck clk) c
        (earned_cacheKey (queryParam param) (queryParam since))")
      case (Some payload)
      then show ?thesis by (simp add: earnedGET_hit)
    next
      case None
      show ?thesis
      proof (cases rule: promiseAll_cases
          [of "map (\<lambda>a. snd (earnedAddress up toNumber sinceSec a))
                (toAddressList (queryParam param))"])
        case (rejected e)
        from earnedGET_rejected [where toNumber = toNumber and since = since,
            OF None _ s this] a
        show ?thesis by simp
      next
        case (all results)
        from earnedGET_computed [where toNumber = toNumber and since = since,
            OF None _ s this refl] a assms
        show ?thesis by simp
      qed
    qed
  qed
qed

section \<open>The example requests\<close>

lemma digitsValue_digits:
  "digitsValue radix acc s = Some v \<Longrightarrow> c \<in> set s \<Longrightarrow> digitVal radix c \<noteq> None"
  by (induction s arbitrary: acc) (auto split: option.splits)

lemma decimalNumber_bar:
  "CHR ''|'' \<in> set s \<Longrightarrow> validSince (decimalNumber s) = None"
proof -
  assume b: "CHR ''|'' \<in> set s"
  have "digitVal 10 CHR ''|'' = None" by (simp add: digitVal_def)
  with b digitsValue_digits [of 10 0 s _ "CHR ''|''"] have "digitsValue 10 0 s = None"
    by (cases "digitsValue 10 0 s") auto
  with b show ?thesis by (auto simp: decimalNumber_def parseDigits_def)
qed

lemma example_params:
  "addressesAccepted (queryParam (Some addrA))"
  "toAddressList (queryParam (Some addrA)) = [addrA]"
  "toAddressList (queryParam (Some '' , '')) = []"
  "toAddressList (queryParam None) = []"
  "toAddressList (queryParam (Some ''0x12'')) = [''0x12'']"
  "\<not> isHexAddress ''0x12''"
  "validSince (decimalNumber (queryParam (Some ''1000''))) = Some 1000"
  "validSince (decimalNumber (queryParam (Some ''abc''))) = None"
  by code_simp+

lemma windowFeed_results:
  "promiseAll (map (\<lambda>a. snd (rewardsAddress windowFeed decimalNumber (tNow exampleClock div 1000) a))
     (toAddressList (queryParam (Some addrA)))) = Inr (rp_results windowPayload)"
  by code_simp

lemma sinceFeed_results:
  "promiseAll (map (\<lambda>a. snd (earnedAddress sinceFeed decimalNumber 1000 a))
     (toAddressList (queryParam (Some addrA)))) = Inr (ep_results sincePayload)"
  by code_simp

lemma rewardsCacheAfter_eq:
  "rewardsGET decimalNumber windowFeed exampleClock Map.empty (Some addrA)
     = (Inr (Response 200 [] (PayloadJson windowPayload)),
        [rewards_cacheKey addrA \<mapsto> \<lparr>ce_ts = 10000000600, ce_payload = PayloadJson windowPayload\<rparr>],
        [AccountCall addrA, StakeCall addrA, rewardsCall addrA 1, rewardsCall addrA 2])"
proof -
  have m: "cacheRead rewards_CACHE_TTL_MS (tCheck exampleClock) Map.empty
      (rewards_cacheKey (queryParam (Some addrA))) = None"
    by (simp add: cacheRead_def)
  have p: "windowPayload = \<lparr>rp_addresses = toAddressList (queryParam (Some addrA)),
      rp_results = rp_results windowPayload, rp_fetchedAt = tFetched exampleClock\<rparr>"
    by (simp add: windowPayload_def example_params(2) exampleClock_def)
  have c: "concat (map (\<lambda>a. fst (rewardsAddress windowFeed decimalNumber (tNow exampleClock div 1000) a))
          (toAddressList (queryParam (Some addrA))))
      = [AccountCall addrA, StakeCall addrA, rewardsCall addrA 1, rewardsCall addrA 2]"
    by code_simp
  from rewardsGET_computed [OF m example_params(1) windowFeed_results p] c
  show ?thesis by (simp add: queryParam_def exampleClock_def)
qed

lemma earnedCacheAfter_eq:
  "earnedGET decimalNumber sinceFeed exampleClock Map.empty (Some addrA) (Some ''1000'')
     = (Inr (Response 200 [] (PayloadJson sincePayload)),
        [earned_cacheKey addrA ''1000''
           \<mapsto> \<lparr>ce_ts = 10000000600, ce_payload = PayloadJson sincePayload\<rparr>],
        map (earnedCall addrA) [1..3])"
proof -
  have m: "cacheRead earned_CACHE_TTL_MS (tCheck exampleClock) Map.empty
      (earned_cacheKey (queryParam (Some addrA)) (queryParam (Some ''1000''))) = None"
    by (simp add: cacheRead_def)
  have p: "sincePayload = \<lparr>ep_sinceSec = 1000, ep_addresses = toAddressList (queryParam (Some addrA)),
      ep_results = ep_results sincePayload, ep_fetchedAt = tFetched exampleClock\<rparr>"
    by (simp add: sincePayload_def example_params(2) exampleClock_def)
  have c: "concat (map (\<lambda>a. fst (earnedAddress sinceFeed decimalNumber 1000 a))
          (toAddressList (queryParam (Some addrA))))
      = map (earnedCall addrA) [1..3]"
    by code_simp
  from earnedGET_computed [where toNumber = decimalNumber and since = "Some ''1000''",
      OF m example_params(1) example_params(7) sinceFeed_results p] c
  show ?thesis by (simp add: queryParam_def exampleClock_def)
qed

lemma example_caches:
  "rewardsCacheAfter
     = [rewards_cacheKey addrA \<mapsto> \<lparr>ce_ts = 10000000600, ce_payload = PayloadJson windowPayload\<rparr>]"
  "earnedCacheAfter
     = [earned_cacheKey addrA ''1000''
          \<mapsto> \<lparr>ce_ts = 10000000600, ce_payload = PayloadJson sincePayload\<rparr>]"
  "rewards_reachable decimalNumber rewardsCacheAfter"
  "earned_reachable decimalNumber earnedCacheAfter"
proof -
  show "rewardsCacheAfter
     = [rewards_cacheKey addrA \<mapsto> \<lparr>ce_ts = 10000000600, ce_payload = PayloadJson windowPayload\<rparr>]"
    unfolding rewardsCacheAfter_def by (simp only: rewardsCacheAfter_eq fst_conv snd_conv)
  show "earnedCacheAfter
     = [earned_cacheKey addrA ''1000''
          \<mapsto> \<lparr>ce_ts = 10000000600, ce_payload = PayloadJson sincePayload\<rparr>]"
    unfolding earnedCacheAfter_def by (simp only: earnedCacheAfter_eq fst_conv snd_conv)
  show "rewards_reachable decimalNumber rewardsCacheAfter"
    unfolding rewardsCacheAfter_def by (rule rewards_request [OF rewards_start])
  show "earned_reachable decimalNumber earnedCacheAfter"
    unfolding earnedCacheAfter_def by (rule earned_request [OF earned_start])
qed

text \<open>
  Claim C6. In every cache that a process can reach, a request whose parsed address
  list is empty gets the response 400 with the error "Missing addresses", and a request
  with a parsed entry that is no address gets 400 with the error "Invalid address",
  whatever the other entries are; the cache stays as it is and no request goes to the
  explorer. For the earned route this uses that \<open>Number\<close> accepts no string that holds
  the character \<open>|\<close> of the cache key.
\<close>

theorem invalid_address_lists_are_rejected:
  "(rewards_reachable toNumber rc \<and> toAddressList (queryParam param) = [] \<longrightarrow>
      rewardsGET toNumber up clk rc param
        = (Inr (Response 400 [(''cache-control'', ''no-store'')] (ErrorJson ''Missing addresses'')),
           rc, []))
   \<and> (rewards_reachable toNumber rc
        \<and> (\<exists>a\<in>set (toAddressList (queryParam param)). \<not> isHexAddress a) \<longrightarrow>
        rewardsGET toNumber up clk rc param
          = (Inr (Response 400 [(''cache-control'', ''no-store'')] (ErrorJson ''Invalid address'')),
             rc, []))
   \<and> (earned_reachable toNumber ec
        \<and> (\<forall>s. CHR ''|'' \<in> set s \<longrightarrow> validSince (toNumber s) = None)
        \<and> toAddressList (queryParam param) = [] \<longrightarrow>
        earnedGET toNumber up clk ec param since
          = (Inr (Response 400 [(''cache-control'', ''no-store'')] (ErrorJson ''Missing addresses'')),
             ec, []))
   \<and> (earned_reachable toNumber ec
        \<and> (\<forall>s. CHR ''|'' \<in> set s \<longrightarrow> validSince (toNumber s) = None)
        \<and> (\<exists>a\<in>set (toAddressList (queryParam param)). \<not> isHexAddress a) \<longrightarrow>
        earnedGET toNumber up clk ec param since
          = (Inr (Response 400 [(''cache-control'', ''no-store'')] (ErrorJson ''Invalid address'')),
             ec, []))"
proof (intro conjI impI; elim conjE)
  assume r: "rewards_reachable toNumber rc" and e: "toAddressList (queryParam param) = []"
  then have "\<not> addressesAccepted (queryParam param)" by (simp add: addressesAccepted_def)
  from rewards_invalid_misses [OF r this]
  have "cacheRead rewards_CACHE_TTL_MS (tCheck clk) rc (rewards_cacheKey (queryParam param)) = None"
    by (rule cacheRead_absent)
  from rewardsGET_missing [OF this e]
  show "rewardsGET toNumber up clk rc param
        = (Inr (Response 400 [(''cache-control'', ''no-store'')] (ErrorJson ''Missing addresses'')),
           rc, [])"
    by (simp add: badRequest_def)
next
  assume r: "rewards_reachable toNumber rc"
    and b: "\<exists>a\<in>set (toAddressList (queryParam param)). \<not> isHexAddress a"
  then have n: "toAddressList (queryParam param) \<noteq> []"
    "\<not> list_all isHexAddress (toAddressList (queryParam param))"
    by (auto simp: list_all_iff)
  then have "\<not> addressesAccepted (queryParam param)" by (simp add: addressesAccepted_def)
  from rewards_invalid_misses [OF r this]
  have "cacheRead rewards_CACHE_TTL_MS (tCheck clk) rc (rewards_cacheKey (queryParam param)) = None"
    by (rule cacheRead_absent)
  from rewardsGET_invalid [OF this n]
  show "rewardsGET toNumber up clk rc param
          = (Inr (Response 400 [(''cache-control'', ''no-store'')] (ErrorJson ''Invalid address'')),
             rc, [])"
    by (simp add: badRequest_def)
next
  assume r: "earned_reachable toNumber ec"
    and bar: "\<forall>s. CHR ''|'' \<in> set s \<longrightarrow> validSince (toNumber s) = None"
    and e: "toAddressList (queryParam param) = []"
  then have "\<not> addressesAccepted (queryParam param)" by (simp add: addressesAccepted_def)
  from earned_invalid_misses [OF r this bar]
  have "cacheRead earned_CACHE_TTL_MS (tCheck clk) ec
      (earned_cacheKey (queryParam param) (queryParam since)) = None"
    by (rule cacheRead_absent)
  from earnedGET_missing [OF this e]
  show "earnedGET toNumber up clk ec param since
          = (Inr (Response 400 [(''cache-control'', ''no-store'')] (ErrorJson ''Missing addresses'')),
             ec, [])"
    by (simp add: badRequest_def)
next
  assume r: "earned_reachable toNumber ec"
    and bar: "\<forall>s. CHR ''|'' \<in> set s \<longrightarrow> validSince (toNumber s) = None"
    and b: "\<exists>a\<in>set (toAddressList (queryParam param)). \<not> isHexAddress a"
  then have n: "toAddressList (queryParam param) \<noteq> []"
    "\<not> list_all isHexAddress (toAddressList (queryParam param))"
    by (auto simp: list_all_iff)
  then have "\<not> addressesAccepted (queryParam param)" by (simp add: addressesAccepted_def)
  from earned_invalid_misses [OF r this bar]
  have "cacheRead earned_CACHE_TTL_MS (tCheck clk) ec
      (earned_cacheKey (queryParam param) (queryParam since)) = None"
    by (rule cacheRead_absent)
  from earnedGET_invalid [OF this n]
  show "earnedGET toNumber up clk ec param since
          = (Inr (Response 400 [(''cache-control'', ''no-store'')] (ErrorJson ''Invalid address'')),
             ec, [])"
    by (simp add: badRequest_def)
qed

theorem invalid_address_lists_are_rejected_witness:
  "toAddressList (queryParam (Some '' , '')) = []
   \<and> toAddressList (queryParam (Some ''0x12'')) = [''0x12'']
   \<and> \<not> isHexAddress ''0x12''
   \<and> rewardsGET decimalNumber longFeed exampleClock rewardsCacheAfter (Some '' , '')
       = (Inr (Response 400 [(''cache-control'', ''no-store'')] (ErrorJson ''Missing addresses'')),
          rewardsCacheAfter, [])
   \<and> rewardsGET decimalNumber longFeed exampleClock rewardsCacheAfter (Some ''0x12'')
       = (Inr (Response 400 [(''cache-control'', ''no-store'')] (ErrorJson ''Invalid address'')),
          rewardsCacheAfter, [])
   \<and> earnedGET decimalNumber longFeed exampleClock earnedCacheAfter (Some '' , '') (Some ''1000'')
       = (Inr (Response 400 [(''cache-control'', ''no-store'')] (ErrorJson ''Missing addresses'')),
          earnedCacheAfter, [])
   \<and> earnedGET decimalNumber longFeed exampleClock earnedCacheAfter (Some ''0x12'') (Some ''1000'')
       = (Inr (Response 400 [(''cache-control'', ''no-store'')] (ErrorJson ''Invalid address'')),
          earnedCacheAfter, [])"
proof -
  have bar: "\<forall>s. CHR ''|'' \<in> set s \<longrightarrow> validSince (decimalNumber s) = None"
    using decimalNumber_bar by blast
  have bad: "\<exists>a\<in>set (toAddressList (queryParam (Some ''0x12''))). \<not> isHexAddress a"
    using example_params(5,6) by simp
  note M = invalid_address_lists_are_rejected [where toNumber = decimalNumber
      and rc = rewardsCacheAfter and ec = earnedCacheAfter and param = "Some '' , ''"
      and up = longFeed and clk = exampleClock and since = "Some ''1000''"]
  note I = invalid_address_lists_are_rejected [where toNumber = decimalNumber
      and rc = rewardsCacheAfter and ec = earnedCacheAfter and param = "Some ''0x12''"
      and up = longFeed and clk = exampleClock and since = "Some ''1000''"]
  from M example_caches(3) example_params(3)
  have a: "rewardsGET decimalNumber longFeed exampleClock rewardsCacheAfter (Some '' , '')
       = (Inr (Response 400 [(''cache-control'', ''no-store'')] (ErrorJson ''Missing addresses'')),
          rewardsCacheAfter, [])"
    by blast
  from I example_caches(3) bad
  have b: "rewardsGET decimalNumber longFeed exampleClock rewardsCacheAfter (Some ''0x12'')
       = (Inr (Response 400 [(''cache-control'', ''no-store'')] (ErrorJson ''Invalid address'')),
          rewardsCacheAfter, [])"
    by blast
  from M example_caches(4) bar example_params(3)
  have c: "earnedGET decimalNumber longFeed exampleClock earnedCacheAfter (Some '' , '') (Some ''1000'')
       = (Inr (Response 400 [(''cache-control'', ''no-store'')] (ErrorJson ''Missing addresses'')),
          earnedCacheAfter, [])"
    by blast
  from I example_caches(4) bar bad
  have d: "earnedGET decimalNumber longFeed exampleClock earnedCacheAfter (Some ''0x12'') (Some ''1000'')
       = (Inr (Response 400 [(''cache-control'', ''no-store'')] (ErrorJson ''Invalid address'')),
          earnedCacheAfter, [])"
    by blast
  from a b c d example_params(3,5,6) show ?thesis by (intro conjI)
qed

text \<open>
  Claim C8. A cache read gives a stored body exactly when the entry is there and
  \<open>now - ts < TTL\<close>; the TTL is 45000 ms for the rewards route and 120000 ms for the
  earned route. With a fresh entry under the key of the request, the response is the
  stored body, the cache stays as it is and nothing is requested from the explorer.
  With no entry or a stale one, the response is the one an empty cache would give, and,
  when the request passes validation and every request to the explorer succeeds, it is
  the payload computed now, which is also stored under the key with the time of
  writing. The key is \<open>addresses:\<close> and the lowercased \<open>addresses\<close> parameter, followed
  for the earned route by \<open>|since:\<close> and the \<open>since\<close> parameter.
\<close>

theorem cached_payload_served_while_fresh:
  "(cacheRead ttl now c key = Some body \<longleftrightarrow>
      (\<exists>e. c key = Some e \<and> now - ce_ts e < ttl \<and> body = ce_payload e))
   \<and> rewards_CACHE_TTL_MS = 45000 \<and> earned_CACHE_TTL_MS = 120000
   \<and> rewards_cacheKey raw = ''addresses:'' @ toLowerCase raw
   \<and> earned_cacheKey raw sinceRaw = ''addresses:'' @ toLowerCase raw @ ''|since:'' @ sinceRaw
   \<and> (rc (rewards_cacheKey (queryParam param)) = Some re
        \<and> tCheck clk - ce_ts re < rewards_CACHE_TTL_MS \<longrightarrow>
        rewardsGET toNumber up clk rc param = (Inr (Response 200 [] (ce_payload re)), rc, []))
   \<and> (ec (earned_cacheKey (queryParam param) (queryParam since)) = Some ee
        \<and> tCheck clk - ce_ts ee < earned_CACHE_TTL_MS \<longrightarrow>
        earnedGET toNumber up clk ec param since
          = (Inr (Response 200 [] (ce_payload ee)), ec, []))
   \<and> ((case rc (rewards_cacheKey (queryParam param)) of
          None \<Rightarrow> True | Some e \<Rightarrow> rewards_CACHE_TTL_MS \<le> tCheck clk - ce_ts e) \<longrightarrow>
        fst (rewardsGET toNumber up clk rc param)
          = fst (rewardsGET toNumber up clk Map.empty param)
        \<and> (addressesAccepted (queryParam param)
             \<and> promiseAll (map (\<lambda>a. snd (rewardsAddress up toNumber (tNow clk div 1000) a))
                   (toAddressList (queryParam param))) = Inr rresults \<longrightarrow>
             rewardsGET toNumber up clk rc param
               = (Inr (Response 200 []
                    (PayloadJson \<lparr>rp_addresses = toAddressList (queryParam param),
                                  rp_results = rresults, rp_fetchedAt = tFetched clk\<rparr>)),
                  rc(rewards_cacheKey (queryParam param) \<mapsto>
                    \<lparr>ce_ts = tStore clk,
                     ce_payload = PayloadJson
                       \<lparr>rp_addresses = toAddressList (queryParam param),
                        rp_results = rresults, rp_fetchedAt = tFetched clk\<rparr>\<rparr>),
                  concat (map (\<lambda>a. fst (rewardsAddress up toNumber (tNow clk div 1000) a))
                    (toAddressList (queryParam param))))))
   \<and> ((case ec (earned_cacheKey (queryParam param) (queryParam since)) of
          None \<Rightarrow> True | Some e \<Rightarrow> earned_CACHE_TTL_MS \<le> tCheck clk - ce_ts e) \<longrightarrow>
        fst (earnedGET toNumber up clk ec param since)
          = fst (earnedGET toNumber up clk Map.empty param since)
        \<and> (addressesAccepted (queryParam param)
             \<and> validSince (toNumber (queryParam since)) = Some sinceSec
             \<and> promiseAll (map (\<lambda>a. snd (earnedAddress up toNumber sinceSec a))
                   (toAddressList (queryParam param))) = Inr eresults \<longrightarrow>
             earnedGET toNumber up clk ec param since
               = (Inr (Response 200 []
                    (PayloadJson \<lparr>ep_sinceSec = sinceSec,
                                  ep_addresses = toAddressList (queryParam param),
                                  ep_results = eresults, ep_fetchedAt = tFetched clk\<rparr>)),
                  ec(earned_cacheKey (queryParam param) (queryParam since) \<mapsto>
                    \<lparr>ce_ts = tStore clk,
                     ce_payload = PayloadJson
                       \<lparr>ep_sinceSec = sinceSec,
                        ep_addresses = toAddressList (queryParam param),
                        ep_results = eresults, ep_fetchedAt = tFetched clk\<rparr>\<rparr>),
                  concat (map (\<lambda>a. fst (earnedAddress up toNumber sinceSec a))
                    (toAddressList (queryParam param))))))"
proof (intro conjI)
  show "cacheRead ttl now c key = Some body \<longleftrightarrow>
      (\<exists>e. c key = Some e \<and> now - ce_ts e < ttl \<and> body = ce_payload e)"
    by (rule cacheRead_Some)
  show "rewards_CACHE_TTL_MS = 45000" by (simp add: rewards_CACHE_TTL_MS_def)
  show "earned_CACHE_TTL_MS = 120000" by (simp add: earned_CACHE_TTL_MS_def)
  show "rewards_cacheKey raw = ''addresses:'' @ toLowerCase raw"
    by (simp only: rewards_cacheKey_def)
  show "earned_cacheKey raw sinceRaw = ''addresses:'' @ toLowerCase raw @ ''|since:'' @ sinceRaw"
    by (simp only: earned_cacheKey_def)
  show "rc (rewards_cacheKey (queryParam param)) = Some re
        \<and> tCheck clk - ce_ts re < rewards_CACHE_TTL_MS \<longrightarrow>
        rewardsGET toNumber up clk rc param = (Inr (Response 200 [] (ce_payload re)), rc, [])"
    using rewardsGET_hit [of clk rc param "ce_payload re" toNumber up]
    by (simp only: cacheRead_Some) blast
  show "ec (earned_cacheKey (queryParam param) (queryParam since)) = Some ee
        \<and> tCheck clk - ce_ts ee < earned_CACHE_TTL_MS \<longrightarrow>
        earnedGET toNumber up clk ec param since
          = (Inr (Response 200 [] (ce_payload ee)), ec, [])"
    using earnedGET_hit [of clk ec param since "ce_payload ee" toNumber up]
    by (simp only: cacheRead_Some) blast
  show "(case rc (rewards_cacheKey (queryParam param)) of
          None \<Rightarrow> True | Some e \<Rightarrow> rewards_CACHE_TTL_MS \<le> tCheck clk - ce_ts e) \<longrightarrow>
        fst (rewardsGET toNumber up clk rc param)
          = fst (rewardsGET toNumber up clk Map.empty param)
        \<and> (addressesAccepted (queryParam param)
             \<and> promiseAll (map (\<lambda>a. snd (rewardsAddress up toNumber (tNow clk div 1000) a))
                   (toAddressList (queryParam param))) = Inr rresults \<longrightarrow>
             rewardsGET toNumber up clk rc param
               = (Inr (Response 200 []
                    (PayloadJson \<lparr>rp_addresses = toAddressList (queryParam param),
                                  rp_results = rresults, rp_fetchedAt = tFetched clk\<rparr>)),
                  rc(rewards_cacheKey (queryParam param) \<mapsto>
                    \<lparr>ce_ts = tStore clk,
                     ce_payload = PayloadJson
                       \<lparr>rp_addresses = toAddressList (queryParam param),
                        rp_results = rresults, rp_fetchedAt = tFetched clk\<rparr>\<rparr>),
                  concat (map (\<lambda>a. fst (rewardsAddress up toNumber (tNow clk div 1000) a))
                    (toAddressList (queryParam param)))))"
  proof (intro impI conjI; (elim conjE)?)
    assume "case rc (rewards_cacheKey (queryParam param)) of
          None \<Rightarrow> True | Some e \<Rightarrow> rewards_CACHE_TTL_MS \<le> tCheck clk - ce_ts e"
    then have m: "cacheRead rewards_CACHE_TTL_MS (tCheck clk) rc
        (rewards_cacheKey (queryParam param)) = None"
      by (auto simp: cacheRead_None split: option.splits)
    then show "fst (rewardsGET toNumber up clk rc param)
          = fst (rewardsGET toNumber up clk Map.empty param)"
      by (rule rewardsGET_miss_response)
    assume "addressesAccepted (queryParam param)"
      "promiseAll (map (\<lambda>a. snd (rewardsAddress up toNumber (tNow clk div 1000) a))
                   (toAddressList (queryParam param))) = Inr rresults"
    from rewardsGET_computed [OF m this refl]
    show "rewardsGET toNumber up clk rc param
               = (Inr (Response 200 []
                    (PayloadJson \<lparr>rp_addresses = toAddressList (queryParam param),
                                  rp_results = rresults, rp_fetchedAt = tFetched clk\<rparr>)),
                  rc(rewards_cacheKey (queryParam param) \<mapsto>
                    \<lparr>ce_ts = tStore clk,
                     ce_payload = PayloadJson
                       \<lparr>rp_addresses = toAddressList (queryParam param),
                        rp_results = rresults, rp_fetchedAt = tFetched clk\<rparr>\<rparr>),
                  concat (map (\<lambda>a. fst (rewardsAddress up toNumber (tNow clk div 1000) a))
                    (toAddressList (queryParam param))))" .
  qed
  show "(case ec (earned_cacheKey (queryParam param) (queryParam since)) of
          None \<Rightarrow> True | Some e \<Rightarrow> earned_CACHE_TTL_MS \<le> tCheck clk - ce_ts e) \<longrightarrow>
        fst (earnedGET toNumber up clk ec param since)
          = fst (earnedGET toNumber up clk Map.empty param since)
        \<and> (addressesAccepted (queryParam param)
             \<and> validSince (toNumber (queryParam since)) = Some sinceSec
             \<and> promiseAll (map (\<lambda>a. snd (earnedAddress up toNumber sinceSec a))
                   (toAddressList (queryParam param))) = Inr eresults \<longrightarrow>
             earnedGET toNumber up clk ec param since
               = (Inr (Response 200 []
                    (PayloadJson \<lparr>ep_sinceSec = sinceSec,
                                  ep_addresses = toAddressList (queryParam param),
                                  ep_results = eresults, ep_fetchedAt = tFetched clk\<rparr>)),
                  ec(earned_cacheKey (queryParam param) (queryParam since) \<mapsto>
                    \<lparr>ce_ts = tStore clk,
                     ce_payload = PayloadJson
                       \<lparr>ep_sinceSec = sinceSec,
                        ep_addresses = toAddressList (queryParam param),
                        ep_results = eresults, ep_fetchedAt = tFetched clk\<rparr>\<rparr>),
                  concat (map (\<lambda>a. fst (earnedAddress up toNumber sinceSec a))
                    (toAddressList (queryParam param)))))"
  proof (intro impI conjI; (elim conjE)?)
    assume "case ec (earned_cacheKey (queryParam param) (queryParam since)) of
          None \<Rightarrow> True | Some e \<Rightarrow> earned_CACHE_TTL_MS \<le> tCheck clk - ce_ts e"
    then have m: "cacheRead earned_CACHE_TTL_MS (tCheck clk) ec
        (earned_cacheKey (queryParam param) (queryParam since)) = None"
      by (auto simp: cacheRead_None split: option.splits)
    then show "fst (earnedGET toNumber up clk ec param since)
          = fst (earnedGET toNumber up clk Map.empty param since)"
      by (rule earnedGET_miss_response)
    assume "addressesAccepted (queryParam param)"
      "validSince (toNumber (queryParam since)) = Some sinceSec"
      "promiseAll (map (\<lambda>a. snd (earnedAddress up toNumber sinceSec a))
                   (toAddressList (queryParam param))) = Inr eresults"
    from earnedGET_computed [where toNumber = toNumber and since = since, OF m this refl]
    show "earnedGET toNumber up clk ec param since
               = (Inr (Response 200 []
                    (PayloadJson \<lparr>ep_sinceSec = sinceSec,
                                  ep_addresses = toAddressList (queryParam param),
                                  ep_results = eresults, ep_fetchedAt = tFetched clk\<rparr>)),
                  ec(earned_cacheKey (queryParam param) (queryParam since) \<mapsto>
                    \<lparr>ce_ts = tStore clk,
                     ce_payload = PayloadJson
                       \<lparr>ep_sinceSec = sinceSec,
                        ep_addresses = toAddressList (queryParam param),
                        ep_results = eresults, ep_fetchedAt = tFetched clk\<rparr>\<rparr>),
                  concat (map (\<lambda>a. fst (earnedAddress up toNumber sinceSec a))
                    (toAddressList (queryParam param))))" .
  qed
qed

theorem cached_payload_served_while_fresh_witness:
  "rewardsGET decimalNumber windowFeed exampleClock Map.empty (Some addrA)
     = (Inr (Response 200 [] (PayloadJson windowPayload)),
        [rewards_cacheKey addrA \<mapsto> \<lparr>ce_ts = 10000000600, ce_payload = PayloadJson windowPayload\<rparr>],
        [AccountCall addrA, StakeCall addrA, rewardsCall addrA 1, rewardsCall addrA 2])
   \<and> rewardsGET decimalNumber longFeed (clockAt 10000045599) rewardsCacheAfter (Some addrA)
       = (Inr (Response 200 [] (PayloadJson windowPayload)), rewardsCacheAfter, [])
   \<and> fst (rewardsGET decimalNumber longFeed (clockAt 10000045600) rewardsCacheAfter (Some addrA))
       = fst (rewardsGET decimalNumber longFeed (clockAt 10000045600) Map.empty (Some addrA))
   \<and> earnedGET decimalNumber sinceFeed exampleClock Map.empty (Some addrA) (Some ''1000'')
       = (Inr (Response 200 [] (PayloadJson sincePayload)),
          [earned_cacheKey addrA ''1000''
             \<mapsto> \<lparr>ce_ts = 10000000600, ce_payload = PayloadJson sincePayload\<rparr>],
          map (earnedCall addrA) [1..3])
   \<and> earnedGET decimalNumber longFeed (clockAt 10000120599) earnedCacheAfter (Some addrA)
         (Some ''1000'')
       = (Inr (Response 200 [] (PayloadJson sincePayload)), earnedCacheAfter, [])
   \<and> fst (earnedGET decimalNumber longFeed (clockAt 10000120600) earnedCacheAfter (Some addrA)
         (Some ''1000''))
       = fst (earnedGET decimalNumber longFeed (clockAt 10000120600) Map.empty (Some addrA)
           (Some ''1000''))"
proof -
  let ?re = "\<lparr>ce_ts = 10000000600, ce_payload = PayloadJson windowPayload\<rparr>"
  let ?ee = "\<lparr>ce_ts = 10000000600, ce_payload = PayloadJson sincePayload\<rparr>"
  have q: "queryParam (Some addrA) = addrA" "queryParam (Some ''1000'') = ''1000''"
    by (simp_all add: queryParam_def)
  have rk: "rewardsCacheAfter (rewards_cacheKey (queryParam (Some addrA))) = Some ?re"
    by (simp add: example_caches(1) q)
  have ek: "earnedCacheAfter (earned_cacheKey (queryParam (Some addrA)) (queryParam (Some ''1000'')))
      = Some ?ee"
    by (simp add: example_caches(2) q)
  note F = cached_payload_served_while_fresh [where toNumber = decimalNumber and up = longFeed
      and clk = "clockAt 10000045599" and rc = rewardsCacheAfter and param = "Some addrA"
      and re = ?re]
  have "tCheck (clockAt 10000045599) - ce_ts ?re < rewards_CACHE_TTL_MS"
    by (simp add: clockAt_def rewards_CACHE_TTL_MS_def)
  with F rk
  have "rewardsGET decimalNumber longFeed (clockAt 10000045599) rewardsCacheAfter (Some addrA)
       = (Inr (Response 200 [] (ce_payload ?re)), rewardsCacheAfter, [])"
    by blast
  then have a: "rewardsGET decimalNumber longFeed (clockAt 10000045599) rewardsCacheAfter (Some addrA)
       = (Inr (Response 200 [] (PayloadJson windowPayload)), rewardsCacheAfter, [])"
    by simp
  note S = cached_payload_served_while_fresh [where toNumber = decimalNumber and up = longFeed
      and clk = "clockAt 10000045600" and rc = rewardsCacheAfter and param = "Some addrA"]
  have "case rewardsCacheAfter (rewards_cacheKey (queryParam (Some addrA))) of
          None \<Rightarrow> True | Some e \<Rightarrow> rewards_CACHE_TTL_MS \<le> tCheck (clockAt 10000045600) - ce_ts e"
    by (simp add: rk clockAt_def rewards_CACHE_TTL_MS_def)
  with S
  have b: "fst (rewardsGET decimalNumber longFeed (clockAt 10000045600) rewardsCacheAfter (Some addrA))
       = fst (rewardsGET decimalNumber longFeed (clockAt 10000045600) Map.empty (Some addrA))"
    by blast
  note G = cached_payload_served_while_fresh [where toNumber = decimalNumber and up = longFeed
      and clk = "clockAt 10000120599" and ec = earnedCacheAfter and param = "Some addrA"
      and since = "Some ''1000''" and ee = ?ee]
  have "tCheck (clockAt 10000120599) - ce_ts ?ee < earned_CACHE_TTL_MS"
    by (simp add: clockAt_def earned_CACHE_TTL_MS_def)
  with G ek
  have "earnedGET decimalNumber longFeed (clockAt 10000120599) earnedCacheAfter (Some addrA)
         (Some ''1000'')
       = (Inr (Response 200 [] (ce_payload ?ee)), earnedCacheAfter, [])"
    by blast
  then have c: "earnedGET decimalNumber longFeed (clockAt 10000120599) earnedCacheAfter (Some addrA)
         (Some ''1000'')
       = (Inr (Response 200 [] (PayloadJson sincePayload)), earnedCacheAfter, [])"
    by simp
  note H = cached_payload_served_while_fresh [where toNumber = decimalNumber and up = longFeed
      and clk = "clockAt 10000120600" and ec = earnedCacheAfter and param = "Some addrA"
      and since = "Some ''1000''"]
  have "case earnedCacheAfter (earned_cacheKey (queryParam (Some addrA)) (queryParam (Some ''1000''))) of
          None \<Rightarrow> True | Some e \<Rightarrow> earned_CACHE_TTL_MS \<le> tCheck (clockAt 10000120600) - ce_ts e"
    by (simp add: ek clockAt_def earned_CACHE_TTL_MS_def)
  with H
  have d: "fst (earnedGET decimalNumber longFeed (clockAt 10000120600) earnedCacheAfter (Some addrA)
         (Some ''1000''))
       = fst (earnedGET decimalNumber longFeed (clockAt 10000120600) Map.empty (Some addrA)
           (Some ''1000''))"
    by blast
  note Z = cached_payload_served_while_fresh [where toNumber = decimalNumber
      and up = windowFeed and clk = exampleClock and rc = Map.empty and param = "Some addrA"
      and rresults = "rp_results windowPayload"]
  have "case Map.empty (rewards_cacheKey (queryParam (Some addrA))) of
          None \<Rightarrow> True | Some e \<Rightarrow> rewards_CACHE_TTL_MS \<le> tCheck exampleClock - ce_ts e"
    by simp
  with Z example_params(1) windowFeed_results
  have "rewardsGET decimalNumber windowFeed exampleClock Map.empty (Some addrA)
      = (Inr (Response 200 []
           (PayloadJson \<lparr>rp_addresses = toAddressList (queryParam (Some addrA)),
                         rp_results = rp_results windowPayload,
                         rp_fetchedAt = tFetched exampleClock\<rparr>)),
         [rewards_cacheKey (queryParam (Some addrA)) \<mapsto>
           \<lparr>ce_ts = tStore exampleClock,
            ce_payload = PayloadJson
              \<lparr>rp_addresses = toAddressList (queryParam (Some addrA)),
               rp_results = rp_results windowPayload,
               rp_fetchedAt = tFetched exampleClock\<rparr>\<rparr>],
         concat (map (\<lambda>a. fst (rewardsAddress windowFeed decimalNumber
                                 (tNow exampleClock div 1000) a))
           (toAddressList (queryParam (Some addrA)))))"
    by blast
  then have z: "rewardsGET decimalNumber windowFeed exampleClock Map.empty (Some addrA)
     = (Inr (Response 200 [] (PayloadJson windowPayload)),
        [rewards_cacheKey addrA \<mapsto> \<lparr>ce_ts = 10000000600, ce_payload = PayloadJson windowPayload\<rparr>],
        [AccountCall addrA, StakeCall addrA, rewardsCall addrA 1, rewardsCall addrA 2])"
    by (simp only: rewardsCacheAfter_eq)
  note Y = cached_payload_served_while_fresh [where toNumber = decimalNumber
      and up = sinceFeed and clk = exampleClock and ec = Map.empty and param = "Some addrA"
      and since = "Some ''1000''" and sinceSec = 1000 and eresults = "ep_results sincePayload"]
  have "case Map.empty (earned_cacheKey (queryParam (Some addrA)) (queryParam (Some ''1000''))) of
          None \<Rightarrow> True | Some e \<Rightarrow> earned_CACHE_TTL_MS \<le> tCheck exampleClock - ce_ts e"
    by simp
  with Y example_params(1,7) sinceFeed_results
  have "earnedGET decimalNumber sinceFeed exampleClock Map.empty (Some addrA) (Some ''1000'')
      = (Inr (Response 200 []
           (PayloadJson \<lparr>ep_sinceSec = 1000,
                         ep_addresses = toAddressList (queryParam (Some addrA)),
                         ep_results = ep_results sincePayload,
                         ep_fetchedAt = tFetched exampleClock\<rparr>)),
         [earned_cacheKey (queryParam (Some addrA)) (queryParam (Some ''1000'')) \<mapsto>
           \<lparr>ce_ts = tStore exampleClock,
            ce_payload = PayloadJson
              \<lparr>ep_sinceSec = 1000,
               ep_addresses = toAddressList (queryParam (Some addrA)),
               ep_results = ep_results sincePayload,
               ep_fetchedAt = tFetched exampleClock\<rparr>\<rparr>],
         concat (map (\<lambda>a. fst (earnedAddress sinceFeed decimalNumber 1000 a))
           (toAddressList (queryParam (Some addrA)))))"
    by blast
  then have y: "earnedGET decimalNumber sinceFeed exampleClock Map.empty (Some addrA) (Some ''1000'')
       = (Inr (Response 200 [] (PayloadJson sincePayload)),
          [earned_cacheKey addrA ''1000''
             \<mapsto> \<lparr>ce_ts = 10000000600, ce_payload = PayloadJson sincePayload\<rparr>],
          map (earnedCall addrA) [1..3])"
    by (simp only: earnedCacheAfter_eq)
  from z a b y c d show ?thesis by (intro conjI)
qed

text \<open>
  Claim C10. A request whose address list is empty or holds an entry that is no
  address leaves the cache as it is, and so does, for the earned route, a request whose
  \<open>since\<close> is not a finite positive number; whenever the status of the response is 400
  the cache is as before. Every entry of a cache that a process can reach holds a
  payload, never an error body; so in such a cache no request that passes validation
  gets an error body as its response.
\<close>

theorem validation_failures_are_never_cached:
  "(\<not> addressesAccepted (queryParam param) \<longrightarrow>
      fst (snd (rewardsGET toNumber up clk rc param)) = rc)
   \<and> (\<not> addressesAccepted (queryParam param) \<or> validSince (toNumber (queryParam since)) = None \<longrightarrow>
        fst (snd (earnedGET toNumber up clk ec param since)) = ec)
   \<and> (fst (rewardsGET toNumber up clk rc param) = Inr (Response 400 rhs rbody) \<longrightarrow>
        fst (snd (rewardsGET toNumber up clk rc param)) = rc)
   \<and> (fst (earnedGET toNumber up clk ec param since) = Inr (Response 400 ehs ebody) \<longrightarrow>
        fst (snd (earnedGET toNumber up clk ec param since)) = ec)
   \<and> (rewards_reachable toNumber rc \<and> rc rkey = Some re \<longrightarrow>
        (\<exists>p. ce_payload re = PayloadJson p))
   \<and> (earned_reachable toNumber ec \<and> ec ekey = Some ee \<longrightarrow>
        (\<exists>p. ce_payload ee = PayloadJson p))
   \<and> (rewards_reachable toNumber rc \<and> addressesAccepted (queryParam param) \<longrightarrow>
        fst (rewardsGET toNumber up clk rc param) \<noteq> Inr (Response st hs (ErrorJson msg)))
   \<and> (earned_reachable toNumber ec \<and> addressesAccepted (queryParam param)
        \<and> validSince (toNumber (queryParam since)) \<noteq> None \<longrightarrow>
        fst (earnedGET toNumber up clk ec param since) \<noteq> Inr (Response st hs (ErrorJson msg)))"
proof (intro conjI impI)
  show "fst (snd (rewardsGET toNumber up clk rc param)) = rc"
    if "\<not> addressesAccepted (queryParam param)"
    using that rewardsGET_cache [of toNumber up clk rc param] by blast
  show "fst (snd (earnedGET toNumber up clk ec param since)) = ec"
    if "\<not> addressesAccepted (queryParam param) \<or> validSince (toNumber (queryParam since)) = None"
    using that earnedGET_cache [of toNumber up clk ec param since] by blast
  show "fst (snd (rewardsGET toNumber up clk rc param)) = rc"
    if "fst (rewardsGET toNumber up clk rc param) = Inr (Response 400 rhs rbody)"
    using that by (rule rewardsGET_status_400)
  show "fst (snd (earnedGET toNumber up clk ec param since)) = ec"
    if "fst (earnedGET toNumber up clk ec param since) = Inr (Response 400 ehs ebody)"
    using that by (rule earnedGET_status_400)
  show "\<exists>p. ce_payload re = PayloadJson p"
    if "rewards_reachable toNumber rc \<and> rc rkey = Some re"
    using that rewards_reachable_entries [of toNumber rc rkey re] by blast
  show "\<exists>p. ce_payload ee = PayloadJson p"
    if "earned_reachable toNumber ec \<and> ec ekey = Some ee"
    using that earned_reachable_entries [of toNumber ec ekey ee] by blast
  show "fst (rewardsGET toNumber up clk rc param) \<noteq> Inr (Response st hs (ErrorJson msg))"
    if a: "rewards_reachable toNumber rc \<and> addressesAccepted (queryParam param)"
  proof
    assume "fst (rewardsGET toNumber up clk rc param) = Inr (Response st hs (ErrorJson msg))"
    from rewardsGET_error_body [OF this] a
    obtain e where "rc (rewards_cacheKey (queryParam param)) = Some e"
      "ce_payload e = ErrorJson msg"
      by blast
    with a rewards_reachable_entries [of toNumber rc _ e] show False by fastforce
  qed
  show "fst (earnedGET toNumber up clk ec param since) \<noteq> Inr (Response st hs (ErrorJson msg))"
    if a: "earned_reachable toNumber ec \<and> addressesAccepted (queryParam param)
        \<and> validSince (toNumber (queryParam since)) \<noteq> None"
  proof
    assume "fst (earnedGET toNumber up clk ec param since) = Inr (Response st hs (ErrorJson msg))"
    from earnedGET_error_body [OF this] a
    obtain e where "ec (earned_cacheKey (queryParam param) (queryParam since)) = Some e"
      "ce_payload e = ErrorJson msg"
      by blast
    with a earned_reachable_entries [of toNumber ec _ e] show False by fastforce
  qed
qed


lemma invalid_example_misses:
  "cacheRead rewards_CACHE_TTL_MS (tCheck exampleClock) rewardsCacheAfter
     (rewards_cacheKey (queryParam (Some ''0x12''))) = None"
  "cacheRead earned_CACHE_TTL_MS (tCheck exampleClock) earnedCacheAfter
     (earned_cacheKey (queryParam (Some addrA)) (queryParam (Some ''abc''))) = None"
proof -
  have "\<not> addressesAccepted (queryParam (Some ''0x12''))"
    using example_params(5,6) by (simp add: addressesAccepted_def)
  from rewards_invalid_misses [OF example_caches(3) this]
  show "cacheRead rewards_CACHE_TTL_MS (tCheck exampleClock) rewardsCacheAfter
     (rewards_cacheKey (queryParam (Some ''0x12''))) = None"
    by (rule cacheRead_absent)
  have "earned_cacheKey (queryParam (Some addrA)) (queryParam (Some ''abc''))
      \<noteq> earned_cacheKey addrA ''1000''"
    by (simp add: earned_cacheKey_def queryParam_def)
  then show "cacheRead earned_CACHE_TTL_MS (tCheck exampleClock) earnedCacheAfter
     (earned_cacheKey (queryParam (Some addrA)) (queryParam (Some ''abc''))) = None"
    by (simp add: example_caches(2) cacheRead_def)
qed

theorem validation_failures_are_never_cached_witness:
  "\<not> addressesAccepted (queryParam (Some ''0x12''))
   \<and> validSince (decimalNumber (queryParam (Some ''abc''))) = None
   \<and> fst (snd (rewardsGET decimalNumber longFeed exampleClock rewardsCacheAfter (Some ''0x12'')))
       = rewardsCacheAfter
   \<and> fst (snd (earnedGET decimalNumber longFeed exampleClock earnedCacheAfter (Some addrA)
         (Some ''abc''))) = earnedCacheAfter
   \<and> fst (rewardsGET decimalNumber longFeed exampleClock rewardsCacheAfter (Some ''0x12''))
       = Inr (Response 400 [(''cache-control'', ''no-store'')] (ErrorJson ''Invalid address''))
   \<and> fst (earnedGET decimalNumber longFeed exampleClock earnedCacheAfter (Some addrA)
         (Some ''abc''))
       = Inr (Response 400 [(''cache-control'', ''no-store'')] (ErrorJson ''Invalid since''))
   \<and> rewardsCacheAfter (rewards_cacheKey addrA)
       = Some \<lparr>ce_ts = 10000000600, ce_payload = PayloadJson windowPayload\<rparr>
   \<and> earnedCacheAfter (earned_cacheKey addrA ''1000'')
       = Some \<lparr>ce_ts = 10000000600, ce_payload = PayloadJson sincePayload\<rparr>
   \<and> fst (rewardsGET decimalNumber longFeed (clockAt 10000045599) rewardsCacheAfter (Some addrA))
       \<noteq> Inr (Response 400 [(''cache-control'', ''no-store'')] (ErrorJson ''Invalid address''))
   \<and> fst (earnedGET decimalNumber longFeed (clockAt 10000045599) earnedCacheAfter (Some addrA)
         (Some ''1000''))
       \<noteq> Inr (Response 400 [(''cache-control'', ''no-store'')] (ErrorJson ''Invalid since''))"
proof -
  have na: "\<not> addressesAccepted (queryParam (Some ''0x12''))"
    using example_params(5,6) by (simp add: addressesAccepted_def)
  have r400: "fst (rewardsGET decimalNumber longFeed exampleClock rewardsCacheAfter (Some ''0x12''))
       = Inr (Response 400 [(''cache-control'', ''no-store'')] (ErrorJson ''Invalid address''))"
    using rewardsGET_invalid [OF invalid_example_misses(1), of decimalNumber longFeed]
      example_params(5,6)
    by (simp add: badRequest_def)
  have e400: "fst (earnedGET decimalNumber longFeed exampleClock earnedCacheAfter (Some addrA)
         (Some ''abc''))
       = Inr (Response 400 [(''cache-control'', ''no-store'')] (ErrorJson ''Invalid since''))"
    using earnedGET_invalid_since [where toNumber = decimalNumber and since = "Some ''abc''",
        OF invalid_example_misses(2) example_params(1) example_params(8), of longFeed]
    by (simp add: badRequest_def)
  have rk: "rewardsCacheAfter (rewards_cacheKey addrA)
       = Some \<lparr>ce_ts = 10000000600, ce_payload = PayloadJson windowPayload\<rparr>"
    by (simp add: example_caches(1))
  have ek: "earnedCacheAfter (earned_cacheKey addrA ''1000'')
       = Some \<lparr>ce_ts = 10000000600, ce_payload = PayloadJson sincePayload\<rparr>"
    by (simp add: example_caches(2))
  note A = validation_failures_are_never_cached [where toNumber = decimalNumber
      and up = longFeed and clk = exampleClock and rc = rewardsCacheAfter
      and ec = earnedCacheAfter and param = "Some ''0x12''" and since = "Some ''abc''"
      and rhs = "[(''cache-control'', ''no-store'')]" and rbody = "ErrorJson ''Invalid address''"
      and rkey = "rewards_cacheKey addrA"
      and re = "\<lparr>ce_ts = 10000000600, ce_payload = PayloadJson windowPayload\<rparr>"
      and ekey = "earned_cacheKey addrA ''1000''"
      and ee = "\<lparr>ce_ts = 10000000600, ce_payload = PayloadJson sincePayload\<rparr>"]
  note B = validation_failures_are_never_cached [where toNumber = decimalNumber
      and up = longFeed and clk = exampleClock and ec = earnedCacheAfter
      and param = "Some addrA" and since = "Some ''abc''"
      and ehs = "[(''cache-control'', ''no-store'')]" and ebody = "ErrorJson ''Invalid since''"]
  note C = validation_failures_are_never_cached [where toNumber = decimalNumber
      and up = longFeed and clk = "clockAt 10000045599" and rc = rewardsCacheAfter
      and ec = earnedCacheAfter and param = "Some addrA" and since = "Some ''1000''"
      and st = 400 and hs = "[(''cache-control'', ''no-store'')]"]
  from A na r400
  have a: "fst (snd (rewardsGET decimalNumber longFeed exampleClock rewardsCacheAfter
      (Some ''0x12''))) = rewardsCacheAfter"
    by blast
  from B example_params(8) e400
  have b: "fst (snd (earnedGET decimalNumber longFeed exampleClock earnedCacheAfter (Some addrA)
         (Some ''abc''))) = earnedCacheAfter"
    by blast
  from A example_caches(3,4) rk ek
  have "(\<exists>p. ce_payload \<lparr>ce_ts = 10000000600, ce_payload = PayloadJson windowPayload\<rparr>
            = PayloadJson p)
      \<and> (\<exists>p. ce_payload \<lparr>ce_ts = 10000000600, ce_payload = PayloadJson sincePayload\<rparr>
            = PayloadJson p)"
    by blast
  from C [where msg = "''Invalid address''"] example_caches(3) example_params(1)
  have c: "fst (rewardsGET decimalNumber longFeed (clockAt 10000045599) rewardsCacheAfter
      (Some addrA))
       \<noteq> Inr (Response 400 [(''cache-control'', ''no-store'')] (ErrorJson ''Invalid address''))"
    by blast
  have "validSince (decimalNumber (queryParam (Some ''1000''))) \<noteq> None"
    using example_params(7) by simp
  with C [where msg = "''Invalid since''"] example_caches(4) example_params(1)
  have d: "fst (earnedGET decimalNumber longFeed (clockAt 10000045599) earnedCacheAfter
      (Some addrA) (Some ''1000''))
       \<noteq> Inr (Response 400 [(''cache-control'', ''no-store'')] (ErrorJson ''Invalid since''))"
    by blast
  from na example_params(8) a b r400 e400 rk ek c d show ?thesis by (intro conjI)
qed

end
